(* ===== verification/Handy_Prelude.thy ===== *)
theory Handy_Prelude
  imports Main "HOL-Library.Word" "HOL-Library.Monad_Syntax" "HOL-Library.Char_ord"
    "HOL-Library.List_Lexorder" "HOL-Library.Product_Lexorder"
begin

text \<open>
  Shared vocabulary of the development: the collections of hints, byte strings and the
  two C library character predicates the code uses, pointer scans over a byte array,
  decimal printing and reading of numbers, and the ordered map that stands for
  \<open>std::map\<close> together with its interface locale.
\<close>

unbundle bit_operations_syntax

named_theorems scan_simps \<open>what a pointer loop computes, in terms of list functions\<close>
named_theorems abs_simps \<open>operations seen through their abstraction functions\<close>
named_theorems inv_intros \<open>operations preserve their invariants\<close>

section \<open>Lists\<close>

lemma takeWhile_neq_all: "x \<notin> set p \<Longrightarrow> takeWhile (\<lambda>c. c \<noteq> x) p = p"
  by (induction p) auto

lemma takeWhile_neq: "x \<notin> set w \<Longrightarrow> takeWhile (\<lambda>c. c \<noteq> x) (w @ x # t) = w"
  by (induction w) auto

section \<open>Integers\<close>

text \<open>Conversion of a \<open>size_t\<close> or \<open>long\<close> to \<open>int\<close>.\<close>

definition c_int :: "int \<Rightarrow> int" where
  "c_int n = sint (word_of_int n :: 32 word)"

lemma c_int_id [simp]: "- (2 ^ 31) \<le> n \<Longrightarrow> n < 2 ^ 31 \<Longrightarrow> c_int n = n"
  by (simp add: c_int_def signed_of_int signed_take_bit_int_eq_self)

section \<open>Bytes and C characters\<close>

text \<open>A byte is a \<open>char\<close>; the contents of one allocation is a list of bytes.\<close>

type_synonym bytes = "char list"

abbreviation (input) NUL :: char where "NUL \<equiv> CHR 0x00"
abbreviation (input) LF :: char where "LF \<equiv> CHR 0x0A"
abbreviation (input) CR :: char where "CR \<equiv> CHR 0x0D"
abbreviation (input) DQ :: char where "DQ \<equiv> CHR 0x22"
abbreviation (input) CRLF :: bytes where "CRLF \<equiv> [CHR 0x0D, CHR 0x0A]"

text \<open>\<open>isspace\<close>, \<open>isdigit\<close> and \<open>tolower\<close> of the C locale.\<close>

definition isspace :: "char \<Rightarrow> bool" where
  "isspace c \<longleftrightarrow> c = CHR '' '' \<or> c = CHR 0x09 \<or> c = CHR 0x0A \<or> c = CHR 0x0B \<or> c = CHR 0x0C \<or> c = CHR 0x0D"

definition isdigit :: "char \<Rightarrow> bool" where
  "isdigit c \<longleftrightarrow> 48 \<le> (of_char c :: nat) \<and> (of_char c :: nat) \<le> 57"

definition tolower :: "char \<Rightarrow> char" where
  "tolower c = (let n = of_char c :: nat in if 65 \<le> n \<and> n \<le> 90 then char_of (n + 32) else c)"

lemma of_char_less_256 [simp]: "(of_char c :: nat) < 256"
  by (metis nat_of_char_less_256)

lemma tolower_idem [simp]: "tolower (tolower c) = tolower c"
  by (auto simp: tolower_def Let_def)

lemma char_eq_iff_of_char: "c = d \<longleftrightarrow> (of_char c :: nat) = of_char d"
  by simp

lemma isspace_iff: "isspace c \<longleftrightarrow> (of_char c :: nat) \<in> {32, 9, 10, 11, 12, 13}"
  unfolding isspace_def char_eq_iff_of_char by (simp del: of_char_eq_iff)

lemma tolower_not_space [simp]: "isspace (tolower c) = isspace c"
  by (auto simp: isspace_iff tolower_def Let_def)

section \<open>Pointer scans\<close>

text \<open>
  The loop \<open>while (p < e && P(*p)) p++\<close> over the allocation \<open>m\<close>, and its mirror image
  \<open>while (p < e && P(e[-1])) e--\<close>. Positions are offsets from the start of \<open>m\<close>.
\<close>

function scan_fwd :: "(char \<Rightarrow> bool) \<Rightarrow> bytes \<Rightarrow> nat \<Rightarrow> nat \<Rightarrow> nat" where
  "scan_fwd P m p e = (if p < e \<and> P (m ! p) then scan_fwd P m (Suc p) e else p)"
  by pat_completeness auto
termination
  by (relation "measure (\<lambda>(P, m, p, e). e - p)") auto

fun scan_bwd :: "(char \<Rightarrow> bool) \<Rightarrow> bytes \<Rightarrow> nat \<Rightarrow> nat \<Rightarrow> nat" where
  "scan_bwd P m p 0 = 0"
| "scan_bwd P m p (Suc e) = (if p < Suc e \<and> P (m ! e) then scan_bwd P m p e else Suc e)"

declare scan_fwd.simps [simp del]

text \<open>The bytes between two positions.\<close>

definition seg :: "bytes \<Rightarrow> nat \<Rightarrow> nat \<Rightarrow> bytes" where
  "seg m p e = take (e - p) (drop p m)"

lemma seg_Nil [simp]: "e \<le> p \<Longrightarrow> seg m p e = []"
  by (simp add: seg_def)

lemma length_seg [simp]: "e \<le> length m \<Longrightarrow> length (seg m p e) = e - p"
  by (simp add: seg_def)

lemma seg_all [simp]: "seg m 0 (length m) = m"
  by (simp add: seg_def)

lemma seg_Cons: "p < e \<Longrightarrow> e \<le> length m \<Longrightarrow> seg m p e = m ! p # seg m (Suc p) e"
  by (simp add: seg_def Cons_nth_drop_Suc [symmetric] Suc_diff_Suc [symmetric])

lemma seg_snoc: "p < Suc e \<Longrightarrow> Suc e \<le> length m \<Longrightarrow> seg m p (Suc e) = seg m p e @ [m ! e]"
  by (simp add: seg_def Suc_diff_le take_Suc_conv_app_nth)

lemma seg_append: "p \<le> q \<Longrightarrow> q \<le> e \<Longrightarrow> seg m p e = seg m p q @ seg m q e"
proof -
  assume "p \<le> q" "q \<le> e"
  then have "e - p = (q - p) + (e - q)" and "drop q m = drop (q - p) (drop p m)" by simp_all
  then show ?thesis unfolding seg_def by (simp only: take_add)
qed

lemma take_seg: "take n (seg m p e) = seg m p (min e (p + n))"
proof -
  have "min n (e - p) = min e (p + n) - p" by auto
  then show ?thesis by (simp add: seg_def)
qed

lemma drop_seg: "drop n (seg m p e) = seg m (p + n) e"
  by (simp add: seg_def drop_take add.commute)

lemma nth_seg: "i < e - p \<Longrightarrow> e \<le> length m \<Longrightarrow> seg m p e ! i = m ! (p + i)"
  by (simp add: seg_def)

lemma scan_fwd_bounds: "p \<le> scan_fwd P m p e \<and> (p \<le> e \<longrightarrow> scan_fwd P m p e \<le> e)"
proof (induction P m p e rule: scan_fwd.induct)
  case (1 P m p e)
  then show ?case by (auto simp: scan_fwd.simps [of P m p e])
qed

lemmas scan_fwd_ge = scan_fwd_bounds [THEN conjunct1]
lemmas scan_fwd_le = scan_fwd_bounds [THEN conjunct2, rule_format]

lemma scan_fwd_stop: "\<not> (p < e \<and> P (m ! p)) \<Longrightarrow> scan_fwd P m p e = p"
  by (subst scan_fwd.simps) auto

lemma scan_fwd_step: "p < e \<Longrightarrow> P (m ! p) \<Longrightarrow> p < scan_fwd P m p e"
  using scan_fwd_ge [of "Suc p" P m e] by (subst scan_fwd.simps) simp

lemma scan_fwd_eq [scan_simps]:
  "p \<le> e \<Longrightarrow> e \<le> length m \<Longrightarrow> scan_fwd P m p e = p + length (takeWhile P (seg m p e))"
proof (induction P m p e rule: scan_fwd.induct)
  case (1 P m p e)
  show ?case
  proof (cases "p < e")
    case True
    with 1 show ?thesis by (auto simp: scan_fwd.simps [of P m p e] seg_Cons)
  next
    case False
    with 1 show ?thesis by (subst scan_fwd.simps) simp
  qed
qed

lemma seg_scan_fwd [scan_simps]:
  assumes "p \<le> e" and "e \<le> length m"
  shows "seg m p (scan_fwd P m p e) = takeWhile P (seg m p e)"
    and "seg m (scan_fwd P m p e) e = dropWhile P (seg m p e)"
proof -
  let ?n = "length (takeWhile P (seg m p e))"
  have "p + ?n \<le> e"
    using scan_fwd_le [of p e P m] assms by (simp add: scan_fwd_eq)
  then have "seg m p (p + ?n) = take ?n (seg m p e)"
    by (simp add: take_seg min_absorb2)
  then show "seg m p (scan_fwd P m p e) = takeWhile P (seg m p e)"
    using assms by (simp add: scan_fwd_eq flip: takeWhile_eq_take)
  show "seg m (scan_fwd P m p e) e = dropWhile P (seg m p e)"
    using assms by (simp add: scan_fwd_eq dropWhile_eq_drop drop_seg)
qed

lemma scan_bwd_bounds: "p \<le> e \<Longrightarrow> p \<le> scan_bwd P m p e \<and> scan_bwd P m p e \<le> e"
  by (induction e) (auto split: if_splits)

lemma seg_scan_bwd [scan_simps]:
  "p \<le> e \<Longrightarrow> e \<le> length m \<Longrightarrow>
   seg m p (scan_bwd P m p e) = rev (dropWhile P (rev (seg m p e)))"
proof (induction e)
  case 0
  then show ?case by simp
next
  case (Suc e)
  then show ?case
    by (cases "p < Suc e") (auto simp: seg_snoc not_less)
qed

lemma concat_replicate_snoc: "concat (replicate k xs) @ xs = concat (replicate (Suc k) xs)"
  by (simp flip: replicate_append_same)

section \<open>Decimal numbers\<close>

text \<open>\<open>show_nat\<close> is \<open>%d\<close>, \<open>%u\<close> and \<open>%lu\<close> of a non-negative number.\<close>

definition digit :: "nat \<Rightarrow> char" where
  "digit d = char_of (48 + d)"

fun show_nat :: "nat \<Rightarrow> bytes" where
  "show_nat n = (if n < 10 then [digit n] else show_nat (n div 10) @ [digit (n mod 10)])"

declare show_nat.simps [simp del]

text \<open>The digits \<open>strtol\<close> reads in base 10, starting from the value already read.\<close>

fun read_digits :: "nat \<Rightarrow> bytes \<Rightarrow> nat" where
  "read_digits acc [] = acc"
| "read_digits acc (c # cs) =
     (if isdigit c then read_digits (10 * acc + (of_char c - 48)) cs else acc)"

text \<open>
  \<open>strtol(s, _, 10)\<close>: leading white space, an optional sign, digits; the result saturates
  at the bounds of \<open>long\<close>. \<open>atoi\<close> is \<open>(int) strtol(s, 0, 10)\<close>, which keeps the low 32 bits.
\<close>

definition strtol10 :: "bytes \<Rightarrow> int" where
  "strtol10 s =
     (let t = dropWhile isspace s;
          neg = (t \<noteq> [] \<and> hd t = CHR ''-'');
          u = (if t \<noteq> [] \<and> (hd t = CHR ''-'' \<or> hd t = CHR ''+'') then tl t else t);
          v = int (read_digits 0 u)
      in if neg then max (- (2 ^ 63)) (- v) else min (2 ^ 63 - 1) v)"

definition atoi :: "bytes \<Rightarrow> int" where
  "atoi s = sint (word_of_int (strtol10 s) :: 32 word)"

lemma of_char_digit [simp]: "d < 10 \<Longrightarrow> (of_char (digit d) :: nat) = 48 + d"
  by (simp add: digit_def)

lemma isdigit_digit [simp]: "d < 10 \<Longrightarrow> isdigit (digit d)"
  by (simp add: isdigit_def)

lemma isdigit_not_isspace: "isdigit c \<Longrightarrow> \<not> isspace c"
  by (auto simp: isdigit_def isspace_iff)

lemma isdigit_sign [simp]: "\<not> isdigit (CHR ''-'')" "\<not> isdigit (CHR ''+'')"
  by (simp_all add: isdigit_def)

lemma show_nat_digits: "\<forall>c \<in> set (show_nat n). isdigit c"
proof (induction n rule: show_nat.induct)
  case (1 n)
  then show ?case by (subst show_nat.simps) auto
qed

lemma show_nat_not_Nil [simp]: "show_nat n \<noteq> []"
  by (subst show_nat.simps) simp

lemma read_digits_append:
  "\<forall>c \<in> set s. isdigit c \<Longrightarrow> read_digits acc (s @ t) = read_digits (read_digits acc s) t"
  by (induction s arbitrary: acc) auto

lemma read_digits_stop: "t = [] \<or> \<not> isdigit (hd t) \<Longrightarrow> read_digits acc t = acc"
  by (cases t) auto

lemma read_show_nat [simp]: "read_digits 0 (show_nat n) = n"
proof (induction n rule: show_nat.induct)
  case (1 n)
  show ?case
  proof (cases "n < 10")
    case True
    then show ?thesis by (subst show_nat.simps) simp
  next
    case False
    with 1 show ?thesis
      by (subst show_nat.simps) (simp add: read_digits_append show_nat_digits)
  qed
qed

lemma show_nat_hd: "hd (show_nat n) \<noteq> CHR ''-''" "hd (show_nat n) \<noteq> CHR ''+''"
    "\<not> isspace (hd (show_nat n))"
proof -
  have d: "isdigit (hd (show_nat n))"
    using show_nat_digits [of n] hd_in_set [OF show_nat_not_Nil] by blast
  show "hd (show_nat n) \<noteq> CHR ''-''" "hd (show_nat n) \<noteq> CHR ''+''"
    "\<not> isspace (hd (show_nat n))"
    using d isdigit_sign isdigit_not_isspace by metis+
qed

text \<open>Reading back what was printed, whatever follows the number.\<close>

lemma atoi_show_nat:
  assumes "n < 2 ^ 31" and "t = [] \<or> \<not> isdigit (hd t)"
  shows "atoi (show_nat n @ t) = int n"
proof -
  have dw: "dropWhile isspace (show_nat n @ t) = show_nat n @ t"
    using show_nat_hd(3) [of n] by (cases "show_nat n") auto
  have rd: "read_digits 0 (show_nat n @ t) = n"
    using assms(2) by (simp add: read_digits_append show_nat_digits read_digits_stop)
  have "strtol10 (show_nat n @ t) = int n"
    using assms(1) show_nat_hd [of n] by (simp add: strtol10_def Let_def dw rd hd_append)
  then show ?thesis
    using assms(1) by (simp add: atoi_def signed_of_nat signed_take_bit_int_eq_self)
qed

lemma show_nat_inj [simp]: "show_nat a = show_nat b \<longleftrightarrow> a = b"
  by (metis read_show_nat)

lemma length_show_nat: "n < 10 ^ k \<Longrightarrow> length (show_nat n) \<le> max 1 k"
proof (induction n arbitrary: k rule: show_nat.induct)
  case (1 n)
  show ?case
  proof (cases "n < 10")
    case False
    then obtain j where k: "k = Suc j" using "1.prems" by (cases k) auto
    then have "n div 10 < 10 ^ j" using "1.prems" by auto
    with "1.IH" [OF False] have "length (show_nat (n div 10)) \<le> max 1 j" by blast
    moreover have "0 < j" using False "1.prems" k by (cases j) auto
    ultimately show ?thesis using False k by (subst show_nat.simps) simp
  qed (simp add: show_nat.simps)
qed

text \<open>A \<open>std::string\<close> read as a C string ends at its first zero byte.\<close>

definition cstr :: "bytes \<Rightarrow> bytes" where
  "cstr s = takeWhile (\<lambda>c. c \<noteq> NUL) s"

lemma cstr_append: "NUL \<notin> set s \<Longrightarrow> cstr (s @ NUL # t) = s"
  by (simp add: cstr_def takeWhile_neq)

lemma cstr_id: "NUL \<notin> set s \<Longrightarrow> cstr s = s"
  by (simp add: cstr_def takeWhile_neq_all)

lemma cstr_prefix: "NUL \<notin> set a \<Longrightarrow> cstr (a @ b) = a @ cstr b"
  by (induction a) (auto simp: cstr_def)

text \<open>\<open>%d\<close> of an \<open>int\<close>.\<close>

definition show_int :: "int \<Rightarrow> bytes" where
  "show_int n = (if n < 0 then CHR ''-'' # show_nat (nat (- n)) else show_nat (nat n))"

lemma show_int_NUL: "NUL \<notin> set (show_int u)"
  using show_nat_digits [of "nat u"] show_nat_digits [of "nat (- u)"] by (auto simp: show_int_def isdigit_def)

section \<open>Ordered maps\<close>

text \<open>
  \<open>std::map\<close> is a list of pairs with strictly increasing keys: \<open>map_put\<close> is \<open>m[k] = v\<close>,
  \<open>map_erase\<close> is \<open>erase\<close>, \<open>map_of\<close> is \<open>find\<close> and the head is \<open>*begin()\<close>.
\<close>

fun map_put :: "'k::linorder \<Rightarrow> 'v \<Rightarrow> ('k \<times> 'v) list \<Rightarrow> ('k \<times> 'v) list" where
  "map_put k v [] = [(k, v)]"
| "map_put k v ((a, b) # m) =
     (if k < a then (k, v) # (a, b) # m else if k = a then (k, v) # m else (a, b) # map_put k v m)"

definition map_erase :: "'k \<Rightarrow> ('k \<times> 'v) list \<Rightarrow> ('k \<times> 'v) list" where
  "map_erase k m = filter (\<lambda>p. fst p \<noteq> k) m"

definition map_ok :: "('k::linorder \<times> 'v) list \<Rightarrow> bool" where
  "map_ok m \<longleftrightarrow> sorted_wrt (<) (map fst m)"

definition map_begin :: "('k \<times> 'v) list \<Rightarrow> ('k \<times> 'v) option" where
  "map_begin m = (case m of [] \<Rightarrow> None | p # _ \<Rightarrow> Some p)"

lemma map_ok_Nil [simp]: "map_ok []"
  by (simp add: map_ok_def)

lemma map_ok_Cons [simp]: "map_ok (p # m) \<longleftrightarrow> (\<forall>q \<in> set m. fst p < fst q) \<and> map_ok m"
  by (auto simp: map_ok_def)

lemma map_of_put [simp]: "map_ok m \<Longrightarrow> map_of (map_put k v m) = (map_of m)(k \<mapsto> v)"
  by (induction k v m rule: map_put.induct) (auto simp: fun_eq_iff)

lemma set_map_put: "set (map_put k v m) \<subseteq> insert (k, v) (set m)"
  by (induction k v m rule: map_put.induct) auto

lemma map_ok_put [simp, inv_intros]: "map_ok m \<Longrightarrow> map_ok (map_put k v m)"
proof (induction k v m rule: map_put.induct)
  case (2 k v a b m)
  then show ?case using set_map_put [of k v m] by fastforce
qed simp

lemma map_of_erase [simp]: "map_of (map_erase k m) = (map_of m)(k := None)"
  by (induction m) (auto simp: map_erase_def)

lemma map_ok_erase [simp, inv_intros]: "map_ok m \<Longrightarrow> map_ok (map_erase k m)"
  by (induction m) (auto simp: map_erase_def)

lemma map_ok_distinct: "map_ok m \<Longrightarrow> distinct (map fst m)"
  by (simp add: map_ok_def strict_sorted_iff)

lemma map_of_set: "map_ok m \<Longrightarrow> map_of m k = Some v \<longleftrightarrow> (k, v) \<in> set m"
  by (simp add: map_ok_distinct)

lemma map_erase_hd: "map_ok ((k, v) # m) \<Longrightarrow> map_erase k ((k, v) # m) = m"
  by (force simp: map_erase_def intro: filter_True)

text \<open>The interface of an ordered map, and what its clients use.\<close>

locale ordered_map =
  fixes empt :: "'m"
    and put :: "'k::linorder \<Rightarrow> 'v \<Rightarrow> 'm \<Rightarrow> 'm"
    and erase :: "'k \<Rightarrow> 'm \<Rightarrow> 'm"
    and find :: "'m \<Rightarrow> 'k \<Rightarrow> 'v option"
    and least :: "'m \<Rightarrow> ('k \<times> 'v) option"
    and ok :: "'m \<Rightarrow> bool"
  assumes find_empt: "find empt k = None"
    and ok_empt: "ok empt"
    and find_put: "ok m \<Longrightarrow> find (put k v m) k' = (if k' = k then Some v else find m k')"
    and ok_put: "ok m \<Longrightarrow> ok (put k v m)"
    and find_erase: "ok m \<Longrightarrow> find (erase k m) k' = (if k' = k then None else find m k')"
    and ok_erase: "ok m \<Longrightarrow> ok (erase k m)"
    and least_None: "ok m \<Longrightarrow> least m = None \<longleftrightarrow> (\<forall>k. find m k = None)"
    and least_find: "ok m \<Longrightarrow> least m = Some (k, v) \<Longrightarrow> find m k = Some v"
    and least_le: "ok m \<Longrightarrow> least m = Some (k, v) \<Longrightarrow> find m k' = Some v' \<Longrightarrow> k \<le> k'"
begin

lemma erased_least_greater:
  "ok m \<Longrightarrow> least m = Some (k, v) \<Longrightarrow> find (erase k m) k' = Some v' \<Longrightarrow> k < k'"
  using find_erase least_le [of m k v k' v'] by (auto simp: order_le_less split: if_splits)

lemma successive_least_increase:
  assumes "ok m" and "least m = Some (k, v)" and "least (erase k m) = Some (k', v')"
  shows "k < k'"
  using erased_least_greater [OF assms(1,2)] least_find [OF ok_erase [OF assms(1)] assms(3)] .

lemma put_then_find [simp]: "ok m \<Longrightarrow> find (put k v m) k = Some v"
  by (simp add: find_put)

lemma least_put: "ok m \<Longrightarrow> least (put k v m) \<noteq> None"
  using least_None [OF ok_put, of m k v] by (metis option.distinct(1) put_then_find)

lemma least_put_le: "ok m \<Longrightarrow> least (put k v m) = Some (k', v') \<Longrightarrow> k' \<le> k"
  using least_le [OF ok_put, of m k v k' v' k v] by simp

end

interpretation stdmap: ordered_map "[]" map_put map_erase map_of map_begin map_ok
proof unfold_locales
  fix m :: "('a \<times> 'b) list" and k v k' v'
  assume "map_ok m"
  then show "map_begin m = None \<longleftrightarrow> (\<forall>k. map_of m k = None)"
    by (cases m) (auto simp: map_begin_def intro: exI [of _ "fst (hd m)"])
  assume "map_begin m = Some (k, v)"
  then obtain n where m: "m = (k, v) # n" by (cases m) (auto simp: map_begin_def)
  then show "map_of m k = Some v" by simp
  assume "map_of m k' = Some v'"
  with \<open>map_ok m\<close> m show "k \<le> k'"
    by (auto split: if_splits dest!: map_of_SomeD)
qed auto

end
