(* ===== verification/Handy_Slice.thy ===== *)
theory Handy_Slice
  imports Handy_Prelude
begin

text \<open>
  \<open>handy/slice.h\<close>: a \<open>Slice\<close> is a pair of pointers into an allocation it does not own.
  A pointer is an offset from the start of the allocation, and every operation that reads
  through a pointer takes the allocation \<open>m\<close> as an argument. Nothing forces \<open>pb_ \<le> pe_\<close>:
  \<open>slice_ok\<close> says when a slice is a proper view, \<open>slice_str\<close> is the byte string it shows, and
  the lemmas of the last section say what every pointer loop computes on that string.
\<close>

section \<open>The class and its accessors\<close>

record slice =
  s_pb :: nat
  s_pe :: nat

text \<open>
  \<open>Slice(const char *d, size_t n)\<close> adds \<open>n\<close> to a pointer, modulo the address space: a
  negative \<open>int\<close> passed as \<open>n\<close> moves the end before \<open>d\<close>.
\<close>

definition slice_range :: "nat \<Rightarrow> nat \<Rightarrow> slice" where
  "slice_range b e = \<lparr>s_pb = b, s_pe = e\<rparr>"

definition slice_len :: "nat \<Rightarrow> int \<Rightarrow> slice" where
  "slice_len d n = \<lparr>s_pb = d, s_pe = nat (int d + n)\<rparr>"

definition slice_size :: "slice \<Rightarrow> nat" where
  "slice_size s = nat ((int (s_pe s) - int (s_pb s)) mod 2 ^ 64)"

definition slice_empty :: "slice \<Rightarrow> bool" where
  "slice_empty s \<longleftrightarrow> s_pe s = s_pb s"

definition slice_at :: "bytes \<Rightarrow> slice \<Rightarrow> nat \<Rightarrow> char" where
  "slice_at m s n = m ! (s_pb s + n)"

definition slice_front :: "bytes \<Rightarrow> slice \<Rightarrow> char" where
  "slice_front m s = m ! s_pb s"

definition slice_back :: "bytes \<Rightarrow> slice \<Rightarrow> char" where
  "slice_back m s = m ! (s_pe s - 1)"

definition slice_resize :: "nat \<Rightarrow> slice \<Rightarrow> slice" where
  "slice_resize sz s = s\<lparr>s_pe := s_pb s + sz\<rparr>"

definition slice_str :: "bytes \<Rightarrow> slice \<Rightarrow> bytes" where
  "slice_str m s = seg m (s_pb s) (s_pe s)"

section \<open>Consuming operations\<close>

text \<open>\<open>eat\<close> returns the eaten part and moves \<open>pb_\<close>; it checks no bound.\<close>

definition slice_eat :: "int \<Rightarrow> slice \<Rightarrow> slice \<times> slice" where
  "slice_eat sz s = (slice_len (s_pb s) sz, s\<lparr>s_pb := nat (int (s_pb s) + sz)\<rparr>)"

definition slice_sub :: "int \<Rightarrow> int \<Rightarrow> slice \<Rightarrow> slice" where
  "slice_sub boff eoff s =
     \<lparr>s_pb = nat (int (s_pb s) + boff), s_pe = nat (int (s_pe s) + eoff)\<rparr>"

definition slice_eatWord :: "bytes \<Rightarrow> slice \<Rightarrow> slice \<times> slice" where
  "slice_eatWord m s =
     (let b = scan_fwd isspace m (s_pb s) (s_pe s);
          e = scan_fwd (\<lambda>c. \<not> isspace c) m b (s_pe s)
      in (slice_range b e, s\<lparr>s_pb := e\<rparr>))"

definition slice_eatLine :: "bytes \<Rightarrow> slice \<Rightarrow> slice \<times> slice" where
  "slice_eatLine m s =
     (let q = scan_fwd (\<lambda>c. c \<noteq> LF \<and> c \<noteq> CR) m (s_pb s) (s_pe s)
      in (slice_range (s_pb s) q, s\<lparr>s_pb := q\<rparr>))"

definition slice_trimSpace :: "bytes \<Rightarrow> slice \<Rightarrow> slice" where
  "slice_trimSpace m s =
     (let b = scan_fwd isspace m (s_pb s) (s_pe s)
      in \<lparr>s_pb = b, s_pe = (if b < s_pe s then scan_bwd isspace m b (s_pe s) else s_pe s)\<rparr>)"

section \<open>Comparison and splitting\<close>

text \<open>\<open>memcmp\<close> on two byte strings of the same length: only the sign is documented.\<close>

fun memcmp :: "bytes \<Rightarrow> bytes \<Rightarrow> int" where
  "memcmp (a # as) (b # bs) =
     (if (of_char a :: nat) < of_char b then -1
      else if (of_char b :: nat) < of_char a then 1 else memcmp as bs)"
| "memcmp _ _ = 0"

definition slice_compare :: "bytes \<Rightarrow> slice \<Rightarrow> bytes \<Rightarrow> slice \<Rightarrow> int" where
  "slice_compare m s m' t =
     (let sz = slice_size s; bsz = slice_size t;
          min_len = (if sz < bsz then sz else bsz);
          r = memcmp (take min_len (drop (s_pb s) m)) (take min_len (drop (s_pb t) m'))
      in if r = 0 then (if sz < bsz then -1 else if bsz < sz then 1 else r) else r)"

definition slice_starts_with :: "bytes \<Rightarrow> slice \<Rightarrow> bytes \<Rightarrow> slice \<Rightarrow> bool" where
  "slice_starts_with m s m' x \<longleftrightarrow>
     slice_size x \<le> slice_size s \<and>
     memcmp (take (slice_size x) (drop (s_pb s) m)) (take (slice_size x) (drop (s_pb x) m')) = 0"

definition slice_end_with :: "bytes \<Rightarrow> slice \<Rightarrow> bytes \<Rightarrow> slice \<Rightarrow> bool" where
  "slice_end_with m s m' x \<longleftrightarrow>
     slice_size x \<le> slice_size s \<and>
     memcmp (take (slice_size x) (drop (s_pe s - slice_size x) m))
            (take (slice_size x) (drop (s_pb x) m')) = 0"

definition slice_eq :: "bytes \<Rightarrow> slice \<Rightarrow> bytes \<Rightarrow> slice \<Rightarrow> bool" where
  "slice_eq m s m' t \<longleftrightarrow>
     slice_size s = slice_size t \<and>
     memcmp (take (slice_size s) (drop (s_pb s) m)) (take (slice_size s) (drop (s_pb t) m')) = 0"

function split_loop :: "bytes \<Rightarrow> char \<Rightarrow> nat \<Rightarrow> nat \<Rightarrow> nat \<Rightarrow> slice list \<Rightarrow> nat \<times> slice list" where
  "split_loop m ch p e b r =
     (if p < e
      then if m ! p = ch then split_loop m ch (Suc p) e (Suc p) (r @ [slice_range b p])
           else split_loop m ch (Suc p) e b r
      else (b, r))"
  by pat_completeness auto
termination
  by (relation "measure (\<lambda>(m, ch, p, e, b, r). e - p)") auto

declare split_loop.simps [simp del]

definition slice_split :: "bytes \<Rightarrow> char \<Rightarrow> slice \<Rightarrow> slice list" where
  "slice_split m ch s =
     (let (b, r) = split_loop m ch (s_pb s) (s_pe s) (s_pb s) []
      in if s_pe s \<noteq> s_pb s then r @ [slice_range b (s_pe s)] else r)"

section \<open>Proper views\<close>

definition slice_ok :: "bytes \<Rightarrow> slice \<Rightarrow> bool" where
  "slice_ok m s \<longleftrightarrow> s_pb s \<le> s_pe s \<and> s_pe s \<le> length m \<and> length m < 2 ^ 63"

lemma slice_okD:
  assumes "slice_ok m s"
  shows "s_pb s \<le> s_pe s" "s_pe s \<le> length m" "s_pe s - s_pb s < 2 ^ 64"
  using assms by (auto simp: slice_ok_def)

lemma slice_size_ok [abs_simps]: "slice_ok m s \<Longrightarrow> slice_size s = length (slice_str m s)"
proof -
  assume ok: "slice_ok m s"
  then have "(int (s_pe s) - int (s_pb s)) mod 2 ^ 64 = int (s_pe s - s_pb s)"
    using slice_okD [OF ok] by (simp add: mod_pos_pos_trivial)
  then show ?thesis
    using slice_okD [OF ok] by (simp add: slice_size_def slice_str_def)
qed

lemma slice_empty_ok [abs_simps]: "slice_ok m s \<Longrightarrow> slice_empty s \<longleftrightarrow> slice_str m s = []"
  by (auto simp: slice_empty_def slice_str_def slice_ok_def seg_def)

lemma take_drop_slice: "slice_ok m s \<Longrightarrow> n \<le> slice_size s \<Longrightarrow>
    take n (drop (s_pb s) m) = take n (slice_str m s)"
  by (simp add: slice_size_ok) (simp add: slice_str_def seg_def slice_ok_def min_absorb1)

lemma drop_end_slice:
  assumes "slice_ok m s" and "n \<le> slice_size s"
  shows "take n (drop (s_pe s - n) m) = drop (slice_size s - n) (slice_str m s)"
proof -
  have len: "slice_size s = s_pe s - s_pb s"
    using assms(1) slice_okD [OF assms(1)] by (simp add: slice_size_ok slice_str_def)
  with assms slice_okD(1) [OF assms(1)] have "s_pb s + (slice_size s - n) = s_pe s - n" and "s_pe s - (s_pe s - n) = n"
    by auto
  then show ?thesis by (simp add: slice_str_def drop_seg) (simp add: seg_def)
qed

lemma slice_eatWord_ok:
  assumes "slice_ok m s" and "slice_eatWord m s = (w, s')"
  shows "slice_ok m w" and "slice_ok m s'"
    and "slice_str m w = takeWhile (\<lambda>c. \<not> isspace c) (dropWhile isspace (slice_str m s))"
    and "slice_str m s' = dropWhile (\<lambda>c. \<not> isspace c) (dropWhile isspace (slice_str m s))"
    and "s_pe s' = s_pe s"
proof -
  let ?b = "scan_fwd isspace m (s_pb s) (s_pe s)"
  let ?e = "scan_fwd (\<lambda>c. \<not> isspace c) m ?b (s_pe s)"
  note ok = slice_okD [OF assms(1)]
  have b: "s_pb s \<le> ?b" "?b \<le> s_pe s" using scan_fwd_bounds ok(1) by blast+
  have e: "?b \<le> ?e" "?e \<le> s_pe s" using scan_fwd_bounds b(2) by blast+
  have eq: "w = slice_range ?b ?e" "s' = s\<lparr>s_pb := ?e\<rparr>"
    using assms(2) by (auto simp: slice_eatWord_def Let_def)
  show "slice_ok m w" "slice_ok m s'" "s_pe s' = s_pe s"
    using assms(1) b e by (auto simp: eq slice_ok_def slice_range_def)
  show "slice_str m w = takeWhile (\<lambda>c. \<not> isspace c) (dropWhile isspace (slice_str m s))"
    and "slice_str m s' = dropWhile (\<lambda>c. \<not> isspace c) (dropWhile isspace (slice_str m s))"
    using ok b by (simp_all add: eq slice_str_def slice_range_def seg_scan_fwd)
qed

lemma slice_eatLine_ok:
  assumes "slice_ok m s" and "slice_eatLine m s = (w, s')"
  shows "slice_ok m w" and "slice_ok m s'"
    and "slice_str m w = takeWhile (\<lambda>c. c \<noteq> LF \<and> c \<noteq> CR) (slice_str m s)"
    and "slice_str m s' = dropWhile (\<lambda>c. c \<noteq> LF \<and> c \<noteq> CR) (slice_str m s)"
    and "s_pe s' = s_pe s"
proof -
  let ?q = "scan_fwd (\<lambda>c. c \<noteq> LF \<and> c \<noteq> CR) m (s_pb s) (s_pe s)"
  note ok = slice_okD [OF assms(1)]
  have q: "s_pb s \<le> ?q" "?q \<le> s_pe s" using scan_fwd_bounds ok(1) by blast+
  have eq: "w = slice_range (s_pb s) ?q" "s' = s\<lparr>s_pb := ?q\<rparr>"
    using assms(2) by (auto simp: slice_eatLine_def Let_def)
  show "slice_ok m w" "slice_ok m s'" "s_pe s' = s_pe s"
    using assms(1) q by (auto simp: eq slice_ok_def slice_range_def)
  show "slice_str m w = takeWhile (\<lambda>c. c \<noteq> LF \<and> c \<noteq> CR) (slice_str m s)"
    and "slice_str m s' = dropWhile (\<lambda>c. c \<noteq> LF \<and> c \<noteq> CR) (slice_str m s)"
    using ok by (simp_all add: eq slice_str_def slice_range_def seg_scan_fwd)
qed

text \<open>\<open>trim\<close> removes the white space at both ends of a byte string.\<close>

definition trim :: "bytes \<Rightarrow> bytes" where
  "trim s = rev (dropWhile isspace (rev (dropWhile isspace s)))"

lemma slice_trimSpace_ok:
  assumes "slice_ok m s"
  shows "slice_ok m (slice_trimSpace m s)"
    and "slice_str m (slice_trimSpace m s) = trim (slice_str m s)"
proof -
  let ?b = "scan_fwd isspace m (s_pb s) (s_pe s)"
  note ok = slice_okD [OF assms(1)]
  have b: "s_pb s \<le> ?b" "?b \<le> s_pe s" using scan_fwd_bounds ok(1) by blast+
  show "slice_ok m (slice_trimSpace m s)"
    using assms b scan_bwd_bounds [OF b(2), of isspace m]
    by (auto simp: slice_trimSpace_def slice_ok_def Let_def)
  have "seg m ?b (s_pe s) = dropWhile isspace (slice_str m s)"
    using ok by (simp add: slice_str_def seg_scan_fwd)
  then show "slice_str m (slice_trimSpace m s) = trim (slice_str m s)"
    using ok b seg_scan_bwd [OF b(2) ok(2), of isspace]
    by (auto simp: slice_trimSpace_def slice_str_def trim_def Let_def not_less
        split: if_splits dest: sym)
qed

lemma slice_len_ok:
  assumes "slice_ok m s" and "int n \<le> int (slice_size s) - int k"
  shows "slice_ok m (slice_len (s_pb s + k) (int n))"
    and "slice_str m (slice_len (s_pb s + k) (int n)) = take n (drop k (slice_str m s))"
proof -
  have "slice_size s = s_pe s - s_pb s"
    using slice_size_ok [OF assms(1)] slice_okD [OF assms(1)] by (simp add: slice_str_def)
  with assms slice_okD(1) [OF assms(1)] have le: "s_pb s + k + n \<le> s_pe s" by auto
  show "slice_ok m (slice_len (s_pb s + k) (int n))"
    using assms le by (auto simp: slice_ok_def slice_len_def)
  show "slice_str m (slice_len (s_pb s + k) (int n)) = take n (drop k (slice_str m s))"
    using le by (simp add: slice_str_def slice_len_def drop_seg take_seg nat_add_distrib)
qed

section \<open>Comparison is the order of byte strings\<close>

lemma memcmp_less: "length a = length b \<Longrightarrow> memcmp a b < 0 \<longleftrightarrow> a < b"
  by (induction a b rule: memcmp.induct) (auto simp: less_char_def)

lemma memcmp_eq: "length a = length b \<Longrightarrow> memcmp a b = 0 \<longleftrightarrow> a = b"
  by (induction a b rule: memcmp.induct)
     (auto simp: not_less dest: order.antisym)

lemma memcmp_le_1: "memcmp a b \<in> {-1, 0, 1}"
  by (induction a b rule: memcmp.induct) auto

text \<open>Byte strings are ordered by their first difference, then by length.\<close>

lemma less_take_iff:
  fixes a b :: bytes
  assumes "n = min (length a) (length b)"
  shows "a < b \<longleftrightarrow> take n a < take n b \<or> take n a = take n b \<and> length a < length b"
  using assms
proof (induction a arbitrary: b n)
  case (Cons x a)
  then show ?case
  proof (cases b)
    case (Cons y b')
    have "n = Suc (min (length a) (length b'))" using Cons.prems Cons by simp
    then show ?thesis using Cons Cons.IH [of "min (length a) (length b')" b'] by auto
  qed simp
qed (auto simp: less_le_not_le [of "[]"])

lemma slice_compare_less:
  assumes "slice_ok m s" and "slice_ok m' t"
  shows "slice_compare m s m' t < 0 \<longleftrightarrow> slice_str m s < slice_str m' t"
    and "slice_compare m s m' t = 0 \<longleftrightarrow> slice_str m s = slice_str m' t"
proof -
  let ?a = "slice_str m s" and ?b = "slice_str m' t"
  define n where "n = min (length ?a) (length ?b)"
  have sz: "slice_size s = length ?a" "slice_size t = length ?b"
    using assms by (simp_all add: slice_size_ok)
  have cmp: "slice_compare m s m' t =
    (let r = memcmp (take n ?a) (take n ?b)
     in if r = 0 then (if length ?a < length ?b then -1 else if length ?b < length ?a then 1 else r)
        else r)"
    using assms by (auto simp: slice_compare_def Let_def sz n_def take_drop_slice min_def)
  have len: "length (take n ?a) = length (take n ?b)" by (simp add: n_def)
  show "slice_compare m s m' t < 0 \<longleftrightarrow> ?a < ?b"
    using less_take_iff [OF n_def] memcmp_less [OF len] memcmp_eq [OF len]
    by (auto simp: cmp Let_def)
  have "?a = ?b \<longleftrightarrow> take n ?a = take n ?b \<and> length ?a = length ?b"
    by (auto simp: n_def)
  then show "slice_compare m s m' t = 0 \<longleftrightarrow> ?a = ?b"
    using memcmp_eq [OF len] by (auto simp: cmp Let_def)
qed

section \<open>Splitting\<close>

text \<open>The fields of a byte string between separators, and how they make it up again.\<close>

fun fields :: "char \<Rightarrow> bytes \<Rightarrow> bytes list" where
  "fields ch [] = [[]]"
| "fields ch (c # cs) =
     (if c = ch then [] # fields ch cs
      else (c # hd (fields ch cs)) # tl (fields ch cs))"

fun join :: "char \<Rightarrow> bytes list \<Rightarrow> bytes" where
  "join ch [] = []"
| "join ch [f] = f"
| "join ch (f # fs) = f @ ch # join ch fs"

lemma fields_not_Nil [simp]: "fields ch s \<noteq> []"
  by (cases s) auto

lemma join_fields: "join ch (fields ch s) = s"
proof (induction s)
  case (Cons c s)
  then show ?case by (cases "fields ch s"; cases "tl (fields ch s)") auto
qed simp

lemma fields_no_sep: "f \<in> set (fields ch s) \<Longrightarrow> ch \<notin> set f"
proof (induction s arbitrary: f)
  case (Cons c s)
  then show ?case
    by (cases "fields ch s") (auto split: if_splits)
qed simp

lemma fields_append: "ch \<notin> set a \<Longrightarrow> fields ch (a @ s) = (a @ hd (fields ch s)) # tl (fields ch s)"
  by (induction a) auto

lemma split_loop_fields:
  assumes "split_loop m ch p e b r = (b', r')" and "b \<le> p" and "p \<le> e" and "e \<le> length m"
    and "ch \<notin> set (seg m b p)"
  shows "map (slice_str m) (r' @ [slice_range b' e]) = map (slice_str m) r @ fields ch (seg m b e)"
  using assms
proof (induction m ch p e b r rule: split_loop.induct)
  case (1 m ch p e b r)
  consider "p = e" | "p < e" "m ! p = ch" | "p < e" "m ! p \<noteq> ch" using "1.prems" by linarith
  then show ?case
  proof cases
    case 1
    then have "fields ch (seg m b e) = [seg m b e]"
      using "1.prems"(5) fields_append [of ch "seg m b e" "[]"] by simp
    with 1 "1.prems"(1) show ?thesis
      by (simp add: split_loop.simps [of m ch e e] slice_str_def slice_range_def)
  next
    case 2
    then have "split_loop m ch (Suc p) e (Suc p) (r @ [slice_range b p]) = (b', r')"
      using "1.prems"(1) by (simp add: split_loop.simps [of m ch p])
    note IH = "1.IH"(1) [OF 2 this]
    have "seg m b e = seg m b p @ ch # seg m (Suc p) e"
      using 2 "1.prems" seg_append [of b p e m] seg_Cons [of p e m] by simp
    then show ?thesis using IH 2 "1.prems" fields_append [OF "1.prems"(5), of "ch # seg m (Suc p) e"]
      by (simp add: slice_str_def slice_range_def)
  next
    case 3
    then have "split_loop m ch (Suc p) e b r = (b', r')"
      using "1.prems"(1) by (simp add: split_loop.simps [of m ch p])
    then show ?thesis using "1.IH"(2) [OF 3] 3 "1.prems" by (simp add: seg_snoc)
  qed
qed

lemma slice_split_fields:
  assumes "slice_ok m s"
  shows "map (slice_str m) (slice_split m ch s) =
           (if slice_str m s = [] then [] else fields ch (slice_str m s))"
proof -
  note ok = slice_okD [OF assms]
  obtain b r where loop: "split_loop m ch (s_pb s) (s_pe s) (s_pb s) [] = (b, r)"
    by fastforce
  show ?thesis
  proof (cases "s_pe s = s_pb s")
    case True
    then show ?thesis
      by (simp add: slice_split_def split_loop.simps [of m ch "s_pb s"] slice_str_def)
  next
    case False
    moreover from False have "slice_str m s \<noteq> []"
      using slice_empty_ok [OF assms] by (simp add: slice_empty_def)
    ultimately show ?thesis
      using split_loop_fields [OF loop] ok by (simp add: slice_split_def loop slice_str_def)
  qed
qed

section \<open>Properties\<close>

text \<open>
  \<open>Slice::split\<close> of a non-empty slice gives the fields between the separators: none of them
  holds the separator, and joined with it they give the bytes of the slice back. Splitting an
  empty slice gives no field.
\<close>

theorem slice_split_join:
  assumes "slice_ok m s"
  shows "(if slice_str m s = [] then slice_split m ch s = []
    else join ch (map (slice_str m) (slice_split m ch s)) = slice_str m s) \<and>
    (\<forall>f \<in> set (slice_split m ch s). ch \<notin> set (slice_str m f))"
proof -
  have eq: "map (slice_str m) (slice_split m ch s) =
      (if slice_str m s = [] then [] else fields ch (slice_str m s))"
    by (rule slice_split_fields [OF assms])
  have "\<forall>f \<in> set (map (slice_str m) (slice_split m ch s)). ch \<notin> set f"
    unfolding eq by (auto dest: fields_no_sep)
  moreover have "slice_split m ch s = []" if "slice_str m s = []"
    using eq that by simp
  moreover have "join ch (map (slice_str m) (slice_split m ch s)) = slice_str m s" if "slice_str m s \<noteq> []"
    using eq that by (simp add: join_fields)
  ultimately show ?thesis by simp
qed

theorem slice_split_join_witness:
  "slice_str ''a,,b'' (slice_range 0 4) \<noteq> [] \<and>
   join (CHR '','') (map (slice_str ''a,,b'') (slice_split ''a,,b'' (CHR '','') (slice_range 0 4))) = ''a,,b''"
  using slice_split_join [of "''a,,b''" "slice_range 0 4" "CHR '',''"]
  by (auto simp: slice_ok_def slice_range_def slice_str_def seg_def)

text \<open>
  \<open>Slice::compare\<close> is the lexicographic order of the bytes, the shorter of two slices with
  a common prefix first: negative, zero or positive as the first is below, equal to or above
  the second, for slices of less than \<open>2 ^ 31\<close> bytes.
\<close>

theorem slice_compare_order:
  assumes "slice_ok m s" and "slice_ok m' t"
    and "length (slice_str m s) < 2 ^ 31" and "length (slice_str m' t) < 2 ^ 31"
  shows "(slice_compare m s m' t < 0 \<longleftrightarrow> slice_str m s < slice_str m' t) \<and>
    (slice_compare m s m' t = 0 \<longleftrightarrow> slice_str m s = slice_str m' t) \<and>
    (slice_compare m s m' t > 0 \<longleftrightarrow> slice_str m' t < slice_str m s)"
  using slice_compare_less [OF assms(1,2)] assms(3,4) by (auto simp: not_less_iff_gr_or_eq)

theorem slice_compare_order_witness:
  "slice_compare ''ab'' (slice_range 0 2) ''abc'' (slice_range 0 3) < 0"
  using slice_compare_order [of "''ab''" "slice_range 0 2" "''abc''" "slice_range 0 3"]
  by (simp add: slice_ok_def slice_range_def slice_str_def seg_def)

end
