(* ===== verification/Handy_Buffer.thy ===== *)
theory Handy_Buffer
  imports Handy_Slice
begin

text \<open>
  The class \<open>Buffer\<close> of \<open>handy/net.h\<close> and \<open>handy/net.cc\<close>: a growing array with a read
  position \<open>b_\<close> and a write position \<open>e_\<close>. A cell that \<open>new char[]\<close> made and nothing wrote is
  \<open>None\<close>; \<open>buf_ok\<close> says that the live part is inside the array and has been written, and
  \<open>buf_str\<close> is the byte string it holds. The locale \<open>byte_queue\<close> is what the rest of the
  library relies on: a queue of bytes, appended at one end and consumed at the other.
\<close>

record buffer =
  bf_buf :: "char option list option"  \<comment> \<open>\<open>buf_\<close>, \<open>None\<close> for \<open>NULL\<close>\<close>
  bf_b :: nat
  bf_e :: nat
  bf_cap :: nat
  bf_exp :: nat

definition bf_cells :: "buffer \<Rightarrow> char option list" where
  "bf_cells q = (case bf_buf q of None \<Rightarrow> [] | Some xs \<Rightarrow> xs)"

definition buf_new :: buffer where
  "buf_new = \<lparr>bf_buf = None, bf_b = 0, bf_e = 0, bf_cap = 0, bf_exp = 512\<rparr>"

definition buf_clear :: "buffer \<Rightarrow> buffer" where
  "buf_clear q = q\<lparr>bf_buf := None, bf_cap := 0, bf_b := 0, bf_e := 0\<rparr>"

definition buf_size :: "buffer \<Rightarrow> nat" where
  "buf_size q = bf_e q - bf_b q"

definition buf_empty :: "buffer \<Rightarrow> bool" where
  "buf_empty q \<longleftrightarrow> bf_e q = bf_b q"

definition buf_space :: "buffer \<Rightarrow> nat" where
  "buf_space q = bf_cap q - bf_e q"

definition buf_addSize :: "nat \<Rightarrow> buffer \<Rightarrow> buffer" where
  "buf_addSize len q = q\<lparr>bf_e := bf_e q + len\<rparr>"

text \<open>The cells between the two positions, and the bytes they hold.\<close>

definition bf_live :: "buffer \<Rightarrow> char option list" where
  "bf_live q = take (buf_size q) (drop (bf_b q) (bf_cells q))"

definition buf_str :: "buffer \<Rightarrow> bytes" where
  "buf_str q = map the (bf_live q)"

definition buf_moveHead :: "buffer \<Rightarrow> buffer" where
  "buf_moveHead q =
     q\<lparr>bf_buf := Some (bf_live q @ drop (buf_size q) (bf_cells q)),
       bf_e := bf_e q - bf_b q, bf_b := 0\<rparr>"

definition buf_expand :: "nat \<Rightarrow> buffer \<Rightarrow> buffer" where
  "buf_expand len q =
     (let ncap = max (bf_exp q) (max (2 * bf_cap q) (buf_size q + len));
          p = bf_live q @ replicate (ncap - buf_size q) None
      in q\<lparr>bf_e := bf_e q - bf_b q, bf_b := 0, bf_buf := Some p, bf_cap := ncap\<rparr>)"

definition buf_makeRoom :: "nat \<Rightarrow> buffer \<Rightarrow> buffer" where
  "buf_makeRoom len q =
     (if bf_e q + len \<le> bf_cap q then q
      else if buf_size q + len < bf_cap q div 2 then buf_moveHead q
      else buf_expand len q)"

text \<open>\<open>makeRoom()\<close> without a length.\<close>

definition buf_makeRoom0 :: "buffer \<Rightarrow> buffer" where
  "buf_makeRoom0 q = (if buf_space q < bf_exp q then buf_expand 0 q else q)"

definition buf_allocRoom :: "nat \<Rightarrow> buffer \<Rightarrow> buffer" where
  "buf_allocRoom len q = buf_addSize len (buf_makeRoom len q)"

text \<open>\<open>memcpy(p, bs, n)\<close> into the array at an offset.\<close>

definition buf_store :: "nat \<Rightarrow> bytes \<Rightarrow> buffer \<Rightarrow> buffer" where
  "buf_store i bs q =
     (if bs = [] then q
      else q\<lparr>bf_buf := Some (take i (bf_cells q) @ map Some bs @ drop (i + length bs) (bf_cells q))\<rparr>)"

definition buf_append :: "bytes \<Rightarrow> buffer \<Rightarrow> buffer" where
  "buf_append bs q =
     (let r = buf_makeRoom (length bs) q in buf_store (bf_e r) bs (buf_allocRoom (length bs) q))"

definition buf_consume :: "nat \<Rightarrow> buffer \<Rightarrow> buffer" where
  "buf_consume len q =
     (let r = q\<lparr>bf_b := bf_b q + len\<rparr> in if bf_e r = bf_b r then buf_clear r else r)"

text \<open>
  \<open>this->absorb(buf)\<close> for two different buffers: an empty \<open>this\<close> swaps the arrays and
  both keep their own \<open>exp_\<close>. The result is the pair of the new \<open>this\<close> and the new \<open>buf\<close>.
  With \<open>&buf == this\<close> nothing happens.
\<close>

definition buf_absorb :: "buffer \<Rightarrow> buffer \<Rightarrow> buffer \<times> buffer" where
  "buf_absorb q r =
     (if buf_size q = 0 then (r\<lparr>bf_exp := bf_exp q\<rparr>, q\<lparr>bf_exp := bf_exp r\<rparr>)
      else (buf_append (buf_str r) q, buf_clear r))"

definition buf_copyFrom :: "buffer \<Rightarrow> buffer" where
  "buf_copyFrom q =
     (case bf_buf q of None \<Rightarrow> q
      | Some xs \<Rightarrow> q\<lparr>bf_buf := Some (take (bf_cap q)
          (replicate (bf_b q) None @ bf_live q @ replicate (bf_cap q - bf_e q) None))\<rparr>)"

section \<open>The invariant\<close>

definition buf_ok :: "buffer \<Rightarrow> bool" where
  "buf_ok q \<longleftrightarrow> bf_b q \<le> bf_e q \<and> bf_e q \<le> bf_cap q \<and> length (bf_cells q) = bf_cap q \<and>
     None \<notin> set (bf_live q)"

lemmas buf_defs = bf_cells_def buf_size_def buf_space_def bf_live_def

lemma buf_okD:
  assumes "buf_ok q"
  shows "bf_b q \<le> bf_e q" "bf_e q \<le> bf_cap q" "length (bf_cells q) = bf_cap q"
    "None \<notin> set (bf_live q)" "length (bf_live q) = buf_size q"
  using assms by (auto simp: buf_ok_def bf_live_def buf_size_def)

lemma buf_ok_new [simp, inv_intros]: "buf_ok buf_new"
  by (simp add: buf_ok_def buf_new_def buf_defs)

lemma buf_str_new [simp, abs_simps]: "buf_str buf_new = []"
  by (simp add: buf_str_def buf_new_def buf_defs)

lemma buf_ok_clear [simp, inv_intros]: "buf_ok (buf_clear q)"
  by (simp add: buf_ok_def buf_clear_def buf_defs)

lemma buf_str_clear [simp, abs_simps]: "buf_str (buf_clear q) = []"
  by (simp add: buf_str_def buf_clear_def buf_defs)

lemma length_buf_str: "buf_ok q \<Longrightarrow> length (buf_str q) = buf_size q"
  by (simp add: buf_str_def buf_okD)

lemma buf_size_str [abs_simps]: "buf_ok q \<Longrightarrow> buf_size q = length (buf_str q)"
  by (simp add: length_buf_str)

lemma buf_empty_str [abs_simps]: "buf_ok q \<Longrightarrow> buf_empty q \<longleftrightarrow> buf_str q = []"
  using length_buf_str [of q] buf_okD(1) [of q] by (auto simp: buf_empty_def buf_size_def)

text \<open>A live part can be read back: no byte of it is uninitialised.\<close>

lemma bf_live_str: "buf_ok q \<Longrightarrow> bf_live q = map Some (buf_str q)"
proof -
  assume "buf_ok q"
  then have "x = (Some \<circ> the) x" if "x \<in> set (bf_live q)" for x
    using that by (cases x) (auto simp: buf_ok_def)
  then show ?thesis by (simp add: buf_str_def map_idI)
qed

lemma buf_moveHead_ok:
  assumes "buf_ok q"
  shows "buf_ok (buf_moveHead q)" and "buf_str (buf_moveHead q) = buf_str q"
proof -
  note ok = buf_okD [OF assms]
  have live: "bf_live (buf_moveHead q) = bf_live q"
    using ok by (simp add: buf_moveHead_def bf_live_def bf_cells_def buf_size_def)
  show "buf_str (buf_moveHead q) = buf_str q"
    by (simp add: buf_str_def live)
  show "buf_ok (buf_moveHead q)"
    using ok by (simp add: buf_ok_def live) (auto simp: buf_moveHead_def bf_cells_def buf_size_def)
qed

lemma buf_expand_ok:
  assumes "buf_ok q"
  shows "buf_ok (buf_expand len q)" and "buf_str (buf_expand len q) = buf_str q"
    and "buf_size q + len \<le> bf_cap (buf_expand len q)"
    and "bf_e (buf_expand len q) = buf_size q"
proof -
  note ok = buf_okD [OF assms]
  have live: "bf_live (buf_expand len q) = bf_live q"
    using ok by (simp add: buf_expand_def bf_live_def bf_cells_def buf_size_def Let_def)
  show "buf_str (buf_expand len q) = buf_str q"
    by (simp add: buf_str_def live)
  show "buf_size q + len \<le> bf_cap (buf_expand len q)" and e: "bf_e (buf_expand len q) = buf_size q"
    by (simp_all add: buf_expand_def buf_size_def Let_def)
  show "buf_ok (buf_expand len q)"
    using ok by (simp add: buf_ok_def live)
      (auto simp: buf_expand_def bf_cells_def buf_size_def Let_def)
qed

lemma buf_makeRoom_ok:
  assumes "buf_ok q"
  shows "buf_ok (buf_makeRoom len q)" and "buf_str (buf_makeRoom len q) = buf_str q"
    and "bf_e (buf_makeRoom len q) + len \<le> bf_cap (buf_makeRoom len q)"
proof -
  note ok = buf_okD [OF assms] and mh = buf_moveHead_ok [OF assms] and ex = buf_expand_ok [OF assms]
  show "buf_ok (buf_makeRoom len q)" and "buf_str (buf_makeRoom len q) = buf_str q"
    using assms mh ex by (simp_all add: buf_makeRoom_def)
  show "bf_e (buf_makeRoom len q) + len \<le> bf_cap (buf_makeRoom len q)"
    using ex(3,4) [of len] by (auto simp: buf_makeRoom_def buf_moveHead_def buf_size_def)
qed

text \<open>Bytes stored right after the live part extend it.\<close>

lemma buf_store_ok:
  assumes "buf_ok q" and "bf_e q + length bs \<le> bf_cap q"
  shows "buf_ok (buf_store (bf_e q) bs (buf_addSize (length bs) q))"
    and "buf_str (buf_store (bf_e q) bs (buf_addSize (length bs) q)) = buf_str q @ bs"
proof -
  let ?r = "buf_store (bf_e q) bs (buf_addSize (length bs) q)"
  note ok = buf_okD [OF assms(1)]
  have cells: "bf_cells ?r = take (bf_e q) (bf_cells q) @ map Some bs @ drop (bf_e q + length bs) (bf_cells q)"
    by (cases "bs = []") (simp_all add: buf_store_def bf_cells_def buf_addSize_def)
  have pos: "bf_b ?r = bf_b q" "bf_e ?r = bf_e q + length bs" "bf_cap ?r = bf_cap q"
    by (simp_all add: buf_store_def buf_addSize_def)
  have live: "bf_live ?r = bf_live q @ map Some bs"
    using ok assms(2) by (simp add: bf_live_def buf_size_def pos cells min_absorb2 drop_take)
  show "buf_ok ?r"
    using ok assms(2) by (simp add: buf_ok_def live pos) (auto simp: cells)
  show "buf_str ?r = buf_str q @ bs"
    by (simp add: buf_str_def live)
qed

lemma buf_append_ok [simp]:
  assumes "buf_ok q"
  shows "buf_ok (buf_append bs q)" and "buf_str (buf_append bs q) = buf_str q @ bs"
  using buf_store_ok [OF buf_makeRoom_ok(1) [OF assms] buf_makeRoom_ok(3) [OF assms], of bs]
    buf_makeRoom_ok(2) [OF assms, of "length bs"]
  by (simp_all add: buf_append_def buf_allocRoom_def Let_def)

text \<open>Overwriting bytes of the contents.\<close>

lemma buf_store_at:
  assumes "buf_ok q" and "off + length bs \<le> buf_size q"
  shows "buf_ok (buf_store (bf_b q + off) bs q)"
    and "buf_str (buf_store (bf_b q + off) bs q) = take off (buf_str q) @ bs @ drop (off + length bs) (buf_str q)"
proof -
  let ?r = "buf_store (bf_b q + off) bs q"
  note ok = buf_okD [OF assms(1)]
  have pos: "bf_b ?r = bf_b q" "bf_e ?r = bf_e q" "bf_cap ?r = bf_cap q" by (simp_all add: buf_store_def)
  have cells: "bf_cells ?r = take (bf_b q + off) (bf_cells q) @ map Some bs @ drop (bf_b q + off + length bs) (bf_cells q)"
    by (cases "bs = []") (simp_all add: buf_store_def bf_cells_def)
  define A where "A = take (bf_b q) (bf_cells q)"
  define Z where "Z = drop (bf_e q) (bf_cells q)"
  define L where "L = take off (bf_live q) @ map Some bs @ drop (off + length bs) (bf_live q)"
  have len: "length A = bf_b q" "length (bf_live q) = bf_e q - bf_b q" "length L = bf_e q - bf_b q"
    using ok assms(2) by (simp_all add: A_def L_def buf_size_def)
  have dec: "bf_cells q = A @ bf_live q @ Z"
  proof -
    have "Z = drop (buf_size q) (drop (bf_b q) (bf_cells q))" using ok(1) by (simp add: Z_def buf_size_def)
    then show ?thesis unfolding A_def bf_live_def by (simp only: append_take_drop_id)
  qed
  have "bf_cells ?r = A @ L @ Z"
    using len(1,2) assms(2) unfolding cells dec by (simp add: L_def buf_size_def)
  moreover have "buf_size ?r = bf_e q - bf_b q" by (simp add: buf_size_def pos)
  ultimately have live: "bf_live ?r = L" using len(1,3) by (simp add: bf_live_def pos)
  have "length (bf_cells ?r) = bf_cap q" using ok assms(2) by (simp add: cells buf_size_def)
  moreover have "None \<notin> set (bf_live ?r)"
    using ok(4) by (auto simp: live L_def dest: in_set_takeD in_set_dropD)
  ultimately show "buf_ok ?r" using ok by (simp add: buf_ok_def pos)
  show "buf_str ?r = take off (buf_str q) @ bs @ drop (off + length bs) (buf_str q)"
    by (simp add: buf_str_def live L_def take_map drop_map)
qed

lemma buf_consume_ok:
  assumes "buf_ok q" and "n \<le> length (buf_str q)"
  shows "buf_ok (buf_consume n q)" and "buf_str (buf_consume n q) = drop n (buf_str q)"
proof -
  note ok = buf_okD [OF assms(1)]
  have n: "bf_b q + n \<le> bf_e q"
    using assms ok by (simp add: length_buf_str buf_size_def)
  let ?r = "q\<lparr>bf_b := bf_b q + n\<rparr>"
  have live: "bf_live ?r = drop n (bf_live q)"
    by (simp add: bf_live_def buf_size_def bf_cells_def drop_take add.commute)
  have r: "buf_ok ?r" "buf_str ?r = drop n (buf_str q)"
    using ok n by (auto simp: buf_ok_def live buf_str_def drop_map bf_cells_def
        dest: in_set_dropD)
  show "buf_ok (buf_consume n q)"
    using r by (simp add: buf_consume_def Let_def)
  have "bf_e ?r = bf_b ?r \<Longrightarrow> drop n (buf_str q) = []"
    using assms ok by (simp add: length_buf_str buf_size_def)
  then show "buf_str (buf_consume n q) = drop n (buf_str q)"
    using r by (simp add: buf_consume_def Let_def)
qed

lemma buf_str_exp [simp]: "buf_str (q\<lparr>bf_exp := x\<rparr>) = buf_str q"
  by (simp add: buf_str_def bf_live_def bf_cells_def buf_size_def)

lemma buf_ok_exp [simp]: "buf_ok (q\<lparr>bf_exp := x\<rparr>) = buf_ok q"
  by (simp add: buf_ok_def bf_live_def bf_cells_def buf_size_def)

lemma buf_absorb_ok:
  assumes "buf_ok q" and "buf_ok r"
  shows "buf_ok (fst (buf_absorb q r))" and "buf_ok (snd (buf_absorb q r))"
    and "buf_str (fst (buf_absorb q r)) = buf_str q @ buf_str r"
    and "buf_str (snd (buf_absorb q r)) = []"
  using assms length_buf_str [of q] by (auto simp: buf_absorb_def)

lemma buf_copyFrom_ok:
  assumes "buf_ok q"
  shows "buf_ok (buf_copyFrom q)" and "buf_str (buf_copyFrom q) = buf_str q"
proof -
  note ok = buf_okD [OF assms]
  have live: "bf_live (buf_copyFrom q) = bf_live q"
    using ok by (cases "bf_buf q")
      (simp_all add: buf_copyFrom_def bf_live_def [of "q\<lparr>bf_buf := _\<rparr>"] bf_cells_def [of "q\<lparr>bf_buf := _\<rparr>"]
        buf_size_def [of "q\<lparr>bf_buf := _\<rparr>"], simp add: buf_size_def)
  show "buf_str (buf_copyFrom q) = buf_str q"
    by (simp add: buf_str_def live)
  show "buf_ok (buf_copyFrom q)"
    using ok by (cases "bf_buf q") (simp_all add: buf_ok_def live, simp_all add: buf_copyFrom_def
        bf_cells_def buf_size_def)
qed

text \<open>\<open>makeRoom()\<close> always leaves room for a read, which is what the receive loop relies on.\<close>

lemma buf_makeRoom0_ok:
  assumes "buf_ok q"
  shows "buf_ok (buf_makeRoom0 q)" and "buf_str (buf_makeRoom0 q) = buf_str q"
    and "0 < bf_exp q \<Longrightarrow> 0 < buf_space (buf_makeRoom0 q)"
    and "bf_exp q \<le> bf_cap q \<or> bf_cap q = 0 \<Longrightarrow> bf_exp q \<le> buf_space (buf_makeRoom0 q)"
proof -
  note ok = buf_okD [OF assms] and ex = buf_expand_ok [OF assms]
  show "buf_ok (buf_makeRoom0 q)" and "buf_str (buf_makeRoom0 q) = buf_str q"
    using assms ex by (simp_all add: buf_makeRoom0_def)
  have sz: "buf_size q \<le> bf_cap q" using ok by (simp add: buf_size_def)
  have sp: "buf_space (buf_expand 0 q) = max (bf_exp q) (max (2 * bf_cap q) (buf_size q)) - buf_size q"
    by (simp add: buf_space_def ex(4)) (simp add: buf_expand_def Let_def)
  show "0 < buf_space (buf_makeRoom0 q)" if "0 < bf_exp q"
    using that sz sp by (auto simp: buf_makeRoom0_def)
  show "bf_exp q \<le> buf_space (buf_makeRoom0 q)" if "bf_exp q \<le> bf_cap q \<or> bf_cap q = 0"
    using that sz sp by (auto simp: buf_makeRoom0_def)
qed

section \<open>The interface: a queue of bytes\<close>

locale byte_queue =
  fixes emp :: 'q
    and app :: "bytes \<Rightarrow> 'q \<Rightarrow> 'q"
    and eat :: "nat \<Rightarrow> 'q \<Rightarrow> 'q"
    and take_over :: "'q \<Rightarrow> 'q \<Rightarrow> 'q \<times> 'q"
    and str :: "'q \<Rightarrow> bytes"
    and ok :: "'q \<Rightarrow> bool"
  assumes ok_emp: "ok emp"
    and str_emp: "str emp = []"
    and ok_app: "ok q \<Longrightarrow> ok (app bs q)"
    and str_app: "ok q \<Longrightarrow> str (app bs q) = str q @ bs"
    and ok_eat: "ok q \<Longrightarrow> n \<le> length (str q) \<Longrightarrow> ok (eat n q)"
    and str_eat: "ok q \<Longrightarrow> n \<le> length (str q) \<Longrightarrow> str (eat n q) = drop n (str q)"
    and ok_take_over: "ok q \<Longrightarrow> ok r \<Longrightarrow> ok (fst (take_over q r)) \<and> ok (snd (take_over q r))"
    and str_take_over: "ok q \<Longrightarrow> ok r \<Longrightarrow>
      str (fst (take_over q r)) = str q @ str r \<and> str (snd (take_over q r)) = []"
begin

text \<open>Appending in pieces is appending the whole, and eating in pieces is eating the sum.\<close>

lemma app_app: "ok q \<Longrightarrow> str (app b (app a q)) = str q @ a @ b"
  by (simp add: ok_app str_app)

lemma fold_app: "ok q \<Longrightarrow> ok (fold app bss q) \<and> str (fold app bss q) = str q @ concat bss"
  by (induction bss arbitrary: q) (auto simp: ok_app str_app)

lemma eat_eat:
  assumes "ok q" and "m + n \<le> length (str q)"
  shows "ok (eat n (eat m q))" and "str (eat n (eat m q)) = drop (m + n) (str q)"
  using assms by (auto simp: ok_eat str_eat add.commute)

lemma eat_app:
  assumes "ok q" and "n \<le> length (str q)"
  shows "str (eat n (app bs q)) = str (app bs (eat n q))"
  using assms by (simp add: ok_app str_app ok_eat str_eat)

text \<open>What was appended comes out in order: eating what was there leaves what was added.\<close>

lemma eat_old: "ok q \<Longrightarrow> str (eat (length (str q)) (app bs q)) = bs"
  by (simp add: ok_app str_app str_eat)

lemma eat_all: "ok q \<Longrightarrow> str (eat (length (str q)) q) = []"
  by (simp add: str_eat)

end

interpretation bufq: byte_queue buf_new buf_append buf_consume buf_absorb buf_str buf_ok
  by unfold_locales (auto simp: buf_consume_ok buf_absorb_ok)

lemmas buf_abs = bufq.ok_app bufq.str_app bufq.ok_eat bufq.str_eat

section \<open>Properties\<close>

text \<open>What the users of a buffer do with it.\<close>

datatype buf_op = Append bytes | Consume nat | MakeRoom | Absorb bytes

fun buf_do :: "buf_op \<Rightarrow> buffer \<Rightarrow> buffer" where
  "buf_do (Append bs) q = buf_append bs q"
| "buf_do (Consume n) q = buf_consume n q"
| "buf_do MakeRoom q = buf_makeRoom0 q"
| "buf_do (Absorb bs) q = fst (buf_absorb q (buf_append bs buf_new))"

fun str_do :: "buf_op \<Rightarrow> bytes \<Rightarrow> bytes" where
  "str_do (Append bs) s = s @ bs"
| "str_do (Consume n) s = drop n s"
| "str_do MakeRoom s = s"
| "str_do (Absorb bs) s = s @ bs"

text \<open>No more is consumed than is there.\<close>

fun consumes_ok :: "buf_op list \<Rightarrow> bytes \<Rightarrow> bool" where
  "consumes_ok [] s = True"
| "consumes_ok (Consume n # xs) s = (n \<le> length s \<and> consumes_ok xs (drop n s))"
| "consumes_ok (x # xs) s = consumes_ok xs (str_do x s)"

lemma buf_do_ok:
  "buf_ok q \<Longrightarrow> consumes_ok (x # xs) (buf_str q) \<Longrightarrow>
   buf_ok (buf_do x q) \<and> buf_str (buf_do x q) = str_do x (buf_str q) \<and> consumes_ok xs (str_do x (buf_str q))"
  by (cases x) (auto simp: buf_consume_ok buf_makeRoom0_ok buf_absorb_ok)

text \<open>
  C19: \<open>Buffer\<close> is a byte queue, through every reallocation and move of its array: after any
  sequence of appends, consumes, absorbed buffers and room made for reading, it holds the bytes
  a plain queue holds, within the bounds of its array and with no byte uninitialised.
\<close>

theorem buffer_is_byte_queue:
  "buf_ok q \<Longrightarrow> consumes_ok xs (buf_str q) \<Longrightarrow>
   buf_str (fold buf_do xs q) = fold str_do xs (buf_str q) \<and> buf_ok (fold buf_do xs q)"
proof (induction xs arbitrary: q)
  case (Cons x xs)
  with buf_do_ok [OF Cons.prems] show ?case by simp
qed simp

theorem buffer_is_byte_queue_witness:
  "buf_str (fold buf_do [Append ''hello'', MakeRoom, Consume 2, Absorb ''!'', Consume 4] buf_new) = []"
  using buffer_is_byte_queue [of buf_new "[Append ''hello'', MakeRoom, Consume 2, Absorb ''!'', Consume 4]"]
  by simp

end
