(* ===== verification/Handy_Net.thy ===== *)
theory Handy_Net
  imports Handy_Buffer
begin

text \<open>
  Byte order and addresses: \<open>handy/port_posix.h\<close> (the \<open>htobe\<close> family), \<open>getHostByName\<close> of
  \<open>handy/port_posix.cc\<close>, and \<open>net::hton\<close>, \<open>net::ntoh\<close> and \<open>Ip4Addr\<close> of \<open>handy/net.h\<close> and
  \<open>handy/net.cc\<close>. The host is little-endian, as \<open>kLittleEndian\<close> has it.
\<close>

section \<open>Byte order\<close>

text \<open>\<open>pv[i]\<close>: byte \<open>i\<close> of the little-endian layout of \<open>v\<close>, converted back to its type.\<close>

definition le_byte :: "nat \<Rightarrow> 'a::len word \<Rightarrow> 'a word" where
  "le_byte i v = take_bit 8 (drop_bit (8 * i) v)"

definition htobe16 :: "16 word \<Rightarrow> 16 word" where
  "htobe16 v = push_bit 8 (le_byte 0 v) OR le_byte 1 v"

definition htobe32 :: "32 word \<Rightarrow> 32 word" where
  "htobe32 v = push_bit 24 (le_byte 0 v) OR push_bit 16 (le_byte 1 v) OR
               push_bit 8 (le_byte 2 v) OR le_byte 3 v"

definition htobe64 :: "64 word \<Rightarrow> 64 word" where
  "htobe64 v = push_bit 56 (le_byte 0 v) OR push_bit 48 (le_byte 1 v) OR
               push_bit 40 (le_byte 2 v) OR push_bit 32 (le_byte 3 v) OR
               push_bit 24 (le_byte 4 v) OR push_bit 16 (le_byte 5 v) OR
               push_bit 8 (le_byte 6 v) OR le_byte 7 v"

text \<open>\<open>net::ntoh\<close> calls \<open>htobe\<close> as well.\<close>

definition net_hton32 :: "32 word \<Rightarrow> 32 word" where
  "net_hton32 v = htobe32 v"

definition net_ntoh32 :: "32 word \<Rightarrow> 32 word" where
  "net_ntoh32 v = htobe32 v"

lemma bit_le_byte: "bit (le_byte i v) n \<longleftrightarrow> n < 8 \<and> bit v (8 * i + n)"
  by (auto simp: le_byte_def bit_simps)

lemma htobe16_htobe16 [simp]: "htobe16 (htobe16 v) = v"
proof (rule bit_word_eqI)
  fix n assume "n < LENGTH(16)"
  then consider "n < 8" | "8 \<le> n" "n < 16" by fastforce
  then show "bit (htobe16 (htobe16 v)) n \<longleftrightarrow> bit v n"
    by cases (auto simp: htobe16_def bit_simps bit_le_byte)
qed

lemma bit_htobe32:
  "n < 8 \<Longrightarrow> bit (htobe32 v) n \<longleftrightarrow> bit v (24 + n)"
  "8 \<le> n \<Longrightarrow> n < 16 \<Longrightarrow> bit (htobe32 v) n \<longleftrightarrow> bit v (8 + n)"
  "16 \<le> n \<Longrightarrow> n < 24 \<Longrightarrow> bit (htobe32 v) n \<longleftrightarrow> bit v (n - 8)"
  "24 \<le> n \<Longrightarrow> n < 32 \<Longrightarrow> bit (htobe32 v) n \<longleftrightarrow> bit v (n - 24)"
  by (auto simp: htobe32_def bit_simps bit_le_byte)

lemma htobe32_htobe32 [simp]: "htobe32 (htobe32 v) = v"
proof (rule bit_word_eqI)
  fix n assume "n < LENGTH(32)"
  then consider "n < 8" | "8 \<le> n" "n < 16" | "16 \<le> n" "n < 24" | "24 \<le> n" "n < 32"
    by fastforce
  then show "bit (htobe32 (htobe32 v)) n \<longleftrightarrow> bit v n"
    by cases (simp_all add: bit_htobe32)
qed

lemma bit_htobe64:
  "n < 8 \<Longrightarrow> bit (htobe64 v) n \<longleftrightarrow> bit v (56 + n)"
  "8 \<le> n \<Longrightarrow> n < 16 \<Longrightarrow> bit (htobe64 v) n \<longleftrightarrow> bit v (40 + n)"
  "16 \<le> n \<Longrightarrow> n < 24 \<Longrightarrow> bit (htobe64 v) n \<longleftrightarrow> bit v (24 + n)"
  "24 \<le> n \<Longrightarrow> n < 32 \<Longrightarrow> bit (htobe64 v) n \<longleftrightarrow> bit v (8 + n)"
  "32 \<le> n \<Longrightarrow> n < 40 \<Longrightarrow> bit (htobe64 v) n \<longleftrightarrow> bit v (n - 8)"
  "40 \<le> n \<Longrightarrow> n < 48 \<Longrightarrow> bit (htobe64 v) n \<longleftrightarrow> bit v (n - 24)"
  "48 \<le> n \<Longrightarrow> n < 56 \<Longrightarrow> bit (htobe64 v) n \<longleftrightarrow> bit v (n - 40)"
  "56 \<le> n \<Longrightarrow> n < 64 \<Longrightarrow> bit (htobe64 v) n \<longleftrightarrow> bit v (n - 56)"
  by (simp_all add: htobe64_def bit_or_iff bit_push_bit_iff bit_le_byte less_diff_conv2)

lemma htobe64_htobe64 [simp]: "htobe64 (htobe64 v) = v"
proof (rule bit_word_eqI)
  fix n assume "n < LENGTH(64)"
  then consider "n < 8" | "8 \<le> n" "n < 16" | "16 \<le> n" "n < 24" | "24 \<le> n" "n < 32"
    | "32 \<le> n" "n < 40" | "40 \<le> n" "n < 48" | "48 \<le> n" "n < 56" | "56 \<le> n" "n < 64"
    by fastforce
  then show "bit (htobe64 (htobe64 v)) n \<longleftrightarrow> bit v n"
    by cases (simp_all add: bit_htobe64)
qed

section \<open>Values in memory\<close>

text \<open>
  The bytes of a 32-bit value as the little-endian host stores it (what \<open>appendValue\<close>
  copies), and the value a \<open>*(int32_t *)\<close> cast reads at an offset.
\<close>

definition byte_at :: "nat \<Rightarrow> 'a::len word \<Rightarrow> char" where
  "byte_at i v = char_of (unat (drop_bit (8 * i) v))"

definition store32 :: "32 word \<Rightarrow> bytes" where
  "store32 v = [byte_at 0 v, byte_at 1 v, byte_at 2 v, byte_at 3 v]"

definition char_word :: "char \<Rightarrow> 'a::len word" where
  "char_word c = word_of_nat (of_char c)"

definition load32 :: "bytes \<Rightarrow> nat \<Rightarrow> 32 word" where
  "load32 m p = char_word (m ! p) OR push_bit 8 (char_word (m ! (p + 1))) OR
     push_bit 16 (char_word (m ! (p + 2))) OR push_bit 24 (char_word (m ! (p + 3)))"

lemma length_store32 [simp]: "length (store32 v) = 4"
  by (simp add: store32_def)

lemma char_word_byte_at: "char_word (byte_at i v) = le_byte i v"
proof -
  have "(of_char (byte_at i v) :: nat) = take_bit 8 (unat (drop_bit (8 * i) v))"
    by (simp add: byte_at_def take_bit_eq_mod)
  then show ?thesis
    by (simp add: char_word_def le_byte_def flip: unsigned_take_bit_eq)
qed

lemma load32_store32_offset:
  assumes "length a = p"
  shows "load32 (a @ store32 v @ b) p = v"
proof -
  have nth: "(a @ store32 v @ b) ! (p + i) = store32 v ! i" if "i < 4" for i
    using that assms by (simp add: nth_append)
  have "load32 (a @ store32 v @ b) p =
      le_byte 0 v OR push_bit 8 (le_byte 1 v) OR push_bit 16 (le_byte 2 v) OR push_bit 24 (le_byte 3 v)"
    using nth [of 0] nth [of 1] nth [of 2] nth [of 3]
    by (simp add: load32_def store32_def char_word_byte_at)
  also have "\<dots> = v"
  proof (rule bit_word_eqI)
    fix n assume "n < LENGTH(32)"
    then consider "n < 8" | "8 \<le> n" "n < 16" | "16 \<le> n" "n < 24" | "24 \<le> n" "n < 32"
      by fastforce
    then show "bit (le_byte 0 v OR push_bit 8 (le_byte 1 v) OR push_bit 16 (le_byte 2 v) OR
        push_bit 24 (le_byte 3 v)) n \<longleftrightarrow> bit v n"
      by cases (auto simp: bit_simps bit_le_byte)
  qed
  finally show ?thesis .
qed

text \<open>\<open>hton\<close> puts the most significant byte first on the wire.\<close>

lemma store32_hton: "store32 (net_hton32 v) = rev (store32 v)"
proof -
  have "le_byte i (htobe32 v) = le_byte (3 - i) v" if "i < 4" for i
  proof (rule bit_word_eqI)
    fix n assume "n < LENGTH(32)"
    from that consider "i = 0" | "i = 1" | "i = 2" | "i = 3" by linarith
    then show "bit (le_byte i (htobe32 v)) n \<longleftrightarrow> bit (le_byte (3 - i) v) n"
      by cases (auto simp: bit_le_byte bit_htobe32)
  qed
  moreover have "byte_at i (w :: 32 word) = char_of (unat (le_byte i w))" for i w
    by (simp add: byte_at_def le_byte_def unsigned_take_bit_eq) (simp add: take_bit_eq_mod)
  ultimately have "byte_at i (htobe32 v) = byte_at (3 - i) v" if "i < 4" for i
    using that by simp
  from this [of 0] this [of 1] this [of 2] this [of 3] show ?thesis
    by (simp add: store32_def net_hton32_def)
qed

section \<open>Addresses\<close>

record sockaddr_in =
  sin_port :: "16 word"
  s_addr :: "32 word"

definition INADDR_ANY :: "32 word" where "INADDR_ANY = 0"
definition INADDR_NONE :: "32 word" where "INADDR_NONE = 0xFFFFFFFF"

text \<open>
  \<open>port::getHostByName\<close>. The resolver of the C library is a parameter: for a host name it
  gives the first address and whether its type is \<open>AF_INET\<close>, or nothing.
\<close>

definition getHostByName :: "(bytes \<Rightarrow> (32 word \<times> bool) option) \<Rightarrow> bytes \<Rightarrow> 32 word" where
  "getHostByName resolver host =
     (case resolver host of Some (a, True) \<Rightarrow> a | _ \<Rightarrow> INADDR_NONE)"

definition Ip4Addr :: "(bytes \<Rightarrow> (32 word \<times> bool) option) \<Rightarrow> bytes \<Rightarrow> 16 word \<Rightarrow> sockaddr_in" where
  "Ip4Addr resolver host port =
     \<lparr>sin_port = htobe16 port,
      s_addr = (if host \<noteq> [] then getHostByName resolver host else INADDR_ANY)\<rparr>"

text \<open>\<open>(uip >> 8 * i) & 0xff\<close>\<close>

definition ip_byte :: "nat \<Rightarrow> sockaddr_in \<Rightarrow> nat" where
  "ip_byte i a = unat (drop_bit (8 * i) (s_addr a) AND 0xFF)"

definition ip4_ip :: "sockaddr_in \<Rightarrow> bytes" where
  "ip4_ip a = show_nat (ip_byte 0 a) @ ''.'' @ show_nat (ip_byte 1 a) @ ''.'' @
              show_nat (ip_byte 2 a) @ ''.'' @ show_nat (ip_byte 3 a)"

definition ip4_port :: "sockaddr_in \<Rightarrow> 16 word" where
  "ip4_port a = htobe16 (sin_port a)"

definition ip4_toString :: "sockaddr_in \<Rightarrow> bytes" where
  "ip4_toString a = show_nat (ip_byte 0 a) @ ''.'' @ show_nat (ip_byte 1 a) @ ''.'' @
     show_nat (ip_byte 2 a) @ ''.'' @ show_nat (ip_byte 3 a) @ '':'' @
     show_nat (unat (ip4_port a))"

definition ip4_ipInt :: "sockaddr_in \<Rightarrow> 32 word" where
  "ip4_ipInt a = net_ntoh32 (s_addr a)"

definition ip4_isIpValid :: "sockaddr_in \<Rightarrow> bool" where
  "ip4_isIpValid a \<longleftrightarrow> s_addr a \<noteq> INADDR_NONE"

lemma ip_byte_le_byte: "ip_byte i a = unat (le_byte i (s_addr a))"
proof -
  have "(0xFF :: 32 word) = mask 8" by (simp add: mask_eq_exp_minus_1)
  then show ?thesis by (simp add: ip_byte_def le_byte_def take_bit_eq_mask)
qed

lemma le_bytes_eq:
  fixes v w :: "32 word"
  assumes "\<And>i. i < 4 \<Longrightarrow> le_byte i v = le_byte i w"
  shows "v = w"
proof (rule bit_word_eqI)
  fix n assume "n < LENGTH(32)"
  then have "n div 8 < 4" by simp
  then have "bit (le_byte (n div 8) v) (n mod 8) = bit (le_byte (n div 8) w) (n mod 8)"
    using assms by simp
  then show "bit v n = bit w n" by (simp add: bit_le_byte)
qed

text \<open>A printed number ends at the first byte that is not a digit.\<close>

lemma show_nat_append_eq:
  assumes "show_nat x @ c # s = show_nat y @ c # t" and "\<not> isdigit c"
  shows "x = y" and "s = t"
proof -
  have tw: "takeWhile isdigit (show_nat n @ c # u) = show_nat n" for n u
    using show_nat_digits [of n] assms(2) by simp
  show "x = y" using arg_cong [OF assms(1), of "takeWhile isdigit"] by (simp add: tw)
  then show "s = t" using assms(1) by simp
qed

lemma not_isdigit_sep [simp]: "\<not> isdigit (CHR ''.'')" "\<not> isdigit (CHR '':'')"
  by (simp_all add: isdigit_def)

lemma ip4_toString_inj: "ip4_toString a = ip4_toString b \<Longrightarrow> a = b"
proof -
  assume "ip4_toString a = ip4_toString b"
  then have eq: "show_nat (ip_byte 0 a) @ CHR ''.'' # show_nat (ip_byte 1 a) @ CHR ''.'' #
      show_nat (ip_byte 2 a) @ CHR ''.'' # show_nat (ip_byte 3 a) @ CHR '':'' # show_nat (unat (ip4_port a)) =
    show_nat (ip_byte 0 b) @ CHR ''.'' # show_nat (ip_byte 1 b) @ CHR ''.'' #
      show_nat (ip_byte 2 b) @ CHR ''.'' # show_nat (ip_byte 3 b) @ CHR '':'' # show_nat (unat (ip4_port b))"
    by (simp add: ip4_toString_def)
  note e0 = show_nat_append_eq [OF eq not_isdigit_sep(1)]
  note e1 = show_nat_append_eq [OF e0(2) not_isdigit_sep(1)]
  note e2 = show_nat_append_eq [OF e1(2) not_isdigit_sep(1)]
  note e3 = show_nat_append_eq [OF e2(2) not_isdigit_sep(2)]
  have "le_byte i (s_addr a) = le_byte i (s_addr b)" if "i < 4" for i
  proof -
    from that have "i = 0 \<or> i = 1 \<or> i = 2 \<or> i = 3" by linarith
    then show ?thesis using e0(1) e1(1) e2(1) e3(1) by (auto simp: ip_byte_le_byte word_unat_eq_iff)
  qed
  then have "s_addr a = s_addr b" by (rule le_bytes_eq)
  moreover have "sin_port a = sin_port b"
    using arg_cong [OF e3(2), of "\<lambda>u. htobe16 (word_of_nat (read_digits 0 u))"]
    by (simp add: ip4_port_def)
  ultimately show "a = b" by simp
qed

section \<open>Properties\<close>

text \<open>
  The printed form of an address, \<open>Ip4Addr::toString\<close>, determines it: two addresses with
  the same text have the same family-independent content, the four bytes and the port.
\<close>

theorem ip4_text_determines: "ip4_toString a = ip4_toString b \<longleftrightarrow> a = b"
  using ip4_toString_inj by auto

text \<open>
  The four bytes \<open>hton\<close> puts on the wire for a 32-bit value are the bytes of the value from
  the most significant down, and \<open>ntoh\<close> of what is read back at the same place is the value.
\<close>

theorem hton32_wire_order:
  "store32 (net_hton32 v) = [byte_at 3 v, byte_at 2 v, byte_at 1 v, byte_at 0 v] \<and>
   net_ntoh32 (load32 (a @ store32 (net_hton32 v) @ b) (length a)) = v"
  using load32_store32_offset [of a "length a" "net_hton32 v" b] store32_hton [of v]
  by (simp add: store32_def net_hton32_def net_ntoh32_def)

end
