(* ===== verification/Handy_Codec.thy ===== *)
theory Handy_Codec
  imports Handy_Net "HOL-Library.Sublist"
begin

text \<open>
  The message codecs of \<open>handy/codec.h\<close> and \<open>handy/codec.cc\<close>. \<open>tryDecode\<close> takes the bytes
  received so far and returns the number of bytes of the first message, \<open>0\<close> while it is not
  complete or a negative number for a broken stream; the message is written through a
  reference, which the model returns as the second component. The locale \<open>framing\<close> is the
  contract between a codec and the connection that cuts a byte stream into messages.
\<close>

section \<open>LineCodec\<close>

function line_loop :: "bytes \<Rightarrow> slice \<Rightarrow> slice \<Rightarrow> nat \<Rightarrow> int \<times> slice" where
  "line_loop m data msg i =
     (if i < slice_size data
      then if slice_at m data i = LF
           then if 0 < i \<and> slice_at m data (i - 1) = CR
                then (c_int (int i + 1), slice_len (s_pb data) (int i - 1))
                else (c_int (int i + 1), slice_len (s_pb data) (int i))
           else line_loop m data msg (Suc i)
      else (0, msg))"
  by pat_completeness auto
termination
  by (relation "measure (\<lambda>(m, data, msg, i). slice_size data - i)") auto

declare line_loop.simps [simp del]

definition line_tryDecode :: "bytes \<Rightarrow> slice \<Rightarrow> slice \<Rightarrow> int \<times> slice" where
  "line_tryDecode m data msg =
     (if slice_size data = 1 \<and> slice_at m data 0 = CHR 0x04 then (1, data)
      else line_loop m data msg 0)"

definition line_encode :: "bytes \<Rightarrow> buffer \<Rightarrow> buffer" where
  "line_encode msg buf = buf_append CRLF (buf_append msg buf)"

section \<open>BracketCodec\<close>

function bracket_loop :: "bytes \<Rightarrow> slice \<Rightarrow> slice \<Rightarrow> nat \<Rightarrow> int \<times> slice" where
  "bracket_loop m data msg i =
     (if i < slice_size data
      then if slice_at m data i = CHR ''}''
           then (c_int (int i + 1), slice_len (s_pb data + 1) (int i - 1))
           else bracket_loop m data msg (Suc i)
      else (0, msg))"
  by pat_completeness auto
termination
  by (relation "measure (\<lambda>(m, data, msg, i). slice_size data - i)") auto

declare bracket_loop.simps [simp del]

definition bracket_tryDecode :: "bytes \<Rightarrow> slice \<Rightarrow> slice \<Rightarrow> int \<times> slice" where
  "bracket_tryDecode m data msg =
     (if slice_size data = 1 \<and> slice_at m data 0 = CHR 0x04 then (1, data)
      else if slice_size data \<le> 2 then (0, msg)
      else if slice_at m data 0 \<noteq> CHR ''{'' then (0, msg)
      else bracket_loop m data msg 0)"

definition bracket_encode :: "bytes \<Rightarrow> buffer \<Rightarrow> buffer" where
  "bracket_encode msg buf = buf_append ''}'' (buf_append msg (buf_append ''{'' buf))"

section \<open>LengthCodec\<close>

definition length_tryDecode :: "bytes \<Rightarrow> slice \<Rightarrow> slice \<Rightarrow> int \<times> slice" where
  "length_tryDecode m data msg =
     (if slice_size data < 8 then (0, msg)
      else
        let len = sint (net_ntoh32 (load32 m (s_pb data + 4)))
        in if len > 1024 * 1024 \<or> memcmp (take 4 (drop (s_pb data) m)) ''mBdT'' \<noteq> 0
           then (-1, msg)
           else if c_int (int (slice_size data)) \<ge> len + 8
           then (len + 8, slice_len (s_pb data + 8) len)
           else (0, msg))"

definition length_encode :: "bytes \<Rightarrow> buffer \<Rightarrow> buffer" where
  "length_encode msg buf =
     buf_append msg (buf_append (store32 (net_hton32 (word_of_nat (length msg))))
       (buf_append ''mBdT'' buf))"

section \<open>The class hierarchy\<close>

datatype codec = LineCodec | LengthCodec | BracketCodec

fun codec_tryDecode :: "codec \<Rightarrow> bytes \<Rightarrow> slice \<Rightarrow> slice \<Rightarrow> int \<times> slice" where
  "codec_tryDecode LineCodec = line_tryDecode"
| "codec_tryDecode LengthCodec = length_tryDecode"
| "codec_tryDecode BracketCodec = bracket_tryDecode"

fun codec_encode :: "codec \<Rightarrow> bytes \<Rightarrow> buffer \<Rightarrow> buffer" where
  "codec_encode LineCodec = line_encode"
| "codec_encode LengthCodec = length_encode"
| "codec_encode BracketCodec = bracket_encode"

text \<open>\<open>BracketCodec::clone\<close> makes a \<open>LineCodec\<close>, as in the source.\<close>

fun codec_clone :: "codec \<Rightarrow> codec" where
  "codec_clone LineCodec = LineCodec"
| "codec_clone LengthCodec = LengthCodec"
| "codec_clone BracketCodec = LineCodec"

section \<open>What a decoder says of a byte string\<close>

datatype frame = Incomplete | Broken | Msg nat bytes

definition frame_view :: "bytes \<Rightarrow> int \<times> slice \<Rightarrow> frame" where
  "frame_view m p =
     (if fst p < 0 then Broken else if fst p = 0 then Incomplete
      else Msg (nat (fst p)) (slice_str m (snd p)))"

definition whole :: "bytes \<Rightarrow> slice" where
  "whole s = slice_range 0 (length s)"

definition codec_dec :: "codec \<Rightarrow> bytes \<Rightarrow> frame" where
  "codec_dec k s = frame_view s (codec_tryDecode k s (whole s) (whole []))"

definition codec_enc :: "codec \<Rightarrow> bytes \<Rightarrow> bytes" where
  "codec_enc k w = buf_str (codec_encode k w buf_new)"

lemma codec_encode_ok:
  "buf_ok q \<Longrightarrow> buf_ok (codec_encode k w q) \<and> buf_str (codec_encode k w q) = buf_str q @ codec_enc k w"
  by (cases k) (simp_all add: codec_enc_def line_encode_def length_encode_def bracket_encode_def)

lemma codec_enc_simps [simp]:
  "codec_enc LineCodec w = w @ CRLF"
  "codec_enc BracketCodec w = ''{'' @ w @ ''}''"
  "codec_enc LengthCodec w = ''mBdT'' @ store32 (net_hton32 (word_of_nat (length w))) @ w"
  by (simp_all add: codec_enc_def line_encode_def length_encode_def bracket_encode_def)

lemma whole_ok: "length s < 2 ^ 31 \<Longrightarrow> slice_ok s (whole s)"
  by (simp add: slice_ok_def whole_def slice_range_def)

lemma whole_simps [simp]:
  "slice_at s (whole s) i = s ! i" "s_pb (whole s) = 0" "slice_str s (whole s) = s"
  by (simp_all add: slice_at_def whole_def slice_range_def slice_str_def)

lemma whole_size [simp]: "length s < 2 ^ 31 \<Longrightarrow> slice_size (whole s) = length s"
  using slice_size_ok [OF whole_ok] by simp

lemma int_pred: "0 < n \<Longrightarrow> int n - 1 = int (n - 1)"
  by simp

text \<open>The line scanner stops at the first line feed.\<close>

lemma line_loop_eq:
  assumes "length s < 2 ^ 31" and "i \<le> length s"
  shows "line_loop s (whole s) msg i =
    (let j = i + length (takeWhile (\<lambda>c. c \<noteq> LF) (drop i s))
     in if j < length s
        then (int j + 1, slice_len 0 (if 0 < j \<and> s ! (j - 1) = CR then int j - 1 else int j))
        else (0, msg))"
  using assms(2)
proof (induction "length s - i" arbitrary: i)
  case 0
  then show ?case using assms(1) by (simp add: line_loop.simps)
next
  case (Suc k)
  then have i: "i < length s" by simp
  show ?case
  proof (cases "s ! i = LF")
    case True
    then show ?thesis using i assms(1)
      by (simp add: line_loop.simps [of s "whole s" msg i] Cons_nth_drop_Suc [OF i, symmetric])
  next
    case False
    then show ?thesis using i assms(1) Suc.hyps(1) [of "Suc i"] Suc.hyps(2)
      by (simp add: line_loop.simps [of s "whole s" msg i] Cons_nth_drop_Suc [OF i, symmetric] Let_def)
  qed
qed

lemma bracket_loop_eq:
  assumes "length s < 2 ^ 31" and "i \<le> length s"
  shows "bracket_loop s (whole s) msg i =
    (let j = i + length (takeWhile (\<lambda>c. c \<noteq> CHR ''}'') (drop i s))
     in if j < length s then (int j + 1, slice_len 1 (int j - 1)) else (0, msg))"
  using assms(2)
proof (induction "length s - i" arbitrary: i)
  case 0
  then show ?case using assms(1) by (simp add: bracket_loop.simps)
next
  case (Suc k)
  then have i: "i < length s" by simp
  show ?case
  proof (cases "s ! i = CHR ''}''")
    case True
    then show ?thesis using i assms(1)
      by (simp add: bracket_loop.simps [of s "whole s" msg i] Cons_nth_drop_Suc [OF i, symmetric])
  next
    case False
    then show ?thesis using i assms(1) Suc.hyps(1) [of "Suc i"] Suc.hyps(2)
      by (simp add: bracket_loop.simps [of s "whole s" msg i] Cons_nth_drop_Suc [OF i, symmetric] Let_def)
  qed
qed

lemma slice_str_len0 [simp]: "slice_str s (slice_len p (int n)) = take n (drop p s)"
  by (simp add: slice_str_def slice_len_def seg_def nat_add_distrib)

lemma line_dec:
  assumes "length s < 2 ^ 31"
  shows "codec_dec LineCodec s =
    (if s = [CHR 0x04] then Msg 1 s
     else let j = length (takeWhile (\<lambda>c. c \<noteq> LF) s)
          in if j < length s then Msg (j + 1) (take (if 0 < j \<and> s ! (j - 1) = CR then j - 1 else j) s)
             else Incomplete)"
proof -
  have one: "length s = 1 \<and> s ! 0 = CHR 0x04 \<longleftrightarrow> s = [CHR 0x04]"
    by (cases s) (auto simp: nth_Cons')
  define j where "j = length (takeWhile (\<lambda>c. c \<noteq> LF) s)"
  have loop: "line_loop s (whole s) (whole []) 0 =
    (if j < length s
     then (int j + 1, slice_len 0 (if 0 < j \<and> s ! (j - 1) = CR then int j - 1 else int j))
     else (0, whole []))"
    using line_loop_eq [OF assms, of 0 "whole []"] by (simp add: j_def Let_def)
  have cut: "slice_str s (slice_len 0 (if 0 < j \<and> s ! (j - 1) = CR then int j - 1 else int j)) =
    take (if 0 < j \<and> s ! (j - 1) = CR then j - 1 else j) s"
    by (cases "0 < j") (simp_all add: int_pred slice_str_len0 slice_str_len0 [of s 0 0, simplified] del: of_nat_diff)
  show ?thesis unfolding j_def [symmetric] Let_def codec_dec_def codec_tryDecode.simps line_tryDecode_def
    using assms one cut by (simp add: loop frame_view_def nat_add_distrib)
qed

lemma bracket_dec:
  assumes "length s < 2 ^ 31"
  shows "codec_dec BracketCodec s =
    (if s = [CHR 0x04] then Msg 1 s
     else if length s \<le> 2 \<or> hd s \<noteq> CHR ''{'' then Incomplete
     else let j = length (takeWhile (\<lambda>c. c \<noteq> CHR ''}'') s)
          in if j < length s then Msg (j + 1) (take (j - 1) (tl s)) else Incomplete)"
proof -
  have one: "length s = 1 \<and> s ! 0 = CHR 0x04 \<longleftrightarrow> s = [CHR 0x04]"
    by (cases s) (auto simp: nth_Cons')
  define j where "j = length (takeWhile (\<lambda>c. c \<noteq> CHR ''}'') s)"
  have loop: "bracket_loop s (whole s) (whole []) 0 =
    (if j < length s then (int j + 1, slice_len 1 (int j - 1)) else (0, whole []))"
    using bracket_loop_eq [OF assms, of 0 "whole []"] by (simp add: j_def Let_def)
  have cut: "slice_str s (slice_len 1 (int j - 1)) = take (j - 1) (tl s)"
    if "s ! 0 = CHR ''{''" and "2 < length s"
  proof -
    have "0 < j" using that unfolding j_def by (cases s) auto
    then show ?thesis by (simp add: int_pred slice_str_len0 drop_Suc del: of_nat_diff)
  qed
  have hd: "2 < length s \<Longrightarrow> hd s = s ! 0" by (cases s) simp_all
  show ?thesis
    unfolding j_def [symmetric] Let_def codec_dec_def codec_tryDecode.simps bracket_tryDecode_def
    using assms one cut hd by (auto simp: loop frame_view_def nat_add_distrib)
qed

section \<open>The interface between a codec and a connection\<close>

text \<open>
  \<open>frames dec s ws rest\<close>: cutting messages off \<open>s\<close> while the decoder finds one gives
  \<open>ws\<close> and stops, incomplete, at \<open>rest\<close>. \<open>feeds\<close> does this after each arriving chunk.
\<close>

inductive frames :: "(bytes \<Rightarrow> frame) \<Rightarrow> bytes \<Rightarrow> bytes list \<Rightarrow> bytes \<Rightarrow> bool"
  for dec where
  frames_stop: "dec s = Incomplete \<Longrightarrow> frames dec s [] s"
| frames_msg: "dec s = Msg n w \<Longrightarrow> frames dec (drop n s) ws rest \<Longrightarrow> frames dec s (w # ws) rest"

inductive feeds :: "(bytes \<Rightarrow> frame) \<Rightarrow> bytes \<Rightarrow> bytes list \<Rightarrow> bytes list \<Rightarrow> bytes \<Rightarrow> bool"
  for dec where
  feeds_done: "feeds dec r [] [] r"
| feeds_chunk: "frames dec (r @ c) ws r' \<Longrightarrow> feeds dec r' cs vs r'' \<Longrightarrow> feeds dec r (c # cs) (ws @ vs) r''"

inductive_cases frames_NilE: "frames dec s [] rest"
inductive_cases frames_ConsE: "frames dec s (w # ws) rest"
inductive_simps feeds_Nil_iff: "feeds dec r [] ws r'"
inductive_simps feeds_Cons_iff: "feeds dec r (c # cs) ws r'"

text \<open>Cutting is deterministic.\<close>

lemma frames_det:
  "frames dec s ws rest \<Longrightarrow> frames dec s vs rest' \<Longrightarrow> vs = ws \<and> rest' = rest"
proof (induction arbitrary: vs rest' rule: frames.induct)
  case (frames_stop s)
  from frames_stop.prems show ?case
    by (rule frames.cases) (use frames_stop.hyps in simp_all)
next
  case (frames_msg s n w ws rest)
  from frames_msg.prems show ?case
  proof (cases rule: frames.cases)
    case frames_stop
    with frames_msg.hyps show ?thesis by simp
  next
    case (frames_msg n' w' us)
    with \<open>dec s = Msg n w\<close> frames_msg.IH [of us rest'] show ?thesis by simp
  qed
qed

lemma feeds_det:
  "feeds dec r cs ws r' \<Longrightarrow> feeds dec r cs vs r'' \<Longrightarrow> vs = ws \<and> r'' = r'"
proof (induction arbitrary: vs r'' rule: feeds.induct)
  case (feeds_done r)
  then show ?case by (simp add: feeds_Nil_iff)
next
  case (feeds_chunk r c ws r' cs us r'')
  then obtain us1 us2 r1 where v: "vs = us1 @ us2" "frames dec (r @ c) us1 r1" "feeds dec r1 cs us2 r''"
    by (auto simp: feeds_Cons_iff)
  with frames_det [OF feeds_chunk.hyps(1) v(2)] feeds_chunk.IH [of us2 r''] show ?case by simp
qed

lemma frames_length: "frames dec s ws rest \<Longrightarrow> length rest \<le> length s"
  by (induction rule: frames.induct) auto

locale framing =
  fixes dec :: "bytes \<Rightarrow> frame"
    and enc :: "bytes \<Rightarrow> bytes"
    and valid :: "bytes \<Rightarrow> bool"
    and limit :: nat
  assumes dec_Nil: "dec [] = Incomplete"
    and enc_not_Nil: "valid w \<Longrightarrow> enc w \<noteq> []"
    and dec_enc: "valid w \<Longrightarrow> length (enc w @ rest) < limit \<Longrightarrow>
      dec (enc w @ rest) = Msg (length (enc w)) w"
    and dec_partial: "valid w \<Longrightarrow> length (enc w) < limit \<Longrightarrow> strict_prefix p (enc w) \<Longrightarrow>
      dec p = Incomplete"
begin

lemma stream_frames:
  "\<forall>w \<in> set ws. valid w \<Longrightarrow> dec p = Incomplete \<Longrightarrow> length (concat (map enc ws) @ p) < limit \<Longrightarrow>
   frames dec (concat (map enc ws) @ p) ws p"
proof (induction ws)
  case Nil
  then show ?case by (auto intro: frames_stop)
next
  case (Cons w ws)
  have "dec (enc w @ concat (map enc ws) @ p) = Msg (length (enc w)) w"
    using Cons.prems by (intro dec_enc) auto
  moreover have "frames dec (concat (map enc ws) @ p) ws p"
    using Cons by auto
  ultimately show ?case by (auto intro: frames_msg)
qed

text \<open>A prefix of a stream is some whole messages and a proper prefix of the next one.\<close>

lemma split_stream:
  "concat (map enc ws) = a @ b \<Longrightarrow>
   \<exists>us vs p. ws = us @ vs \<and> a = concat (map enc us) @ p \<and>
     (p = [] \<or> vs \<noteq> [] \<and> strict_prefix p (enc (hd vs)))"
proof (induction ws arbitrary: a)
  case Nil
  then show ?case by (intro exI [of _ "[]"]) auto
next
  case (Cons w ws)
  then have eq: "enc w @ concat (map enc ws) = a @ b" by simp
  then consider (short) us where "enc w = a @ us" "us \<noteq> []" | (long) us where "a = enc w @ us" "us @ b = concat (map enc ws)"
    by (auto simp: append_eq_append_conv2) (metis append_Nil append_Nil2)
  then show ?case
  proof cases
    case short
    then show ?thesis
      by (intro exI [of _ "[]"] exI [of _ "w # ws"] exI [of _ a]) (auto simp: strict_prefix_def)
  next
    case long
    then obtain xs vs p where "ws = xs @ vs" "us = concat (map enc xs) @ p"
      "p = [] \<or> vs \<noteq> [] \<and> strict_prefix p (enc (hd vs))"
      using Cons.IH [of us] by metis
    with long show ?thesis
      by (intro exI [of _ "w # xs"] exI [of _ vs] exI [of _ p]) auto
  qed
qed

lemma fragmentation_from:
  assumes "\<forall>w \<in> set ws. valid w" and "length (concat (map enc ws)) < limit"
    and "p @ concat cs = concat (map enc ws)"
    and "p = [] \<or> ws \<noteq> [] \<and> strict_prefix p (enc (hd ws))"
  shows "feeds dec p cs ws []"
  using assms
proof (induction cs arbitrary: p ws)
  case Nil
  have "ws = []"
  proof (cases ws)
    case (Cons w vs)
    with Nil have "strict_prefix p (enc w) \<or> p = []" "p = enc w @ concat (map enc vs)" by auto
    with Nil(1) Cons enc_not_Nil [of w] show ?thesis
      by (auto simp: strict_prefix_def prefix_def)
  qed
  with Nil show ?case by (auto intro: feeds_done)
next
  case (Cons c cs)
  have eq: "concat (map enc ws) = (p @ c) @ concat cs" using Cons.prems(3) by simp
  then obtain us vs q where ws: "ws = us @ vs" "p @ c = concat (map enc us) @ q"
      and q: "q = [] \<or> vs \<noteq> [] \<and> strict_prefix q (enc (hd vs))"
    using split_stream by blast
  have rest: "q @ concat cs = concat (map enc vs)"
    using eq ws by simp
  have "dec q = Incomplete"
  proof (cases "q = []")
    case False
    with q obtain v vs' where v: "vs = v # vs'" "strict_prefix q (enc v)" by (cases vs) auto
    then show ?thesis using Cons.prems(1,2) ws(1) by (intro dec_partial [of v]) auto
  qed (simp add: dec_Nil)
  then have "frames dec (p @ c) us q"
    unfolding ws(2) using Cons.prems(1,2) ws(1) arg_cong [OF rest, of length]
    by (intro stream_frames) auto
  moreover have "feeds dec q cs vs []"
    using Cons.prems(1,2) ws(1) by (intro Cons.IH rest q) auto
  ultimately show ?case unfolding ws(1) by (rule feeds_chunk)
qed

text \<open>However the network cuts the stream, the receiver gets the messages that were sent.\<close>

lemma fragmentation:
  assumes "\<forall>w \<in> set ws. valid w" and "length (concat (map enc ws)) < limit"
    and "concat cs = concat (map enc ws)"
  shows "feeds dec [] cs ws []"
  using fragmentation_from [of ws "[]" cs] assms by simp

end

text \<open>Which messages a codec can carry.\<close>

fun codec_valid :: "codec \<Rightarrow> bytes \<Rightarrow> bool" where
  "codec_valid LineCodec w \<longleftrightarrow> LF \<notin> set w \<and> (w = [] \<or> hd w \<noteq> CHR 0x04)"
| "codec_valid BracketCodec w \<longleftrightarrow> CHR ''}'' \<notin> set w \<and> w \<noteq> []"
| "codec_valid LengthCodec w \<longleftrightarrow> length w \<le> 1024 * 1024"

lemma codec_enc_not_Nil: "codec_enc k w = [] \<longleftrightarrow> False"
  by (cases k) simp_all

lemma line_dec_enc:
  assumes "codec_valid LineCodec w" and "length (codec_enc LineCodec w @ rest) < 2 ^ 31"
  shows "codec_dec LineCodec (codec_enc LineCodec w @ rest) = Msg (length (codec_enc LineCodec w)) w"
proof -
  let ?s = "codec_enc LineCodec w @ rest"
  have "takeWhile (\<lambda>c. c \<noteq> LF) ((w @ [CR]) @ LF # rest) = w @ [CR]"
    using assms(1) by (intro takeWhile_neq) auto
  then have j: "length (takeWhile (\<lambda>c. c \<noteq> LF) ?s) = length w + 1" by simp
  have "?s ! length w = CR" and "?s \<noteq> [CHR 0x04]" by (auto simp: nth_append Cons_eq_append_conv)
  then show ?thesis
    by (simp only: line_dec [OF assms(2)] Let_def j) simp
qed

lemma line_dec_partial:
  assumes "codec_valid LineCodec w" and "length (codec_enc LineCodec w) < 2 ^ 31"
    and "strict_prefix p (codec_enc LineCodec w)"
  shows "codec_dec LineCodec p = Incomplete"
proof -
  from assms(3) have p: "prefix p (w @ [CR])"
    by (auto simp: strict_prefix_def prefix_snoc [of p "w @ [CR]" LF, simplified])
  then have "LF \<notin> set p" using assms(1) set_mono_prefix [OF p] by auto
  moreover have "p \<noteq> [CHR 0x04]"
    using assms(1) p by (cases w) auto
  moreover have "length p < 2 ^ 31"
    using assms(2) prefix_length_le [OF p] by simp
  ultimately show ?thesis by (simp add: line_dec Let_def takeWhile_neq_all)
qed

lemma bracket_dec_enc:
  assumes "codec_valid BracketCodec w" and "length (codec_enc BracketCodec w @ rest) < 2 ^ 31"
  shows "codec_dec BracketCodec (codec_enc BracketCodec w @ rest) = Msg (length (codec_enc BracketCodec w)) w"
proof -
  let ?s = "codec_enc BracketCodec w @ rest"
  have "takeWhile (\<lambda>c. c \<noteq> CHR ''}'') ((CHR ''{'' # w) @ CHR ''}'' # rest) = CHR ''{'' # w"
    using assms(1) by (intro takeWhile_neq) auto
  then have j: "length (takeWhile (\<lambda>c. c \<noteq> CHR ''}'') ?s) = length w + 1" by simp
  have "2 < length ?s" using assms(1) by (cases w) auto
  then show ?thesis
    by (simp only: bracket_dec [OF assms(2)] Let_def j) simp
qed

lemma bracket_dec_partial:
  assumes "codec_valid BracketCodec w" and "length (codec_enc BracketCodec w) < 2 ^ 31"
    and "strict_prefix p (codec_enc BracketCodec w)"
  shows "codec_dec BracketCodec p = Incomplete"
proof -
  from assms(3) have p: "prefix p (CHR ''{'' # w)"
    using prefix_snoc [of p "CHR ''{'' # w" "CHR ''}''"] by (auto simp: strict_prefix_def)
  then have "CHR ''}'' \<notin> set p" using assms(1) set_mono_prefix [OF p] by auto
  moreover have "p \<noteq> [CHR 0x04]" using p by auto
  moreover have "length p < 2 ^ 31"
    using assms(2) prefix_length_le [OF p] by simp
  ultimately show ?thesis by (simp add: bracket_dec Let_def takeWhile_neq_all)
qed

text \<open>The header of a length-prefixed message.\<close>

lemma length_dec_eq:
  assumes "length s < 2 ^ 31"
  shows "codec_dec LengthCodec s =
    (if length s < 8 then Incomplete
     else let len = sint (net_ntoh32 (load32 s 4))
          in if len > 1024 * 1024 \<or> take 4 s \<noteq> ''mBdT'' then Broken
             else frame_view s (if int (length s) \<ge> len + 8 then (len + 8, slice_len 8 len) else (0, whole [])))"
  using assms memcmp_eq [of "take 4 s" "''mBdT''"]
  by (auto simp: codec_dec_def length_tryDecode_def Let_def frame_view_def)

lemma length_dec_enc:
  assumes "codec_valid LengthCodec w" and "length (codec_enc LengthCodec w @ rest) < 2 ^ 31"
  shows "codec_dec LengthCodec (codec_enc LengthCodec w @ rest) = Msg (length (codec_enc LengthCodec w)) w"
proof -
  let ?s = "codec_enc LengthCodec w @ rest" and ?v = "net_hton32 (word_of_nat (length w))"
  have "load32 ?s 4 = ?v"
    using load32_store32_offset [of "''mBdT''" 4 ?v "w @ rest"] by simp
  then have len: "sint (net_ntoh32 (load32 ?s 4)) = int (length w)"
    using assms(1) by (simp add: net_ntoh32_def net_hton32_def signed_of_nat signed_take_bit_int_eq_self)
  have "nat (8 + int (length w)) = 8 + length w" by simp
  then show ?thesis
    using assms(1) by (simp only: length_dec_eq [OF assms(2)] Let_def len)
      (simp add: frame_view_def add.commute)
qed

lemma length_dec_partial:
  assumes "codec_valid LengthCodec w" and "length (codec_enc LengthCodec w) < 2 ^ 31"
    and "strict_prefix p (codec_enc LengthCodec w)"
  shows "codec_dec LengthCodec p = Incomplete"
proof (cases "length p < 8")
  case True
  then show ?thesis by (simp add: length_dec_eq)
next
  case False
  let ?v = "net_hton32 (word_of_nat (length w))"
  define h where "h = ''mBdT'' @ store32 ?v"
  have "length h = 8" by (simp add: h_def)
  obtain q where "p @ q = h @ w" and "q \<noteq> []"
    using assms(3) by (auto simp: strict_prefix_def prefix_def h_def)
  have "h = take 8 p"
    using arg_cong [OF \<open>p @ q = h @ w\<close>, of "take 8"] False \<open>length h = 8\<close> by simp
  then have "p = h @ drop 8 p" by simp
  moreover have "drop 8 p @ q = w"
    using arg_cong [OF \<open>p @ q = h @ w\<close>, of "drop 8"] False \<open>length h = 8\<close> by simp
  ultimately obtain t where "p = h @ t" and t: "t @ q = w" by blast
  then have p: "p = ''mBdT'' @ store32 ?v @ t" by (simp add: h_def)
  have "load32 p 4 = ?v" unfolding p using load32_store32_offset [of "''mBdT''" 4 ?v t] by simp
  then have len: "sint (net_ntoh32 (load32 p 4)) = int (length w)"
    using assms(1) by (simp add: net_ntoh32_def net_hton32_def signed_of_nat signed_take_bit_int_eq_self)
  have "length t < length w" using arg_cong [OF t, of length] \<open>q \<noteq> []\<close> by (cases q) auto
  then have "length p < 8 + length w" "take 4 p = ''mBdT''" by (simp_all add: p)
  then show ?thesis
    using assms(1,2) False by (simp add: length_dec_eq Let_def len frame_view_def)
qed

interpretation line: framing "codec_dec LineCodec" "codec_enc LineCodec" "codec_valid LineCodec" "2 ^ 31"
  by unfold_locales (auto simp: codec_enc_not_Nil line_dec [of "[]"] line_dec_enc line_dec_partial simp del: codec_enc_simps codec_valid.simps)

interpretation bracket: framing "codec_dec BracketCodec" "codec_enc BracketCodec" "codec_valid BracketCodec" "2 ^ 31"
  by unfold_locales (auto simp: codec_enc_not_Nil bracket_dec [of "[]"] bracket_dec_enc bracket_dec_partial simp del: codec_enc_simps codec_valid.simps)

interpretation len: framing "codec_dec LengthCodec" "codec_enc LengthCodec" "codec_valid LengthCodec" "2 ^ 31"
  by unfold_locales (auto simp: codec_enc_not_Nil length_dec_eq [of "[]"] length_dec_enc length_dec_partial simp del: codec_enc_simps codec_valid.simps)

text \<open>A decoded message lies within the bytes that were there.\<close>

lemma codec_dec_bound:
  assumes "length s < 2 ^ 31" and "codec_dec k s = Msg n w"
  shows "0 < n \<and> n \<le> length s"
proof (cases k)
  case LineCodec
  then show ?thesis using assms by (auto simp: line_dec Let_def split: if_splits)
next
  case BracketCodec
  then show ?thesis using assms by (auto simp: bracket_dec Let_def split: if_splits)
next
  case LengthCodec
  then show ?thesis using assms
    by (auto simp: length_dec_eq Let_def frame_view_def split: if_splits)
qed

lemma codec_dec_Nil [simp]: "codec_dec k [] = Incomplete"
  by (cases k) (simp_all add: line_dec bracket_dec length_dec_eq)

lemma codec_feeds:
  assumes "\<forall>w \<in> set ws. codec_valid k w" and "length (concat (map (codec_enc k) ws)) < 2 ^ 31"
    and "concat cs = concat (map (codec_enc k) ws)"
  shows "feeds (codec_dec k) [] cs ws []"
  using assms line.fragmentation [of ws cs] bracket.fragmentation [of ws cs] len.fragmentation [of ws cs]
  by (cases k) (simp_all del: codec_enc_simps codec_valid.simps)

section \<open>Properties\<close>

text \<open>
  C18: Decoding gives back what was encoded: with any bytes behind it, the encoding of a message
  the codec can carry decodes to that message and to the length of its encoding.
\<close>

theorem codec_roundtrip:
  assumes "codec_valid k w" and "length (codec_enc k w @ rest) < 2 ^ 31"
  shows "codec_dec k (codec_enc k w @ rest) = Msg (length (codec_enc k w)) w"
  using assms line_dec_enc [of w rest] bracket_dec_enc [of w rest] length_dec_enc [of w rest]
  by (cases k) (simp_all del: codec_enc_simps codec_valid.simps)

theorem codec_roundtrip_witness:
  "codec_dec BracketCodec (''{hi}'' @ ''{x'') = Msg 4 ''hi''"
  using codec_roundtrip [of BracketCodec "''hi''" "''{x''"] by simp

text \<open>
  C17: Framing does not depend on how the network cuts the stream: for every codec, any split of
  a stream of encoded messages into chunks gives exactly the messages, in order, with nothing
  left over. This needs messages the codec can carry: for \<open>LineCodec\<close> no line feed and no
  leading \<open>EOT\<close>, for \<open>BracketCodec\<close> a non-empty message without \<open>'}'\<close>, for \<open>LengthCodec\<close> at most
  1 MiB.
\<close>

theorem codec_fragmentation:
  assumes "\<forall>w \<in> set ws. codec_valid k w" and "length (concat (map (codec_enc k) ws)) < 2 ^ 31"
    and "concat cs = concat (map (codec_enc k) ws)"
  shows "feeds (codec_dec k) [] cs us r \<longleftrightarrow> us = ws \<and> r = []"
  using codec_feeds [OF assms] feeds_det [of "codec_dec k" "[]" cs ws "[]" us r] by auto

theorem codec_fragmentation_witness:
  "feeds (codec_dec LineCodec) [] [''a'' @ [CR], [LF], ''bc'' @ CRLF] [''a'', ''bc''] []"
  using codec_fragmentation [of "[''a'', ''bc'']" LineCodec "[''a'' @ [CR], [LF], ''bc'' @ CRLF]" "[''a'', ''bc'']" "[]"]
  by simp

text \<open>
  \<open>LengthCodec::tryDecode\<close> bounds the length from above only. A header with a length field of
  -8 + n, for n from 1 to 7, is taken as a whole message of n bytes, fewer than the header has.
\<close>

theorem length_codec_accepts_negative:
  assumes "0 < n" and "n < 8" and "length rest < 2 ^ 31 - 8"
  shows "\<exists>w. codec_dec LengthCodec (''mBdT'' @ store32 (net_hton32 (word_of_int (int n - 8))) @ rest) = Msg n w"
proof -
  let ?v = "net_hton32 (word_of_int (int n - 8))"
  let ?s = "''mBdT'' @ store32 ?v @ rest"
  have "load32 ?s 4 = ?v" using load32_store32_offset [of "''mBdT''" 4 ?v rest] by simp
  moreover have "sint (word_of_int (int n - 8) :: 32 word) = int n - 8"
    using assms(1,2) by (simp only: signed_of_int) (simp add: signed_take_bit_int_eq_self)
  ultimately have len: "sint (net_ntoh32 (load32 ?s 4)) = int n - 8"
    by (simp only: net_ntoh32_def net_hton32_def htobe32_htobe32)
  have "length ?s < 2 ^ 31" using assms(3) by simp
  from length_dec_eq [OF this] show ?thesis
    using assms(1,2) by (simp only: Let_def len) (simp add: frame_view_def)
qed

theorem length_codec_accepts_negative_witness:
  "\<exists>w. codec_dec LengthCodec (''mBdT'' @ store32 (net_hton32 (word_of_int (- 7)))) = Msg 1 w"
  using length_codec_accepts_negative [of 1 "[]"] by simp

text \<open>
  A \<open>BracketCodec\<close> turns into a \<open>LineCodec\<close> when it is cloned, which a server does for every
  connection it accepts: the connection then does not see a message in \<open>{hi}\<close>.
\<close>

theorem bracket_clone_differs:
  "codec_dec BracketCodec ''{hi}'' = Msg 4 ''hi'' \<and> codec_dec (codec_clone BracketCodec) ''{hi}'' = Incomplete"
  by (simp add: bracket_dec line_dec)

end
