(* ===== verification/Handy_Channel.thy ===== *)
theory Handy_Channel
  imports Handy_Prelude "HOL-Library.Word" "HOL-Library.Monad_Syntax"
begin

text \<open>
  \<open>Channel\<close> (\<open>handy/event_base.h\<close>, \<open>handy/event_base.cc\<close>): a file descriptor with the events it
  waits for. The events are the \<open>short\<close> of the source. What a channel and a connection ask of
  their event loop is recorded as a list of \<open>effect\<close>s, in the order of the calls. A result
  \<open>None\<close> is a process that has stopped: a failed \<open>assert\<close> or \<open>fatalif\<close>, a \<open>NULL\<close> dereference
  or an access to an erased list node.
\<close>

unbundle bit_operations_syntax

definition kReadEvent :: "16 word" where "kReadEvent = 1"
definition kWriteEvent :: "16 word" where "kWriteEvent = 4"
definition POLLERR :: "16 word" where "POLLERR = 8"

record channel =
  ch_id :: nat
  ch_fd :: int
  ch_events :: "16 word"

text \<open>A timer id is the pair of a due time and a sequence number.\<close>

type_synonym timer_id = "int \<times> int"

datatype task = ReconnectTask | ConnectTimeout | CloseTask

datatype effect =
    AddChannel nat int "16 word"
  | UpdateChannel nat "16 word"
  | RemoveChannel nat
  | CloseFd int
  | CancelTimer timer_id
  | RunAfter int task
  | SafeCall task
  | UnregisterIdle nat
  | UpdateIdle nat

definition readEnabled :: "channel \<Rightarrow> bool" where
  "readEnabled ch \<longleftrightarrow> ch_events ch AND kReadEvent \<noteq> 0"

definition writeEnabled :: "channel \<Rightarrow> bool" where
  "writeEnabled ch \<longleftrightarrow> ch_events ch AND kWriteEvent \<noteq> 0"

text \<open>\<open>Channel::enableRead\<close>, \<open>enableWrite\<close>, \<open>enableReadWrite\<close>: the event bits.\<close>

definition set_event :: "16 word \<Rightarrow> bool \<Rightarrow> 16 word \<Rightarrow> 16 word" where
  "set_event k on ev = (if on then ev OR k else ev AND NOT k)"

definition channel_enableRead :: "bool \<Rightarrow> channel \<Rightarrow> channel" where
  "channel_enableRead on ch = ch\<lparr>ch_events := set_event kReadEvent on (ch_events ch)\<rparr>"

definition channel_enableWrite :: "bool \<Rightarrow> channel \<Rightarrow> channel" where
  "channel_enableWrite on ch = ch\<lparr>ch_events := set_event kWriteEvent on (ch_events ch)\<rparr>"

definition channel_enableReadWrite :: "bool \<Rightarrow> bool \<Rightarrow> channel \<Rightarrow> channel" where
  "channel_enableReadWrite rd wr ch =
     ch\<lparr>ch_events := set_event kWriteEvent wr (set_event kReadEvent rd (ch_events ch))\<rparr>"

text \<open>
  \<open>poller_->updateChannel\<close>: \<open>epoll_ctl\<close> refuses a descriptor that is not open and the
  poller then aborts.
\<close>

definition channel_update :: "channel \<Rightarrow> effect list option" where
  "channel_update ch =
     (if ch_fd ch < 0 then None else Some [UpdateChannel (ch_id ch) (ch_events ch)])"

text \<open>The first half of \<open>Channel::close\<close>, up to the call of the read handler.\<close>

definition channel_shut :: "channel \<Rightarrow> channel \<times> effect list" where
  "channel_shut ch = (ch\<lparr>ch_fd := - 1\<rparr>, [RemoveChannel (ch_id ch), CloseFd (ch_fd ch)])"

section \<open>The event bits\<close>

lemma bits_and: "bit (set_event k on ev) i \<longleftrightarrow> (if on then bit ev i \<or> bit k i else bit ev i \<and> \<not> bit k i)"
  if "i < 16" for ev k :: "16 word"
  using that by (simp add: set_event_def bit_or_iff bit_and_iff bit_not_iff)

lemma set_event_idem [simp]: "set_event k on (set_event k on' ev) = set_event k on ev"
  by (rule bit_word_eqI) (auto simp: bits_and)

lemma set_event_self [simp]: "(set_event k on ev AND k \<noteq> 0) = (on \<and> k \<noteq> 0)"
proof -
  have "set_event k on ev AND k = (if on then k else 0)"
    by (rule bit_word_eqI) (auto simp: bits_and bit_and_iff)
  then show ?thesis by simp
qed

lemma set_event_other [simp]: "k AND l = 0 \<Longrightarrow> (set_event k on ev AND l) = (ev AND l)"
proof (rule bit_word_eqI)
  fix i assume "k AND l = 0" and "i < LENGTH(16)"
  then have "\<not> (bit k i \<and> bit l i)" by (metis bit_0_eq bit_and_iff bot_apply bot_bool_def)
  then show "bit (set_event k on ev AND l) i = bit (ev AND l) i"
    using \<open>i < LENGTH(16)\<close> by (auto simp: bits_and bit_and_iff)
qed

lemma event_bits [simp]: "kReadEvent \<noteq> 0" "kWriteEvent \<noteq> 0" "kReadEvent AND kWriteEvent = 0"
  "kWriteEvent AND kReadEvent = 0"
  by (simp_all add: kReadEvent_def kWriteEvent_def)

lemma enabled_simps [simp]:
  "writeEnabled (channel_enableWrite on ch) = on"
  "readEnabled (channel_enableWrite on ch) = readEnabled ch"
  "readEnabled (channel_enableRead on ch) = on"
  "writeEnabled (channel_enableRead on ch) = writeEnabled ch"
  "readEnabled (channel_enableReadWrite rd wr ch) = rd"
  "writeEnabled (channel_enableReadWrite rd wr ch) = wr"
  "writeEnabled (ch\<lparr>ch_fd := fd\<rparr>) = writeEnabled ch"
  "readEnabled (ch\<lparr>ch_fd := fd\<rparr>) = readEnabled ch"
  by (simp_all add: writeEnabled_def readEnabled_def channel_enableWrite_def channel_enableRead_def
      channel_enableReadWrite_def)

lemma channel_fields [simp]:
  "ch_fd (channel_enableWrite on ch) = ch_fd ch" "ch_id (channel_enableWrite on ch) = ch_id ch"
  "ch_fd (channel_enableRead on ch) = ch_fd ch" "ch_id (channel_enableRead on ch) = ch_id ch"
  "ch_fd (channel_enableReadWrite rd wr ch) = ch_fd ch" "ch_id (channel_enableReadWrite rd wr ch) = ch_id ch"
  by (simp_all add: channel_enableWrite_def channel_enableRead_def channel_enableReadWrite_def)

end
