(* ===== verification/Handy_Conn.thy ===== *)
theory Handy_Conn
  imports Handy_Channel Handy_Codec
begin

text \<open>
  \<open>TcpConn\<close> (\<open>handy/conn.h\<close>, \<open>handy/conn.cc\<close>, \<open>handy/event_base.cc\<close>). A connection is a record
  of the source's members together with the answers the kernel will give to its \<open>read\<close>,
  \<open>write\<close> and \<open>poll\<close> calls, the bytes the kernel has taken, and the calls made to the event
  loop. The user's callbacks are functions on the connection, given by a record; whether a
  callback is set is part of the state.
\<close>

datatype cstate = Invalid | Handshaking | Connected | Closed | Failed

text \<open>
  Answers of \<open>read\<close>: data (empty data is the end of the stream), \<open>EINTR\<close>, \<open>EAGAIN\<close>, another
  error. Answers of \<open>write\<close>: the number of bytes the kernel can take, \<open>EINTR\<close>, \<open>EAGAIN\<close>, one
  of \<open>ECONNRESET\<close>, \<open>ETIMEDOUT\<close>, \<open>EPIPE\<close>, another error. A call past the end of the list is
  answered \<open>EAGAIN\<close>.
\<close>

datatype rd = RData bytes | RIntr | RAgain | RErr
datatype wr = WTake nat | WIntr | WAgain | WReset | WOther

record conn =
  c_state :: cstate
  c_chan :: "channel option"
  c_input :: buffer
  c_output :: buffer
  c_readcb :: bool
  c_writablecb :: bool
  c_statecb :: bool
  c_idleIds :: "nat list"
  c_timeoutId :: timer_id
  c_destPort :: int
  c_connectTimeout :: int
  c_reconnectInterval :: int
  c_codec :: "codec option"
  c_userBuf :: buffer        \<comment> \<open>a buffer of the caller\<close>
  c_reconnecting :: bool     \<comment> \<open>is it in \<open>reconnectConns_\<close>\<close>
  c_exited :: bool           \<comment> \<open>\<open>getBase()->exited()\<close>\<close>
  c_idleNodes :: "nat list"  \<comment> \<open>the nodes of the loop's idle lists\<close>
  c_reads :: "rd list"
  c_writes :: "wr list"
  c_polls :: "bool list"     \<comment> \<open>does \<open>poll\<close> report just \<open>POLLOUT\<close>\<close>
  c_wire :: bytes
  c_effects :: "effect list"

text \<open>
  The operations of a connection that call back into themselves through the user's code: the
  read handler (which \<open>Channel::close\<close> calls) and \<open>cleanup\<close> (which a failed \<open>send\<close> calls).
  A callback gets them as an argument, at the depth of nesting it runs in.
\<close>

record lib =
  l_read :: "conn \<Rightarrow> conn option"
  l_cleanup :: "conn \<Rightarrow> conn option"

record cbs =
  cb_read :: "lib \<Rightarrow> conn \<Rightarrow> conn option"
  cb_writable :: "lib \<Rightarrow> conn \<Rightarrow> conn option"
  cb_state :: "lib \<Rightarrow> conn \<Rightarrow> conn option"

text \<open>Callbacks that do nothing.\<close>

definition quiet_cbs :: cbs where
  "quiet_cbs = \<lparr>cb_read = (\<lambda>l c. Some c), cb_writable = (\<lambda>l c. Some c), cb_state = (\<lambda>l c. Some c)\<rparr>"

definition eff :: "effect list \<Rightarrow> conn \<Rightarrow> conn" where
  "eff es c = c\<lparr>c_effects := c_effects c @ es\<rparr>"

definition tcp_new :: conn where
  "tcp_new = \<lparr>c_state = Invalid, c_chan = None, c_input = buf_new, c_output = buf_new,
     c_readcb = False, c_writablecb = False, c_statecb = False, c_idleIds = [],
     c_timeoutId = (0, 0), c_destPort = - 1, c_connectTimeout = 0, c_reconnectInterval = - 1,
     c_codec = None, c_userBuf = buf_new, c_reconnecting = False, c_exited = False, c_idleNodes = [], c_reads = [], c_writes = [],
     c_polls = [], c_wire = [], c_effects = []\<rparr>"

section \<open>Channel calls on the connection's channel\<close>

definition conn_update :: "(channel \<Rightarrow> channel) \<Rightarrow> conn \<Rightarrow> conn option" where
  "conn_update f c =
     (case c_chan c of None \<Rightarrow> None
      | Some ch \<Rightarrow> (case channel_update (f ch) of None \<Rightarrow> None
          | Some es \<Rightarrow> Some (eff es (c\<lparr>c_chan := Some (f ch)\<rparr>))))"

text \<open>\<open>Channel::close\<close> calls the read handler after the descriptor is gone.\<close>

definition conn_chan_close :: "lib \<Rightarrow> conn \<Rightarrow> conn option" where
  "conn_chan_close l c =
     (case c_chan c of None \<Rightarrow> None
      | Some ch \<Rightarrow>
          if ch_fd ch \<ge> 0
          then let (ch', es) = channel_shut ch in l_read l (eff es (c\<lparr>c_chan := Some ch'\<rparr>))
          else Some c)"

text \<open>\<open>ch->close()\<close> for a channel that the connection no longer points to.\<close>

definition old_chan_close :: "lib \<Rightarrow> channel \<Rightarrow> conn \<Rightarrow> conn option" where
  "old_chan_close l ch c =
     (if ch_fd ch \<ge> 0 then l_read l (eff (snd (channel_shut ch)) c) else Some c)"

section \<open>cleanup and reconnect\<close>

text \<open>\<open>TcpConn::reconnect\<close>: a timer is set for the new attempt and the channel is dropped.\<close>

definition tcp_reconnect :: "lib \<Rightarrow> conn \<Rightarrow> conn option" where
  "tcp_reconnect l c =
     (let interval = (if c_reconnectInterval c > 0 then c_reconnectInterval c else 0)
      in do {
        c \<leftarrow> conn_chan_close l (eff [RunAfter interval ReconnectTask] (c\<lparr>c_reconnecting := True\<rparr>));
        Some (c\<lparr>c_chan := None\<rparr>)
      })"

text \<open>\<open>handyUnregisterIdle\<close> erases a list node; a node that is already gone is undefined.\<close>

fun unregister_idles :: "nat list \<Rightarrow> conn \<Rightarrow> conn option" where
  "unregister_idles [] c = Some c"
| "unregister_idles (i # is) c =
     (if i \<in> set (c_idleNodes c)
      then unregister_idles is (eff [UnregisterIdle i] (c\<lparr>c_idleNodes := remove1 i (c_idleNodes c)\<rparr>))
      else None)"

fun update_idles :: "nat list \<Rightarrow> conn \<Rightarrow> conn option" where
  "update_idles [] c = Some c"
| "update_idles (i # is) c =
     (if i \<in> set (c_idleNodes c) then update_idles is (eff [UpdateIdle i] c) else None)"

definition tcp_cleanup :: "lib \<Rightarrow> cbs \<Rightarrow> conn \<Rightarrow> conn option" where
  "tcp_cleanup l cbs c =
     do {
       c \<leftarrow> (if c_readcb c \<and> buf_size (c_input c) \<noteq> 0 then cb_read cbs l c else Some c);
       let c = c\<lparr>c_state := (if c_state c = Handshaking then Failed else Closed)\<rparr>;
       let c = eff [CancelTimer (c_timeoutId c)] c;
       c \<leftarrow> (if c_statecb c then cb_state cbs l c else Some c);
       if c_reconnectInterval c \<ge> 0 \<and> \<not> c_exited c then tcp_reconnect l c
       else do {
         c \<leftarrow> unregister_idles (c_idleIds c) c;
         let ch = c_chan c;
         let c = c\<lparr>c_readcb := False, c_writablecb := False, c_statecb := False, c_chan := None\<rparr>;
         (case ch of None \<Rightarrow> Some c | Some ch \<Rightarrow> old_chan_close l ch c)
       }
     }"

section \<open>handleHandshake, handleRead\<close>

text \<open>\<open>poll\<close> ignores a negative descriptor and then reports no event.\<close>

definition handle_handshake :: "lib \<Rightarrow> cbs \<Rightarrow> conn \<Rightarrow> (int \<times> conn) option" where
  "handle_handshake l cbs c =
     (if c_state c \<noteq> Handshaking then None
      else case c_chan c of None \<Rightarrow> None
      | Some ch \<Rightarrow>
          let ready = ch_fd ch \<ge> 0 \<and> c_polls c \<noteq> [] \<and> hd (c_polls c);
              c = c\<lparr>c_polls := (if ch_fd ch \<ge> 0 then tl (c_polls c) else c_polls c)\<rparr>
          in if ready
             then do {
               c \<leftarrow> conn_update (channel_enableReadWrite True False) c;
               let c = c\<lparr>c_state := Connected\<rparr>;
               c \<leftarrow> (if c_statecb c then cb_state cbs l c else Some c);
               Some (0, c)
             }
             else do { c \<leftarrow> tcp_cleanup l cbs c; Some (- 1, c) })"

text \<open>The bytes \<open>readImp\<close> puts at \<open>input_.end()\<close>, followed by \<open>addSize\<close>.\<close>

definition read_into :: "bytes \<Rightarrow> buffer \<Rightarrow> buffer" where
  "read_into bs q = buf_store (bf_e q) bs (buf_addSize (length bs) q)"

definition read_again :: "lib \<Rightarrow> cbs \<Rightarrow> conn \<Rightarrow> conn option" where
  "read_again l cbs c =
     do {
       c \<leftarrow> update_idles (c_idleIds c) c;
       if c_readcb c \<and> buf_size (c_input c) \<noteq> 0 then cb_read cbs l c else Some c
     }"

definition rd_size :: "rd \<Rightarrow> nat" where
  "rd_size r = (case r of RData d \<Rightarrow> Suc (length d) | _ \<Rightarrow> 1)"

text \<open>
  The loop of \<open>handleRead\<close>. One \<open>read\<close> takes no more than the room of the buffer nor more than
  \<open>0x7ffff000\<close> bytes (the limit of the system call); what is left of a piece of data stays in
  the kernel.
\<close>

function read_loop :: "lib \<Rightarrow> cbs \<Rightarrow> conn \<Rightarrow> conn option" where
  "read_loop l cbs c =
     (if c_state c \<noteq> Connected then Some c
      else let c1 = c\<lparr>c_input := buf_makeRoom0 (c_input c)\<rparr> in
        case c_chan c of None \<Rightarrow> None
        | Some ch \<Rightarrow>
          if ch_fd ch < 0 then tcp_cleanup l cbs c1
          else case c_reads c of
            [] \<Rightarrow> read_again l cbs c1
          | r # rs \<Rightarrow>
            (case r of
              RIntr \<Rightarrow> read_loop l cbs (c1\<lparr>c_reads := rs\<rparr>)
            | RAgain \<Rightarrow> read_again l cbs (c1\<lparr>c_reads := rs\<rparr>)
            | RErr \<Rightarrow> tcp_cleanup l cbs (c1\<lparr>c_reads := rs\<rparr>)
            | RData d \<Rightarrow>
                let n = min (length d) (min (buf_space (c_input c1)) (0x7ffff000))
                in if n = 0 then tcp_cleanup l cbs (c1\<lparr>c_reads := rs\<rparr>)
                   else read_loop l cbs
                     (c1\<lparr>c_input := read_into (take n d) (c_input c1),
                         c_reads := (if n < length d then RData (drop n d) # rs else rs)\<rparr>)))"
  by pat_completeness auto
termination
  by (relation "measure (\<lambda>(l, cbs, c). sum_list (map rd_size (c_reads c)))")
    (auto simp: rd_size_def)

declare read_loop.simps [simp del]

definition handle_read :: "lib \<Rightarrow> cbs \<Rightarrow> conn \<Rightarrow> conn option" where
  "handle_read l cbs c =
     do {
       (r, c) \<leftarrow> (if c_state c = Handshaking then handle_handshake l cbs c else Some (0, c));
       if r \<noteq> 0 then Some c else read_loop l cbs c
     }"

text \<open>
  The re-entrant operations with at most \<open>d\<close> of them under each other; a deeper nesting has
  run out of stack.
\<close>

primrec lib_at :: "nat \<Rightarrow> cbs \<Rightarrow> lib" where
  "lib_at 0 cbs = \<lparr>l_read = (\<lambda>c. None), l_cleanup = (\<lambda>c. None)\<rparr>"
| "lib_at (Suc d) cbs =
     \<lparr>l_read = handle_read (lib_at d cbs) cbs, l_cleanup = tcp_cleanup (lib_at d cbs) cbs\<rparr>"

section \<open>Sending\<close>

text \<open>\<open>isend\<close>; the bytes given to \<open>write\<close> are those past \<open>sended\<close>.\<close>

fun isend_loop :: "bytes \<Rightarrow> wr list \<Rightarrow> nat \<Rightarrow> conn \<Rightarrow> (int \<times> conn) option" where
  "isend_loop buf ws sended c =
     (if length buf \<le> sended then Some (int sended, c\<lparr>c_writes := ws\<rparr>)
      else case c_chan c of None \<Rightarrow> None
      | Some ch \<Rightarrow>
          if ch_fd ch < 0 then Some (int sended, c\<lparr>c_writes := ws\<rparr>)
          else case ws of
            WTake n # ws' \<Rightarrow>
              let wd = min n (length buf - sended)
              in if wd = 0 then Some (int sended, c\<lparr>c_writes := ws'\<rparr>)
                 else isend_loop buf ws' (sended + wd) (c\<lparr>c_wire := c_wire c @ take wd (drop sended buf)\<rparr>)
          | WIntr # ws' \<Rightarrow> isend_loop buf ws' sended c
          | WReset # ws' \<Rightarrow> Some (- 1, c\<lparr>c_writes := ws'\<rparr>)
          | WOther # ws' \<Rightarrow> Some (int sended, c\<lparr>c_writes := ws'\<rparr>)
          | _ \<Rightarrow> do {
              c \<leftarrow> (if writeEnabled ch then Some c else conn_update (channel_enableWrite True) c);
              Some (int sended, c\<lparr>c_writes := tl ws\<rparr>)
            })"

declare isend_loop.simps [simp del]

definition isend :: "bytes \<Rightarrow> conn \<Rightarrow> (int \<times> conn) option" where
  "isend buf c = isend_loop buf (c_writes c) 0 c"

definition handle_write :: "lib \<Rightarrow> cbs \<Rightarrow> conn \<Rightarrow> conn option" where
  "handle_write l cbs c =
     (case c_state c of
        Handshaking \<Rightarrow> do { (r, c) \<leftarrow> handle_handshake l cbs c; Some c }
      | Connected \<Rightarrow>
          do {
            (sended, c) \<leftarrow> isend (buf_str (c_output c)) c;
            if sended = - 1 then tcp_cleanup l cbs c
            else do {
              let c = c\<lparr>c_output := buf_consume (nat sended) (c_output c)\<rparr>;
              c \<leftarrow> (if buf_empty (c_output c) \<and> c_writablecb c then cb_writable cbs l c else Some c);
              if buf_empty (c_output c)
              then (case c_chan c of None \<Rightarrow> None
                    | Some ch \<Rightarrow> if writeEnabled ch then conn_update (channel_enableWrite False) c else Some c)
              else Some c
            }
          }
      | _ \<Rightarrow> Some c)"

text \<open>\<open>send(const char *buf, size_t len)\<close>.\<close>

definition send_bytes :: "lib \<Rightarrow> bytes \<Rightarrow> conn \<Rightarrow> conn option" where
  "send_bytes l buf c =
     (if c_chan c = None then Some c
      else do {
        (sended, c) \<leftarrow> (if buf_empty (c_output c) then isend buf c else Some (0, c));
        if sended = - 1 then l_cleanup l c
        else let buf = drop (nat sended) buf
             in Some (if buf \<noteq> [] then c\<lparr>c_output := buf_append buf (c_output c)\<rparr> else c)
      })"

text \<open>
  \<open>send(Buffer &buf)\<close>: the reference may be the connection's own input or output buffer or one
  of the caller. \<open>absorb\<close> of a buffer into itself does nothing.
\<close>

datatype bufref = InputBuf | OutputBuf | UserBuf

fun get_ref :: "bufref \<Rightarrow> conn \<Rightarrow> buffer" where
  "get_ref InputBuf c = c_input c"
| "get_ref OutputBuf c = c_output c"
| "get_ref UserBuf c = c_userBuf c"

fun put_ref :: "bufref \<Rightarrow> buffer \<Rightarrow> conn \<Rightarrow> conn" where
  "put_ref InputBuf b c = c\<lparr>c_input := b\<rparr>"
| "put_ref OutputBuf b c = c\<lparr>c_output := b\<rparr>"
| "put_ref UserBuf b c = c\<lparr>c_userBuf := b\<rparr>"

definition absorb_ref :: "bufref \<Rightarrow> conn \<Rightarrow> conn" where
  "absorb_ref r c =
     (if r = OutputBuf then c
      else let (out, b) = buf_absorb (c_output c) (get_ref r c) in put_ref r b (c\<lparr>c_output := out\<rparr>))"

definition tcp_send :: "lib \<Rightarrow> bufref \<Rightarrow> conn \<Rightarrow> conn option" where
  "tcp_send l r c =
     (case c_chan c of None \<Rightarrow> Some c
      | Some ch \<Rightarrow>
        let c = (if writeEnabled ch then absorb_ref r c else c);
            some = buf_size (get_ref r c) \<noteq> 0
        in do {
          (sended, c) \<leftarrow> (if some then isend (buf_str (get_ref r c)) c else Some (0, c));
          if sended = - 1 then l_cleanup l c
          else
            let c = (if some then put_ref r (buf_consume (nat sended) (get_ref r c)) c else c)
            in if buf_size (get_ref r c) \<noteq> 0
               then let c = absorb_ref r c
                    in (case c_chan c of None \<Rightarrow> None
                        | Some ch \<Rightarrow> if writeEnabled ch then Some c else conn_update (channel_enableWrite True) c)
               else Some c
        })"

definition sendOutput :: "lib \<Rightarrow> conn \<Rightarrow> conn option" where
  "sendOutput l = tcp_send l OutputBuf"

definition sendMsg :: "lib \<Rightarrow> bytes \<Rightarrow> conn \<Rightarrow> conn option" where
  "sendMsg l msg c =
     (case c_codec c of None \<Rightarrow> None
      | Some k \<Rightarrow> sendOutput l (c\<lparr>c_output := codec_encode k msg (c_output c)\<rparr>))"

section \<open>Receiving messages\<close>

text \<open>
  The read callback that \<open>onMsg\<close> installs: messages are cut off the input until the decoder
  needs more. Nothing bounds the number of turns when the message callback adds input.
\<close>

partial_function (option) on_msg :: "(lib \<Rightarrow> bytes \<Rightarrow> conn \<Rightarrow> conn option) \<Rightarrow> lib \<Rightarrow> conn \<Rightarrow> conn option" where
  "on_msg cb l c =
     (case c_codec c of None \<Rightarrow> None
      | Some k \<Rightarrow>
        (case codec_dec k (buf_str (c_input c)) of
           Broken \<Rightarrow> conn_chan_close l c
         | Incomplete \<Rightarrow> Some c
         | Msg r msg \<Rightarrow>
             do { c \<leftarrow> cb l msg c; on_msg cb l (c\<lparr>c_input := buf_consume r (c_input c)\<rparr>) }))"

text \<open>\<open>onRead\<close> and \<open>onMsg\<close> set the callback, which must not be set already.\<close>

definition tcp_onRead :: "conn \<Rightarrow> conn option" where
  "tcp_onRead c = (if c_readcb c then None else Some (c\<lparr>c_readcb := True\<rparr>))"

definition tcp_onMsg :: "codec \<Rightarrow> conn \<Rightarrow> conn option" where
  "tcp_onMsg k c = (if c_readcb c then None else tcp_onRead (c\<lparr>c_codec := Some k\<rparr>))"

section \<open>attach, connect, close\<close>

definition tcp_attach :: "lib \<Rightarrow> nat \<Rightarrow> int \<Rightarrow> conn \<Rightarrow> conn option" where
  "tcp_attach l chid fd c =
     (if c_destPort c \<le> 0 \<and> c_state c \<noteq> Invalid \<or> c_destPort c \<ge> 0 \<and> c_state c \<noteq> Handshaking then None
      else do {
        let c = c\<lparr>c_state := Handshaking\<rparr>;
        c \<leftarrow> (if c_chan c = None then Some c else conn_chan_close l c);
        let ch = \<lparr>ch_id = chid, ch_fd = fd, ch_events = kWriteEvent OR kReadEvent\<rparr>;
        if fd < 0 then None
        else Some (eff [AddChannel chid fd (ch_events ch)] (c\<lparr>c_chan := Some ch\<rparr>))
      })"

text \<open>
  \<open>fd\<close> is the answer of \<open>socket\<close>, \<open>tid\<close> that of \<open>runAfter\<close>. The results of \<open>bind\<close> and
  \<open>connect\<close> are only logged; a failed attempt shows up in \<open>handleHandshake\<close>.
\<close>

definition tcp_connect :: "lib \<Rightarrow> nat \<Rightarrow> int \<Rightarrow> timer_id \<Rightarrow> 16 word \<Rightarrow> int \<Rightarrow> conn \<Rightarrow> conn option" where
  "tcp_connect l chid fd tid port timeout c =
     (if c_state c \<noteq> Invalid \<and> c_state c \<noteq> Closed \<and> c_state c \<noteq> Failed then None
      else if fd < 0 then None
      else do {
        let c = c\<lparr>c_destPort := uint port, c_connectTimeout := timeout, c_state := Handshaking\<rparr>;
        c \<leftarrow> tcp_attach l chid fd c;
        Some (if timeout \<noteq> 0
              then eff [RunAfter timeout ConnectTimeout] (c\<lparr>c_timeoutId := tid\<rparr>) else c)
      })"

definition connect_timeout :: "lib \<Rightarrow> conn \<Rightarrow> conn option" where
  "connect_timeout l c = (if c_state c = Handshaking then conn_chan_close l c else Some c)"

definition reconnect_timeout :: "lib \<Rightarrow> nat \<Rightarrow> int \<Rightarrow> timer_id \<Rightarrow> conn \<Rightarrow> conn option" where
  "reconnect_timeout l chid fd tid c =
     tcp_connect l chid fd tid (word_of_int (c_destPort c)) (c_connectTimeout c)
       (c\<lparr>c_reconnecting := False\<rparr>)"

definition tcp_close :: "conn \<Rightarrow> conn" where
  "tcp_close c = (if c_chan c = None then c else eff [SafeCall CloseTask] c)"

definition close_task :: "lib \<Rightarrow> conn \<Rightarrow> conn option" where
  "close_task l c = (if c_chan c = None then Some c else conn_chan_close l c)"

definition tcp_closeNow :: "lib \<Rightarrow> conn \<Rightarrow> conn option" where
  "tcp_closeNow l c = (if c_chan c = None then Some c else conn_chan_close l c)"

definition writable :: "conn \<Rightarrow> bool" where
  "writable c = (case c_chan c of None \<Rightarrow> False | Some ch \<Rightarrow> writeEnabled ch)"

definition isClient :: "conn \<Rightarrow> bool" where
  "isClient c \<longleftrightarrow> c_destPort c > 0"

definition addIdleCB :: "nat \<Rightarrow> conn \<Rightarrow> conn" where
  "addIdleCB i c =
     (if c_chan c = None then c
      else c\<lparr>c_idleNodes := c_idleNodes c @ [i], c_idleIds := c_idleIds c @ [i]\<rparr>)"

end
