(* ===== verification/Handy_Conn_Send.thy ===== *)
theory Handy_Conn_Send
  imports Handy_Conn
begin

text \<open>
  What the sending side of \<open>TcpConn\<close> promises: the bytes the kernel has taken followed by the
  bytes of \<open>output_\<close> are the bytes the user has sent, in order, and the write event is on
  while bytes wait in \<open>output_\<close>.
\<close>

definition out_stream :: "conn \<Rightarrow> bytes" where
  "out_stream c = c_wire c @ buf_str (c_output c)"

definition chan_open :: "conn \<Rightarrow> bool" where
  "chan_open c \<longleftrightarrow> (case c_chan c of None \<Rightarrow> False | Some ch \<Rightarrow> ch_fd ch \<ge> 0)"

text \<open>The channel without its events, and a frame for the calls that only do output.\<close>

definition chan_key :: "conn \<Rightarrow> (nat \<times> int) option" where
  "chan_key c = map_option (\<lambda>ch. (ch_id ch, ch_fd ch)) (c_chan c)"

definition conn_rest :: "conn \<Rightarrow> conn" where
  "conn_rest c = c\<lparr>c_chan := None, c_writes := [], c_wire := [], c_effects := []\<rparr>"

definition io_only :: "conn \<Rightarrow> conn \<Rightarrow> bool" where
  "io_only c c' \<longleftrightarrow> conn_rest c' = conn_rest c \<and> chan_key c' = chan_key c"

lemma io_only_refl [simp]: "io_only c c"
  by (simp add: io_only_def)

lemma io_only_trans: "io_only c c' \<Longrightarrow> io_only c' c'' \<Longrightarrow> io_only c c''"
  by (simp add: io_only_def)

lemma conn_restD:
  assumes "conn_rest c' = conn_rest c"
  shows "c_state c' = c_state c" "c_input c' = c_input c" "c_output c' = c_output c"
    "c_readcb c' = c_readcb c" "c_writablecb c' = c_writablecb c" "c_statecb c' = c_statecb c"
    "c_idleIds c' = c_idleIds c" "c_idleNodes c' = c_idleNodes c" "c_codec c' = c_codec c"
    "c_userBuf c' = c_userBuf c" "c_reads c' = c_reads c" "c_polls c' = c_polls c"
    "c_reconnectInterval c' = c_reconnectInterval c" "c_exited c' = c_exited c"
    "c_destPort c' = c_destPort c" "c_reconnecting c' = c_reconnecting c"
  using arg_cong [OF assms, of c_state] arg_cong [OF assms, of c_input]
    arg_cong [OF assms, of c_output] arg_cong [OF assms, of c_readcb]
    arg_cong [OF assms, of c_writablecb] arg_cong [OF assms, of c_statecb]
    arg_cong [OF assms, of c_idleIds] arg_cong [OF assms, of c_idleNodes]
    arg_cong [OF assms, of c_codec] arg_cong [OF assms, of c_userBuf]
    arg_cong [OF assms, of c_reads] arg_cong [OF assms, of c_polls]
    arg_cong [OF assms, of c_reconnectInterval] arg_cong [OF assms, of c_exited]
    arg_cong [OF assms, of c_destPort] arg_cong [OF assms, of c_reconnecting]
  by (simp_all add: conn_rest_def)

lemma io_onlyD:
  assumes "io_only c c'"
  shows "c_state c' = c_state c" "c_input c' = c_input c" "c_output c' = c_output c"
    "c_readcb c' = c_readcb c" "c_writablecb c' = c_writablecb c" "c_statecb c' = c_statecb c"
    "c_idleIds c' = c_idleIds c" "c_idleNodes c' = c_idleNodes c" "c_codec c' = c_codec c"
    "c_userBuf c' = c_userBuf c" "c_reads c' = c_reads c" "c_polls c' = c_polls c"
    "c_reconnectInterval c' = c_reconnectInterval c" "c_exited c' = c_exited c"
    "c_destPort c' = c_destPort c" "c_reconnecting c' = c_reconnecting c"
    "chan_key c' = chan_key c" "c_chan c' = None \<longleftrightarrow> c_chan c = None" "get_ref r c' = get_ref r c"
proof -
  from assms have eq: "conn_rest c' = conn_rest c" and key: "chan_key c' = chan_key c"
    by (auto simp: io_only_def)
  note D = conn_restD [OF eq]
  from D show "c_state c' = c_state c" "c_input c' = c_input c" "c_output c' = c_output c"
    "c_readcb c' = c_readcb c" "c_writablecb c' = c_writablecb c" "c_statecb c' = c_statecb c"
    "c_idleIds c' = c_idleIds c" "c_idleNodes c' = c_idleNodes c" "c_codec c' = c_codec c"
    "c_userBuf c' = c_userBuf c" "c_reads c' = c_reads c" "c_polls c' = c_polls c"
    "c_reconnectInterval c' = c_reconnectInterval c" "c_exited c' = c_exited c"
    "c_destPort c' = c_destPort c" "c_reconnecting c' = c_reconnecting c"
    by simp_all
  show "chan_key c' = chan_key c" by (rule key)
  then show "c_chan c' = None \<longleftrightarrow> c_chan c = None" by (auto simp: chan_key_def)
  show "get_ref r c' = get_ref r c" using D by (cases r) simp_all
qed

lemma conn_update_io:
  assumes "c_chan c = Some ch" and "ch_fd ch \<ge> 0"
  shows "\<exists>es. conn_update (channel_enableWrite on) c = Some (eff es (c\<lparr>c_chan := Some (channel_enableWrite on ch)\<rparr>))"
  using assms by (auto simp: conn_update_def channel_update_def)

lemma io_only_update [simp]:
  "c_chan c = Some ch \<Longrightarrow> io_only c (eff es (c\<lparr>c_chan := Some (channel_enableWrite on ch)\<rparr>))"
  by (simp add: io_only_def conn_rest_def eff_def chan_key_def)

lemma eff_simps [simp]:
  "c_state (eff es c) = c_state c" "c_chan (eff es c) = c_chan c" "c_input (eff es c) = c_input c"
  "c_output (eff es c) = c_output c" "c_readcb (eff es c) = c_readcb c"
  "c_writablecb (eff es c) = c_writablecb c" "c_statecb (eff es c) = c_statecb c"
  "c_idleIds (eff es c) = c_idleIds c" "c_idleNodes (eff es c) = c_idleNodes c"
  "c_codec (eff es c) = c_codec c" "c_userBuf (eff es c) = c_userBuf c"
  "c_reads (eff es c) = c_reads c" "c_writes (eff es c) = c_writes c" "c_polls (eff es c) = c_polls c"
  "c_wire (eff es c) = c_wire c" "c_effects (eff es c) = c_effects c @ es"
  "c_reconnectInterval (eff es c) = c_reconnectInterval c" "c_exited (eff es c) = c_exited c"
  "c_destPort (eff es c) = c_destPort c" "c_reconnecting (eff es c) = c_reconnecting c"
  "c_connectTimeout (eff es c) = c_connectTimeout c" "c_timeoutId (eff es c) = c_timeoutId c"
  by (simp_all add: eff_def)

section \<open>isend\<close>

text \<open>
  Answers that take bytes or ask to wait: after these, what is left over is guarded by the
  write event.
\<close>

definition calm :: "wr list \<Rightarrow> bool" where
  "calm ws \<longleftrightarrow> WReset \<notin> set ws \<and> WOther \<notin> set ws \<and> WTake 0 \<notin> set ws"

definition sent_ok :: "bytes \<Rightarrow> nat \<Rightarrow> wr list \<Rightarrow> conn \<Rightarrow> int \<Rightarrow> conn \<Rightarrow> bool" where
  "sent_ok buf s ws c n c' \<longleftrightarrow>
     io_only c c' \<and> set (c_writes c') \<subseteq> set ws \<and>
     (n = - 1 \<and> WReset \<in> set ws \<or>
      (\<exists>k. n = int k \<and> s \<le> k \<and> k \<le> length buf \<and> c_wire c' = c_wire c @ take (k - s) (drop s buf) \<and>
           (calm ws \<and> k < length buf \<and> chan_open c \<longrightarrow> writable c') \<and>
           (writable c \<longrightarrow> writable c')))"

lemma isend_loop_ok:
  assumes "c_chan c \<noteq> None" and "s \<le> length buf"
  shows "\<exists>n c'. isend_loop buf ws s c = Some (n, c') \<and> sent_ok buf s ws c n c'"
  using assms
proof (induction buf ws s c rule: isend_loop.induct)
  case (1 buf ws sended c)
  then obtain ch where ch: "c_chan c = Some ch" by auto
  show ?case
  proof (cases "length buf \<le> sended \<or> ch_fd ch < 0")
    case True
    with 1 ch show ?thesis
      by (auto simp: isend_loop.simps [of buf ws] sent_ok_def io_only_def conn_rest_def chan_open_def chan_key_def writable_def)
  next
    case False
    show ?thesis
    proof (cases ws)
      case Nil
      with conn_update_io [OF ch, of True] False show ?thesis
        by (auto simp: isend_loop.simps [of buf "[]"] ch sent_ok_def io_only_def conn_rest_def chan_open_def chan_key_def writable_def eff_def ch)
    next
      case (Cons w ws')
      note unf = isend_loop.simps [of buf "x # ws'" sended c for x]
      show ?thesis
      proof (cases w)
        case (WTake n)
        define wd where "wd = min n (length buf - sended)"
        define c1 where "c1 = c\<lparr>c_wire := c_wire c @ take wd (drop sended buf)\<rparr>"
        show ?thesis
        proof (cases "wd = 0")
          case True
          with False Cons WTake 1 have "\<not> calm ws" by (auto simp: wd_def calm_def)
          with True Cons WTake 1(4) False show ?thesis
            by (auto simp: unf ch Cons sent_ok_def io_only_def conn_rest_def chan_open_def chan_key_def writable_def wd_def [symmetric])
        next
          case pos: False
          have "sended + wd \<le> length buf" using 1(4) by (simp add: wd_def)
          with pos False 1(1) [of ch "w" ws' n wd] Cons WTake ch
          obtain m c' where IH: "isend_loop buf ws' (sended + wd) c1 = Some (m, c')"
            "sent_ok buf (sended + wd) ws' c1 m c'"
            by (auto simp: wd_def c1_def)
          have io: "io_only c1 c' \<Longrightarrow> io_only c c'"
            by (rule io_only_trans [of c c1]) (simp_all add: io_only_def conn_rest_def c1_def chan_key_def)
          have key: "chan_key c1 = chan_key c" "writable c1 = writable c" "chan_open c1 = chan_open c"
            by (simp_all add: c1_def chan_open_def chan_key_def writable_def)
          have tk: "take wd (drop sended buf) @ take (k - (sended + wd)) (drop (sended + wd) buf)
              = take (k - sended) (drop sended buf)" if "sended + wd \<le> k" for k
            using take_add [of wd "k - (sended + wd)" "drop sended buf"] that by (simp add: add.commute)
          have w1: "c_wire c1 @ take (k - (sended + wd)) (drop (sended + wd) buf) =
              c_wire c @ take (k - sended) (drop sended buf)" if "sended + wd \<le> k" for k
            using tk [OF that] by (simp add: c1_def)
          have cm: "calm ws \<Longrightarrow> calm ws'" "set ws' \<subseteq> set ws"
            by (auto simp: Cons calm_def)
          have "sent_ok buf sended ws c m c'"
          proof (cases "m = - 1 \<and> WReset \<in> set ws'")
            case True
            with IH(2) io cm(2) show ?thesis by (auto simp: sent_ok_def)
          next
            case False
            with IH(2) obtain k where "m = int k" "sended + wd \<le> k" "k \<le> length buf"
              "c_wire c' = c_wire c1 @ take (k - (sended + wd)) (drop (sended + wd) buf)"
              "calm ws' \<and> k < length buf \<and> chan_open c1 \<longrightarrow> writable c'" "writable c1 \<longrightarrow> writable c'"
              "io_only c1 c'" "set (c_writes c') \<subseteq> set ws'"
              by (auto simp: sent_ok_def)
            with io cm key w1 show ?thesis
              unfolding sent_ok_def by (intro conjI disjI2 exI [of _ k]) auto
          qed
          with IH(1) show ?thesis
            using False by (auto simp: unf ch Cons WTake Let_def pos c1_def [symmetric] wd_def [symmetric])
        qed
      next
        case WIntr
        with 1(2) [of ch w ws'] Cons False ch 1(4) show ?thesis
          by (auto simp: unf ch Cons sent_ok_def calm_def chan_open_def)
      next
        case WAgain
        with Cons conn_update_io [OF ch, of True] False 1(4) show ?thesis
          by (auto simp: unf ch Cons sent_ok_def io_only_def conn_rest_def chan_open_def chan_key_def writable_def eff_def ch)
      next
        case WReset
        with Cons 1(4) False show ?thesis
          by (auto simp: unf ch sent_ok_def io_only_def conn_rest_def chan_open_def chan_key_def writable_def)
      next
        case WOther
        with Cons 1(4) show ?thesis
          by (auto simp: unf ch Cons sent_ok_def io_only_def conn_rest_def chan_open_def chan_key_def calm_def writable_def)
      qed
    qed
  qed
qed

lemma isend_ok:
  assumes "c_chan c \<noteq> None"
  shows "\<exists>n c'. isend buf c = Some (n, c') \<and> sent_ok buf 0 (c_writes c) c n c'"
  unfolding isend_def using isend_loop_ok [OF assms, of 0 buf] by simp

lemma chan_open_key: "chan_open c \<longleftrightarrow> (\<exists>i fd. chan_key c = Some (i, fd) \<and> fd \<ge> 0)"
  by (auto simp: chan_open_def chan_key_def split: option.splits)

lemma chan_open_io: "io_only c c' \<Longrightarrow> chan_open c' = chan_open c"
  by (simp add: chan_open_key io_onlyD)

lemma chan_open_Some: "chan_open c \<Longrightarrow> \<exists>ch. c_chan c = Some ch \<and> ch_fd ch \<ge> 0"
  by (auto simp: chan_open_def split: option.splits)

text \<open>Without a reset, \<open>isend\<close> hands over some prefix and nothing else changes.\<close>

lemma isend_sent:
  assumes "chan_open c" and "WReset \<notin> set (c_writes c)"
  obtains k c' where "isend buf c = Some (int k, c')" "k \<le> length buf" "io_only c c'"
    "c_wire c' = c_wire c @ take k buf" "calm (c_writes c) \<Longrightarrow> k < length buf \<Longrightarrow> writable c'"
    "writable c \<Longrightarrow> writable c'" "set (c_writes c') \<subseteq> set (c_writes c)"
proof -
  from assms(1) have "c_chan c \<noteq> None" by (auto dest: chan_open_Some)
  from isend_ok [OF this, of buf] obtain n c' where
    n: "isend buf c = Some (n, c')" "sent_ok buf 0 (c_writes c) c n c'" by auto
  from n(2) assms obtain k where "n = int k" "k \<le> length buf" "io_only c c'"
    "c_wire c' = c_wire c @ take k buf" "calm (c_writes c) \<Longrightarrow> k < length buf \<Longrightarrow> writable c'"
    "writable c \<Longrightarrow> writable c'" "set (c_writes c') \<subseteq> set (c_writes c)"
    by (auto simp: sent_ok_def)
  with n(1) that show thesis by blast
qed

section \<open>send\<close>

definition flow_ok :: "conn \<Rightarrow> bool" where
  "flow_ok c \<longleftrightarrow> (buf_str (c_output c) \<noteq> [] \<longrightarrow> writable c)"

lemma writable_io [simp]: "writable (c\<lparr>c_output := b\<rparr>) = writable c" "writable (c\<lparr>c_input := b\<rparr>) = writable c"
  "writable (c\<lparr>c_userBuf := b\<rparr>) = writable c"
  by (simp_all add: writable_def)

lemma conn_rest_put [simp]:
  "conn_rest (c\<lparr>c_output := b\<rparr>) = (conn_rest c)\<lparr>c_output := b\<rparr>"
  "conn_rest (c\<lparr>c_input := b\<rparr>) = (conn_rest c)\<lparr>c_input := b\<rparr>"
  "conn_rest (c\<lparr>c_userBuf := b\<rparr>) = (conn_rest c)\<lparr>c_userBuf := b\<rparr>"
  by (simp_all add: conn_rest_def)

lemma io_only_output: "io_only c c' \<Longrightarrow> io_only (c\<lparr>c_output := b\<rparr>) (c'\<lparr>c_output := b\<rparr>)"
  by (simp add: io_only_def chan_key_def)

lemma send_bytes_sent:
  assumes "chan_open c" and "WReset \<notin> set (c_writes c)" and "buf_ok (c_output c)"
  obtains c' where "send_bytes l buf c = Some c'" "out_stream c' = out_stream c @ buf"
    "buf_ok (c_output c')" "io_only c (c'\<lparr>c_output := c_output c\<rparr>)"
    "calm (c_writes c) \<Longrightarrow> flow_ok c \<Longrightarrow> flow_ok c'" "set (c_writes c') \<subseteq> set (c_writes c)"
proof (cases "buf_empty (c_output c)")
  case True
  obtain k c1 where k: "isend buf c = Some (int k, c1)" "k \<le> length buf" "io_only c c1"
    "c_wire c1 = c_wire c @ take k buf" "calm (c_writes c) \<Longrightarrow> k < length buf \<Longrightarrow> writable c1"
    "set (c_writes c1) \<subseteq> set (c_writes c)"
    using isend_sent [OF assms(1,2)] by metis
  have e: "buf_str (c_output c) = []" using True assms(3) by (simp add: abs_simps)
  from assms(1) obtain ch where ch: "c_chan c = Some ch" by (auto dest: chan_open_Some)
  note D = io_onlyD [OF k(3)]
  let ?c = "if drop k buf \<noteq> [] then c1\<lparr>c_output := buf_append (drop k buf) (c_output c)\<rparr> else c1"
  show thesis
  proof (rule that [of ?c])
    show "send_bytes l buf c = Some ?c"
      using k(1) True ch by (simp add: send_bytes_def D)
    show "out_stream ?c = out_stream c @ buf"
      using assms(3) by (simp add: out_stream_def e k(4) D)
    show "buf_ok (c_output ?c)" using assms(3) by (simp add: D)
    show "io_only c (?c\<lparr>c_output := c_output c\<rparr>)"
      using k(3) by (simp flip: D(3))
    show "set (c_writes ?c) \<subseteq> set (c_writes c)" using k(6) by simp
    assume "calm (c_writes c)"
    then show "flow_ok ?c"
      using k(2,5) assms(3) by (simp add: flow_ok_def e D)
  qed
next
  case False
  from assms(1) obtain ch where ch: "c_chan c = Some ch" by (auto dest: chan_open_Some)
  have "buf_str (c_output c) \<noteq> []" using False assms(3) by (simp add: abs_simps)
  then show thesis using False assms(3) ch
    by (intro that [of "if buf \<noteq> [] then c\<lparr>c_output := buf_append buf (c_output c)\<rparr> else c"])
      (auto simp: send_bytes_def out_stream_def flow_ok_def io_only_def conn_rest_def chan_key_def)
qed

lemma absorb_ref_other:
  "r \<noteq> OutputBuf \<Longrightarrow> buf_absorb (c_output c) (get_ref r c) = (out, b) \<Longrightarrow>
   absorb_ref r c = put_ref r b (c\<lparr>c_output := out\<rparr>)"
  by (simp add: absorb_ref_def)

lemma get_ref_eff [simp]: "get_ref r (eff es c) = get_ref r c" "get_ref r (c\<lparr>c_chan := x\<rparr>) = get_ref r c"
  by (cases r; simp)+

lemma put_ref_simps [simp]:
  "get_ref r (put_ref r b c) = b" "c_wire (put_ref r b c) = c_wire c" "c_chan (put_ref r b c) = c_chan c"
  "c_writes (put_ref r b c) = c_writes c"
  "r \<noteq> OutputBuf \<Longrightarrow> c_output (put_ref r b c) = c_output c"
  by (cases r; simp)+

lemma absorb_ref_ok:
  assumes "r \<noteq> OutputBuf" and "buf_ok (c_output c)" and "buf_ok (get_ref r c)"
  shows "buf_str (c_output (absorb_ref r c)) = buf_str (c_output c) @ buf_str (get_ref r c)"
    and "buf_str (get_ref r (absorb_ref r c)) = []"
    and "buf_ok (c_output (absorb_ref r c))" and "buf_ok (get_ref r (absorb_ref r c))"
    and "c_wire (absorb_ref r c) = c_wire c" and "c_chan (absorb_ref r c) = c_chan c"
    and "c_writes (absorb_ref r c) = c_writes c"
proof -
  obtain out b where ab: "buf_absorb (c_output c) (get_ref r c) = (out, b)" by fastforce
  note eq = absorb_ref_other [OF assms(1) ab]
  from buf_absorb_ok [OF assms(2,3)] ab assms(1)
  show "buf_str (c_output (absorb_ref r c)) = buf_str (c_output c) @ buf_str (get_ref r c)"
    "buf_str (get_ref r (absorb_ref r c)) = []"
    "buf_ok (c_output (absorb_ref r c))" "buf_ok (get_ref r (absorb_ref r c))"
    "c_wire (absorb_ref r c) = c_wire c" "c_chan (absorb_ref r c) = c_chan c"
    "c_writes (absorb_ref r c) = c_writes c"
    by (simp_all add: eq)
qed

text \<open>What stays with a send: the connection is up and its other members are the same.\<close>

definition keeps :: "conn \<Rightarrow> conn \<Rightarrow> bool" where
  "keeps c c' \<longleftrightarrow> chan_open c' \<and> set (c_writes c') \<subseteq> set (c_writes c) \<and> c_state c' = c_state c \<and>
     c_writablecb c' = c_writablecb c \<and> c_codec c' = c_codec c"

lemma keeps_io:
  assumes "chan_open c" and "io_only c (c'\<lparr>c_output := c_output c\<rparr>)" and "set (c_writes c') \<subseteq> set (c_writes c)"
  shows "keeps c c'"
  using io_onlyD [OF assms(2)] chan_open_io [OF assms(2)] assms(1,3)
  by (simp add: keeps_def chan_open_def)

lemma keeps_ref [simp]:
  "keeps c (absorb_ref r c') = keeps c c'" "keeps c (put_ref r b c') = keeps c c'"
  "keeps c (c'\<lparr>c_output := b\<rparr>) = keeps c c'"
  by (cases r; simp add: keeps_def absorb_ref_def chan_open_def split: prod.splits; fail)+

lemma keeps_chan:
  "ch_fd ch \<ge> 0 \<Longrightarrow> keeps c c' \<Longrightarrow> keeps c (eff es (c'\<lparr>c_chan := Some (channel_enableWrite on ch)\<rparr>))"
  by (simp add: keeps_def chan_open_def)

lemma keeps_refl: "chan_open c \<Longrightarrow> keeps c c"
  by (simp add: keeps_def)

text \<open>
  \<open>send(Buffer &)\<close>: a caller's buffer, or the input, is taken over completely; its bytes come
  after everything sent before, given that waiting output is guarded by the write event.
\<close>

lemma tcp_send_sent:
  assumes "chan_open c" and "WReset \<notin> set (c_writes c)" and "buf_ok (c_output c)"
    and "buf_ok (get_ref r c)" and "r \<noteq> OutputBuf" and "flow_ok c"
  obtains c' where "tcp_send l r c = Some c'" "out_stream c' = out_stream c @ buf_str (get_ref r c)"
    "buf_ok (c_output c')" "buf_ok (get_ref r c')" "buf_str (get_ref r c') = []" "flow_ok c'" "keeps c c'"
proof -
  from assms(1) obtain ch where ch: "c_chan c = Some ch" "ch_fd ch \<ge> 0" by (auto dest: chan_open_Some)
  show thesis
  proof (cases "writeEnabled ch")
    case True
    note A = absorb_ref_ok [OF assms(5,3,4)]
    have "tcp_send l r c = Some (absorb_ref r c)"
      using True ch A by (simp add: tcp_send_def buf_size_str)
    then show thesis
      using A True ch assms(1) by (intro that) (auto simp: out_stream_def flow_ok_def writable_def keeps_refl)
  next
    case False
    then have e: "buf_str (c_output c) = []" using assms(6) ch by (auto simp: flow_ok_def writable_def)
    show thesis
    proof (cases "buf_str (get_ref r c) = []")
      case True
      then have "tcp_send l r c = Some c"
        using False ch assms(4) by (simp add: tcp_send_def buf_size_str)
      with True e show thesis
        using assms by (intro that) (auto simp: out_stream_def flow_ok_def keeps_refl)
    next
      case some: False
      obtain k c1 where k: "isend (buf_str (get_ref r c)) c = Some (int k, c1)"
        "k \<le> length (buf_str (get_ref r c))" "io_only c c1"
        "c_wire c1 = c_wire c @ take k (buf_str (get_ref r c))" "set (c_writes c1) \<subseteq> set (c_writes c)"
        using isend_sent [OF assms(1,2)] by metis
      note D = io_onlyD [OF k(3)]
      define c2 where "c2 = put_ref r (buf_consume k (get_ref r c)) c1"
      have g: "get_ref r c2 = buf_consume k (get_ref r c)" "c_output c2 = c_output c"
        "c_wire c2 = c_wire c1" "c_chan c2 = c_chan c1"
        using assms(5) D by (simp_all add: c2_def)
      have okr: "buf_ok (get_ref r c2)" "buf_str (get_ref r c2) = drop k (buf_str (get_ref r c))"
        using buf_consume_ok [OF assms(4) k(2)] by (simp_all add: g)
      have oko: "buf_ok (c_output c2)" using assms(3) by (simp add: g)
      have open2: "chan_open c2" using chan_open_io [OF k(3)] assms(1) g(4) by (simp add: chan_open_def)
      have "keeps c c1"
        using D chan_open_io [OF k(3)] assms(1) k(5) by (simp add: keeps_def)
      then have kc: "keeps c c2" by (simp add: c2_def)
      from open2 obtain ch2 where ch2: "c_chan c2 = Some ch2" "ch_fd ch2 \<ge> 0" by (auto dest: chan_open_Some)
      have eq: "tcp_send l r c = (if buf_str (get_ref r c2) \<noteq> []
          then (case c_chan (absorb_ref r c2) of None \<Rightarrow> None
                | Some ch \<Rightarrow> if writeEnabled ch then Some (absorb_ref r c2)
                    else conn_update (channel_enableWrite True) (absorb_ref r c2))
          else Some c2)"
        using False ch some k(1) assms(4) okr(1) D
        unfolding c2_def by (simp add: tcp_send_def buf_size_str Let_def)
      show thesis
      proof (cases "buf_str (get_ref r c2) = []")
        case True
        with eq have "tcp_send l r c = Some c2" by simp
        with True show thesis
          using e okr oko kc k(4) g by (intro that) (auto simp: out_stream_def flow_ok_def)
      next
        case rest: False
        note A = absorb_ref_ok [OF assms(5) oko okr(1)]
        obtain es where es: "conn_update (channel_enableWrite True) (absorb_ref r c2)
            = Some (eff es ((absorb_ref r c2)\<lparr>c_chan := Some (channel_enableWrite True ch2)\<rparr>))"
          using conn_update_io [of "absorb_ref r c2" ch2 True] A(6) ch2 by auto
        let ?c = "if writeEnabled ch2 then absorb_ref r c2
            else eff es ((absorb_ref r c2)\<lparr>c_chan := Some (channel_enableWrite True ch2)\<rparr>)"
        have "tcp_send l r c = Some ?c" using eq rest A(6) ch2(1) es by simp
        moreover have "keeps c ?c"
          using kc ch2 by (simp add: keeps_chan)
        ultimately show thesis
          using A okr(2) e k(4) g(2,3) ch2 by (intro that [of ?c])
            (auto simp: out_stream_def flow_ok_def writable_def chan_open_def get_ref_eff)
      qed
    qed
  qed
qed

text \<open>\<open>sendOutput\<close> moves waiting bytes to the kernel and leaves the write event on for the rest.\<close>

lemma sendOutput_sent:
  assumes "chan_open c" and "WReset \<notin> set (c_writes c)" and "buf_ok (c_output c)"
  obtains c' where "sendOutput l c = Some c'" "out_stream c' = out_stream c"
    "buf_ok (c_output c')" "flow_ok c'" "io_only c (c'\<lparr>c_output := c_output c\<rparr>)"
    "set (c_writes c') \<subseteq> set (c_writes c)"
proof -
  from assms(1) obtain ch where ch: "c_chan c = Some ch" "ch_fd ch \<ge> 0" by (auto dest: chan_open_Some)
  show thesis
  proof (cases "buf_str (c_output c) = []")
    case True
    then have "sendOutput l c = Some c"
      using ch assms(3) by (simp add: sendOutput_def tcp_send_def absorb_ref_def buf_size_str)
    with True show thesis using assms by (intro that) (auto simp: flow_ok_def)
  next
    case some: False
    obtain k c1 where k: "isend (buf_str (c_output c)) c = Some (int k, c1)"
      "k \<le> length (buf_str (c_output c))" "io_only c c1"
      "c_wire c1 = c_wire c @ take k (buf_str (c_output c))" "set (c_writes c1) \<subseteq> set (c_writes c)"
      using isend_sent [OF assms(1,2)] by metis
    note D = io_onlyD [OF k(3)]
    define c2 where "c2 = c1\<lparr>c_output := buf_consume k (c_output c)\<rparr>"
    have ok: "buf_ok (c_output c2)" "buf_str (c_output c2) = drop k (buf_str (c_output c))"
      using buf_consume_ok [OF assms(3) k(2)] by (simp_all add: c2_def)
    have out: "out_stream c2 = out_stream c"
      by (simp add: out_stream_def ok(2)) (simp add: c2_def k(4))
    have ws: "set (c_writes c2) \<subseteq> set (c_writes c)" using k(5) by (simp add: c2_def)
    have io: "io_only c (c2\<lparr>c_output := c_output c\<rparr>)"
      using k(3) by (simp add: c2_def flip: D(3))
    have "chan_open c2" using chan_open_io [OF k(3)] assms(1) by (simp add: chan_open_def c2_def)
    then obtain ch2 where ch2: "c_chan c2 = Some ch2" "ch_fd ch2 \<ge> 0" by (auto dest: chan_open_Some)
    have eq: "sendOutput l c = (if buf_str (c_output c2) \<noteq> []
        then (case c_chan c2 of None \<Rightarrow> None
              | Some ch \<Rightarrow> if writeEnabled ch then Some c2 else conn_update (channel_enableWrite True) c2)
        else Some c2)"
      using ch some k(1) assms(3) ok(1) D(3) unfolding c2_def
      by (simp add: sendOutput_def tcp_send_def absorb_ref_def buf_size_str Let_def)
    show thesis
    proof (cases "buf_str (c_output c2) \<noteq> [] \<and> \<not> writeEnabled ch2")
      case True
      obtain es where es: "conn_update (channel_enableWrite True) c2
          = Some (eff es (c2\<lparr>c_chan := Some (channel_enableWrite True ch2)\<rparr>))"
        using conn_update_io [OF ch2] by blast
      let ?c = "eff es (c2\<lparr>c_chan := Some (channel_enableWrite True ch2)\<rparr>)"
      have "io_only c (?c\<lparr>c_output := c_output c\<rparr>)"
        using io ch2 by (simp add: io_only_def conn_rest_def chan_key_def eff_def)
      moreover have "sendOutput l c = Some ?c" using eq True ch2(1) es by simp
      ultimately show thesis
        using out ok ws by (intro that [of ?c]) (auto simp: flow_ok_def writable_def out_stream_def)
    next
      case False
      then have "sendOutput l c = Some c2" using eq ch2(1) by auto
      with False show thesis
        using out ok io ch2 ws by (intro that [of c2]) (auto simp: flow_ok_def writable_def)
    qed
  qed
qed

text \<open>\<open>sendMsg\<close> appends one encoded message.\<close>

lemma sendMsg_sent:
  assumes "chan_open c" and "WReset \<notin> set (c_writes c)" and "buf_ok (c_output c)"
    and "c_codec c = Some k"
  obtains c' where "sendMsg l msg c = Some c'" "out_stream c' = out_stream c @ codec_enc k msg"
    "buf_ok (c_output c')" "flow_ok c'" "io_only c (c'\<lparr>c_output := c_output c\<rparr>)"
    "set (c_writes c') \<subseteq> set (c_writes c)"
proof -
  let ?c = "c\<lparr>c_output := codec_encode k msg (c_output c)\<rparr>"
  have ok: "buf_ok (c_output ?c)" "out_stream ?c = out_stream c @ codec_enc k msg"
    using codec_encode_ok [OF assms(3), of k msg] by (simp_all add: out_stream_def)
  have pre: "chan_open ?c" "WReset \<notin> set (c_writes ?c)"
    using assms(1,2) by (simp_all add: chan_open_def)
  obtain c' where c': "sendOutput l ?c = Some c'" "out_stream c' = out_stream ?c"
    "buf_ok (c_output c')" "flow_ok c'" "io_only ?c (c'\<lparr>c_output := c_output ?c\<rparr>)"
    "set (c_writes c') \<subseteq> set (c_writes ?c)"
    using sendOutput_sent [OF pre ok(1)] by metis
  have "io_only c (c'\<lparr>c_output := c_output c\<rparr>)"
    using io_only_output [OF c'(5), of "c_output c"] by simp
  with c' ok(2) assms(4) show thesis by (intro that [of c']) (simp_all add: sendMsg_def)
qed

text \<open>The write event moves waiting bytes to the kernel, and is switched off when none are left.\<close>

lemma handle_write_sent:
  assumes "chan_open c" and "WReset \<notin> set (c_writes c)" and "buf_ok (c_output c)"
    and "c_state c = Connected" and "\<not> c_writablecb c"
  obtains c' where "handle_write l cbs c = Some c'" "out_stream c' = out_stream c"
    "buf_ok (c_output c')" "buf_str (c_output c') = [] \<Longrightarrow> \<not> writable c'"
    "flow_ok c \<Longrightarrow> flow_ok c'" "io_only c (c'\<lparr>c_output := c_output c\<rparr>)"
    "set (c_writes c') \<subseteq> set (c_writes c)"
proof -
  obtain k c1 where k: "isend (buf_str (c_output c)) c = Some (int k, c1)"
    "k \<le> length (buf_str (c_output c))" "io_only c c1"
    "c_wire c1 = c_wire c @ take k (buf_str (c_output c))" "writable c \<Longrightarrow> writable c1"
    "set (c_writes c1) \<subseteq> set (c_writes c)"
    using isend_sent [OF assms(1,2)] by metis
  note D = io_onlyD [OF k(3)]
  define c2 where "c2 = c1\<lparr>c_output := buf_consume k (c_output c)\<rparr>"
  have ok: "buf_ok (c_output c2)" "buf_str (c_output c2) = drop k (buf_str (c_output c))"
    using buf_consume_ok [OF assms(3) k(2)] by (simp_all add: c2_def)
  have out: "out_stream c2 = out_stream c"
    by (simp add: out_stream_def ok(2)) (simp add: c2_def k(4))
  have ws: "set (c_writes c2) \<subseteq> set (c_writes c)" using k(6) by (simp add: c2_def)
  have io: "io_only c (c2\<lparr>c_output := c_output c\<rparr>)"
    using k(3) by (simp add: c2_def flip: D(3))
  have "chan_open c2" using chan_open_io [OF k(3)] assms(1) by (simp add: chan_open_def c2_def)
  then obtain ch2 where ch2: "c_chan c2 = Some ch2" "ch_fd ch2 \<ge> 0" by (auto dest: chan_open_Some)
  have w: "flow_ok c \<Longrightarrow> flow_ok c2"
    using k(5) ok(2) by (auto simp: flow_ok_def c2_def)
  have eq: "handle_write l cbs c = (if buf_str (c_output c2) = []
      then (if writeEnabled ch2 then conn_update (channel_enableWrite False) c2 else Some c2)
      else Some c2)"
    using k(1) ch2(1) assms(3-5) ok(1) D unfolding c2_def
    by (simp add: handle_write_def buf_empty_str Let_def)
  show thesis
  proof (cases "buf_str (c_output c2) = [] \<and> writeEnabled ch2")
    case True
    obtain es where es: "conn_update (channel_enableWrite False) c2
        = Some (eff es (c2\<lparr>c_chan := Some (channel_enableWrite False ch2)\<rparr>))"
      using conn_update_io [OF ch2] by blast
    let ?c = "eff es (c2\<lparr>c_chan := Some (channel_enableWrite False ch2)\<rparr>)"
    have "io_only c (?c\<lparr>c_output := c_output c\<rparr>)"
      using io ch2 by (simp add: io_only_def conn_rest_def chan_key_def eff_def)
    moreover have "handle_write l cbs c = Some ?c" using eq True es by simp
    ultimately show thesis
      using out ok True ws by (intro that [of ?c]) (auto simp: flow_ok_def writable_def out_stream_def)
  next
    case False
    then have "handle_write l cbs c = Some c2" using eq by auto
    with False show thesis
      using out ok io ch2 w ws by (intro that [of c2]) (auto simp: flow_ok_def writable_def)
  qed
qed

section \<open>A connection that sends\<close>

text \<open>What a user and the event loop do on the sending side, in any order.\<close>

datatype send_op = OpBytes bytes | OpBuffer bytes | OpMsg bytes | OpWritable

fun run_op :: "lib \<Rightarrow> cbs \<Rightarrow> send_op \<Rightarrow> conn \<Rightarrow> conn option" where
  "run_op l cbs (OpBytes bs) c = send_bytes l bs c"
| "run_op l cbs (OpBuffer bs) c = tcp_send l UserBuf (c\<lparr>c_userBuf := buf_append bs buf_new\<rparr>)"
| "run_op l cbs (OpMsg msg) c = sendMsg l msg c"
| "run_op l cbs OpWritable c = handle_write l cbs c"

fun op_bytes :: "codec \<Rightarrow> send_op \<Rightarrow> bytes" where
  "op_bytes k (OpBytes bs) = bs"
| "op_bytes k (OpBuffer bs) = bs"
| "op_bytes k (OpMsg msg) = codec_enc k msg"
| "op_bytes k OpWritable = []"

primrec run_ops :: "lib \<Rightarrow> cbs \<Rightarrow> send_op list \<Rightarrow> conn \<Rightarrow> conn option" where
  "run_ops l cbs [] c = Some c"
| "run_ops l cbs (x # xs) c = do { c \<leftarrow> run_op l cbs x c; run_ops l cbs xs c }"

definition sender :: "codec \<Rightarrow> conn \<Rightarrow> bool" where
  "sender k c \<longleftrightarrow> chan_open c \<and> calm (c_writes c) \<and> buf_ok (c_output c) \<and> c_state c = Connected \<and>
     \<not> c_writablecb c \<and> c_codec c = Some k \<and> flow_ok c"

lemma sender_keeps:
  "sender k c \<Longrightarrow> keeps c c' \<Longrightarrow> buf_ok (c_output c') \<Longrightarrow> flow_ok c' \<Longrightarrow> sender k c'"
  by (auto simp: sender_def keeps_def calm_def)

lemma run_op_sent:
  assumes "sender k c"
  shows "\<exists>c'. run_op l cbs x c = Some c' \<and> sender k c' \<and> out_stream c' = out_stream c @ op_bytes k x"
proof -
  have pre: "chan_open c" "WReset \<notin> set (c_writes c)" "buf_ok (c_output c)" "calm (c_writes c)" "flow_ok c"
    "c_state c = Connected" "\<not> c_writablecb c" "c_codec c = Some k"
    using assms by (auto simp: sender_def calm_def)
  show ?thesis
  proof (cases x)
    case (OpBytes bs)
    obtain c' where "send_bytes l bs c = Some c'" "out_stream c' = out_stream c @ bs"
      "buf_ok (c_output c')" "io_only c (c'\<lparr>c_output := c_output c\<rparr>)" "flow_ok c'"
      "set (c_writes c') \<subseteq> set (c_writes c)"
      using send_bytes_sent [OF pre(1-3), of l bs] pre(4,5) by metis
    with OpBytes sender_keeps [OF assms keeps_io] pre(1) show ?thesis by auto
  next
    case (OpBuffer bs)
    let ?c = "c\<lparr>c_userBuf := buf_append bs buf_new\<rparr>"
    have pre': "chan_open ?c" "WReset \<notin> set (c_writes ?c)" "buf_ok (c_output ?c)"
      "buf_ok (get_ref UserBuf ?c)" "UserBuf \<noteq> OutputBuf" "flow_ok ?c" "sender k ?c"
      using pre assms by (simp_all add: chan_open_def flow_ok_def sender_def)
    obtain c' where "tcp_send l UserBuf ?c = Some c'" "out_stream c' = out_stream ?c @ bs"
      "buf_ok (c_output c')" "flow_ok c'" "keeps ?c c'"
      using tcp_send_sent [OF pre'(1-6), of l] by (metis buf_append_ok(2) buf_ok_new buf_str_new
          append_Nil conn.select_convs get_ref.simps(3) conn.surjective conn.update_convs(14))
    with OpBuffer sender_keeps [OF pre'(7)] show ?thesis by (auto simp: out_stream_def)
  next
    case (OpMsg msg)
    obtain c' where "sendMsg l msg c = Some c'" "out_stream c' = out_stream c @ codec_enc k msg"
      "buf_ok (c_output c')" "flow_ok c'" "io_only c (c'\<lparr>c_output := c_output c\<rparr>)"
      "set (c_writes c') \<subseteq> set (c_writes c)"
      using sendMsg_sent [OF pre(1-3,8), of l msg] by metis
    with OpMsg sender_keeps [OF assms keeps_io] pre(1) show ?thesis by auto
  next
    case OpWritable
    obtain c' where "handle_write l cbs c = Some c'" "out_stream c' = out_stream c"
      "buf_ok (c_output c')" "flow_ok c'" "io_only c (c'\<lparr>c_output := c_output c\<rparr>)"
      "set (c_writes c') \<subseteq> set (c_writes c)"
      using handle_write_sent [OF pre(1-3,6,7), of l cbs] pre(5) by metis
    with OpWritable sender_keeps [OF assms keeps_io] pre(1) show ?thesis by auto
  qed
qed

lemma run_ops_sent:
  "sender k c \<Longrightarrow> \<exists>c'. run_ops l cbs xs c = Some c' \<and> sender k c' \<and>
     out_stream c' = out_stream c @ concat (map (op_bytes k) xs)"
proof (induction xs arbitrary: c)
  case (Cons x xs)
  obtain c1 where "run_op l cbs x c = Some c1" "sender k c1" "out_stream c1 = out_stream c @ op_bytes k x"
    using run_op_sent [OF Cons.prems] by blast
  with Cons.IH [of c1] show ?case by auto
qed simp

text \<open>A connected, idle connection with codec \<open>k\<close> whose kernel answers \<open>write\<close> with \<open>ws\<close>.\<close>

definition conn_up :: "codec \<Rightarrow> wr list \<Rightarrow> conn" where
  "conn_up k ws = tcp_new\<lparr>c_state := Connected, c_codec := Some k, c_writes := ws, c_readcb := True,
     c_chan := Some \<lparr>ch_id = 1, ch_fd = 5, ch_events = kReadEvent\<rparr>\<rparr>"


lemma conn_up_simps [simp]:
  "chan_open (conn_up k ws)" "c_state (conn_up k ws) = Connected" "c_writes (conn_up k ws) = ws"
  "c_output (conn_up k ws) = buf_new" "c_input (conn_up k ws) = buf_new"
  "\<not> c_writablecb (conn_up k ws)" "c_codec (conn_up k ws) = Some k" "c_wire (conn_up k ws) = []"
  "c_idleIds (conn_up k ws) = []" "c_readcb (conn_up k ws)"
  by (simp_all add: conn_up_def tcp_new_def chan_open_def)


end
