(* ===== verification/Handy_Conn_Recv.thy ===== *)
theory Handy_Conn_Recv
  imports Handy_Conn_Send
begin

text \<open>
  What the receiving side of \<open>TcpConn\<close> promises: the read loop puts the bytes of the kernel
  into \<open>input_\<close> in order, and the read callback of \<open>onMsg\<close> hands each message to the user once,
  in order, however the bytes were cut. The locale \<open>msg_user\<close> is what the connection asks of a
  message callback; the echo of \<open>examples/codec-svr.cc\<close> is one.
\<close>

section \<open>The read loop\<close>

text \<open>The bytes a sequence of answers holds up to the first \<open>EAGAIN\<close>, and the answers after it.\<close>

fun drain :: "rd list \<Rightarrow> bytes \<times> rd list" where
  "drain [] = ([], [])"
| "drain (RAgain # rs) = ([], rs)"
| "drain (RData d # rs) = (d @ fst (drain rs), snd (drain rs))"
| "drain (RIntr # rs) = drain rs"
| "drain (RErr # rs) = ([], rs)"

text \<open>No error and no end of the stream before the first \<open>EAGAIN\<close>.\<close>

fun ends_again :: "rd list \<Rightarrow> bool" where
  "ends_again [] = True"
| "ends_again (RAgain # rs) = True"
| "ends_again (RData d # rs) = (d \<noteq> [] \<and> ends_again rs)"
| "ends_again (RIntr # rs) = ends_again rs"
| "ends_again (RErr # rs) = False"

definition input_ok :: "conn \<Rightarrow> bool" where
  "input_ok c \<longleftrightarrow> buf_ok (c_input c) \<and> 0 < bf_exp (c_input c)"

lemma bf_exp_simps [simp]:
  "bf_exp (buf_makeRoom0 q) = bf_exp q" "bf_exp (read_into d q) = bf_exp q"
  "bf_exp (buf_consume n q) = bf_exp q"
  by (simp_all add: buf_makeRoom0_def buf_expand_def read_into_def buf_store_def buf_addSize_def
      buf_consume_def buf_clear_def Let_def)

lemma read_into_ok:
  assumes "buf_ok q" and "length d \<le> buf_space q"
  shows "buf_ok (read_into d q)" and "buf_str (read_into d q) = buf_str q @ d"
  using buf_store_ok [OF assms(1), of d] assms buf_okD(2) [OF assms(1)]
  by (simp_all add: read_into_def buf_space_def)

lemma read_loop_drain:
  assumes "c_state c = Connected" and "chan_open c" and "input_ok c" and "ends_again (c_reads c)"
  shows "\<exists>q. read_loop l cbs c = read_again l cbs (c\<lparr>c_input := q, c_reads := snd (drain (c_reads c))\<rparr>) \<and>
    buf_ok q \<and> bf_exp q = bf_exp (c_input c) \<and> buf_str q = buf_str (c_input c) @ fst (drain (c_reads c))"
  using assms
proof (induction l cbs c rule: read_loop.induct)
  case (1 l cbs c)
  let ?q = "buf_makeRoom0 (c_input c)"
  from 1(4) obtain ch where ch: "c_chan c = Some ch" "ch_fd ch \<ge> 0" by (auto dest: chan_open_Some)
  have room: "buf_ok ?q" "buf_str ?q = buf_str (c_input c)" "0 < buf_space ?q"
    using 1(5) buf_makeRoom0_ok [of "c_input c"] by (auto simp: input_ok_def)
  note unf = read_loop.simps [of l cbs c] 1(3) ch(1)
  show ?case
  proof (cases "c_reads c")
    case Nil
    then have eq: "c\<lparr>c_input := ?q, c_reads := []\<rparr> = c\<lparr>c_input := ?q\<rparr>"
      by (cases c) simp
    have "read_loop l cbs c = read_again l cbs (c\<lparr>c_input := ?q, c_reads := []\<rparr>)"
      unfolding eq using Nil ch(2) by (simp add: unf Let_def)
    then show ?thesis
      using room Nil by (intro exI [of _ ?q]) simp
  next
    case (Cons r rs)
    show ?thesis
    proof (cases r)
      case (RData d)
      define n where "n = min (length d) (min (buf_space ?q) 0x7ffff000)"
      from 1(6) Cons RData room(3) have d: "d \<noteq> []" "ends_again rs" "n \<noteq> 0" "n \<le> length d"
        by (auto simp: n_def)
      define c2 where "c2 = c\<lparr>c_input := read_into (take n d) ?q,
        c_reads := (if n < length d then RData (drop n d) # rs else rs)\<rparr>"
      have "length (take n d) \<le> buf_space ?q" by (simp add: n_def)
      note ri = read_into_ok [OF room(1) this]
      have "read_loop l cbs c = read_loop l cbs c2"
        unfolding c2_def using d(3) Cons RData ch(2) by (simp add: unf Let_def flip: n_def)
      moreover have dr: "ends_again (c_reads c2)" "take n d @ fst (drain (c_reads c2)) = fst (drain (c_reads c))"
        "snd (drain (c_reads c2)) = snd (drain (c_reads c))"
        using d(2,4) Cons RData by (auto simp: c2_def)
      moreover have "\<exists>q. read_loop l cbs c2 = read_again l cbs (c2\<lparr>c_input := q, c_reads := snd (drain (c_reads c2))\<rparr>) \<and>
        buf_ok q \<and> bf_exp q = bf_exp (c_input c2) \<and> buf_str q = buf_str (c_input c2) @ fst (drain (c_reads c2))"
        using 1(1) [of "c\<lparr>c_input := ?q\<rparr>" ch r rs d n] 1(3-5) ch d(3) Cons RData dr(1) ri(1)
        by (simp add: c2_def [symmetric] n_def [symmetric])
          (simp add: c2_def input_ok_def chan_open_def)
      ultimately show ?thesis using ri(2) room(2) by (auto simp: c2_def)
    next
      case RIntr
      with 1(2) [of "c\<lparr>c_input := ?q\<rparr>" ch r rs] 1(3-6) ch Cons room show ?thesis
        by (simp add: unf Let_def input_ok_def chan_open_def)
    next
      case RAgain
      with Cons room ch(2) show ?thesis by (intro exI [of _ ?q]) (simp add: unf Let_def)
    next
      case RErr
      with Cons 1(6) show ?thesis by simp
    qed
  qed
qed

section \<open>The idle list\<close>

definition idles_ok :: "conn \<Rightarrow> bool" where
  "idles_ok c \<longleftrightarrow> set (c_idleIds c) \<subseteq> set (c_idleNodes c)"

lemma update_idles_ok:
  "set is \<subseteq> set (c_idleNodes c) \<Longrightarrow> update_idles is c = Some (eff (map UpdateIdle is) c)"
  by (induction "is" arbitrary: c) (auto simp: eff_def)

section \<open>Message callbacks\<close>

locale msg_user =
  fixes cb :: "lib \<Rightarrow> bytes \<Rightarrow> conn \<Rightarrow> conn option"
    and good :: "codec \<Rightarrow> conn \<Rightarrow> bool"
    and seen :: "conn \<Rightarrow> 'o list"
    and out :: "codec \<Rightarrow> bytes \<Rightarrow> 'o list"
  assumes cb_ok: "good k c \<Longrightarrow> \<exists>c'. cb l w c = Some c' \<and> good k c' \<and>
      c_input c' = c_input c \<and> seen c' = seen c @ out k w"
    and good_up: "good k c \<Longrightarrow> c_codec c = Some k \<and> c_state c = Connected \<and> chan_open c \<and>
      c_readcb c \<and> idles_ok c"
    and good_input: "good k (c\<lparr>c_input := q, c_reads := rs, c_effects := es\<rparr>) = good k c"
    and seen_input: "seen (c\<lparr>c_input := q, c_reads := rs, c_effects := es\<rparr>) = seen c"
begin

lemma on_msg_frames:
  "frames (codec_dec k) s ws rest \<Longrightarrow> s = buf_str (c_input c) \<Longrightarrow> good k c \<Longrightarrow> input_ok c \<Longrightarrow> length s < 2 ^ 31 \<Longrightarrow>
   \<exists>c'. on_msg cb l c = Some c' \<and> good k c' \<and> input_ok c' \<and> buf_str (c_input c') = rest \<and>
     seen c' = seen c @ concat (map (out k) ws)"
proof (induction arbitrary: c rule: frames.induct)
  case (frames_stop s)
  then show ?case by (auto simp: on_msg.simps [of cb l c] good_up)
next
  case (frames_msg s n w ws rest)
  obtain c1 where c1: "cb l w c = Some c1" "good k c1" "c_input c1 = c_input c" "seen c1 = seen c @ out k w"
    using cb_ok [OF frames_msg.prems(2)] by blast
  let ?c = "c1\<lparr>c_input := buf_consume n (c_input c1)\<rparr>"
  have "n \<le> length (buf_str (c_input c))"
    using frames_msg.prems(1,4) frames_msg.hyps(1) codec_dec_bound [of s k n w] by simp
  then have cons: "buf_ok (c_input ?c)" "buf_str (c_input ?c) = drop n s" "0 < bf_exp (c_input ?c)"
    using buf_consume_ok frames_msg.prems(1,3) by (auto simp: c1(3) input_ok_def)
  have same: "good k ?c = good k c1" "seen ?c = seen c1"
    using good_input [where c = c1 and q = "c_input ?c" and rs = "c_reads c1" and es = "c_effects c1"]
      seen_input [where c = c1 and q = "c_input ?c" and rs = "c_reads c1" and es = "c_effects c1"] by simp_all
  have "on_msg cb l c = on_msg cb l ?c"
    using frames_msg.hyps(1) frames_msg.prems(1,2) c1(1)
    by (subst on_msg.simps) (simp add: good_up)
  moreover obtain c' where "on_msg cb l ?c = Some c'" "good k c'" "input_ok c'"
    "buf_str (c_input c') = rest" "seen c' = seen ?c @ concat (map (out k) ws)"
    using frames_msg.IH [of ?c] cons c1(2) same(1) frames_msg.prems(4)
      order_le_less_trans [of "length (drop n s)" "length s" "2 ^ 31"]
    by (auto simp: input_ok_def)
  ultimately show ?case using c1(4) same(2) by auto
qed

text \<open>One read event.\<close>

lemma handle_read_frames:
  assumes "cb_read cbs = on_msg cb" and "good k c" and "input_ok c" and "ends_again rs"
    and "frames (codec_dec k) (buf_str (c_input c) @ fst (drain rs)) ws rest"
    and "length (buf_str (c_input c) @ fst (drain rs)) < 2 ^ 31"
  shows "\<exists>c'. handle_read l cbs (c\<lparr>c_reads := rs\<rparr>) = Some c' \<and> good k c' \<and> input_ok c' \<and>
    buf_str (c_input c') = rest \<and> seen c' = seen c @ concat (map (out k) ws)"
proof -
  let ?c = "c\<lparr>c_reads := rs\<rparr>"
  have up: "c_state ?c = Connected" "chan_open ?c" "input_ok ?c" "ends_again (c_reads ?c)"
    using good_up [OF assms(2)] assms(3,4) by (simp_all add: chan_open_def input_ok_def)
  obtain q where q: "read_loop l cbs ?c = read_again l cbs (?c\<lparr>c_input := q, c_reads := snd (drain rs)\<rparr>)"
    "buf_ok q" "bf_exp q = bf_exp (c_input c)" "buf_str q = buf_str (c_input c) @ fst (drain rs)"
    using read_loop_drain [OF up, of l cbs] by auto
  define c1 where "c1 = eff (map UpdateIdle (c_idleIds c)) (c\<lparr>c_input := q, c_reads := snd (drain rs)\<rparr>)"
  have c1: "c1 = c\<lparr>c_input := q, c_reads := snd (drain rs), c_effects := c_effects c1\<rparr>"
    by (simp add: c1_def eff_def)
  have same: "good k c1" "seen c1 = seen c" "c_input c1 = q"
    by (subst c1, simp add: good_input assms(2) seen_input)+
  have ok1: "input_ok c1" using q(2,3) assms(3) same(3) by (simp add: input_ok_def)
  have "handle_read l cbs ?c = (if buf_str q \<noteq> [] then on_msg cb l c1 else Some c1)"
    using q(1,2) up(1) good_up [OF assms(2)] same(3) assms(1)
    by (simp add: handle_read_def read_again_def update_idles_ok idles_ok_def c1_def buf_size_str)
  moreover have "\<exists>c'. on_msg cb l c1 = Some c' \<and> good k c' \<and> input_ok c' \<and> buf_str (c_input c') = rest \<and>
      seen c' = seen c1 @ concat (map (out k) ws)"
    using assms(5,6) same(1,3) ok1 q(4) by (intro on_msg_frames) auto
  moreover have "ws = [] \<and> rest = []" if "buf_str q = []"
    using frames_det [of "codec_dec k" "[]" "[]" "[]" ws rest] frames_stop [of "codec_dec k" "[]"] assms(5) q(4) that by simp
  ultimately show ?thesis
    using same ok1 by (cases "buf_str q = []") auto
qed

end

section \<open>A sequence of read events\<close>

primrec read_events :: "lib \<Rightarrow> cbs \<Rightarrow> rd list list \<Rightarrow> conn \<Rightarrow> conn option" where
  "read_events l cbs [] c = Some c"
| "read_events l cbs (rs # rss) c =
     do { c \<leftarrow> handle_read l cbs (c\<lparr>c_reads := rs\<rparr>); read_events l cbs rss c }"

context msg_user
begin

lemma read_events_feeds:
  "feeds (codec_dec k) r (map (\<lambda>rs. fst (drain rs)) rss) ws rest \<Longrightarrow> cb_read cbs = on_msg cb \<Longrightarrow>
   good k c \<Longrightarrow> input_ok c \<Longrightarrow> r = buf_str (c_input c) \<Longrightarrow> \<forall>rs \<in> set rss. ends_again rs \<Longrightarrow>
   length r + length (concat (map (\<lambda>rs. fst (drain rs)) rss)) < 2 ^ 31 \<Longrightarrow>
   \<exists>c'. read_events l cbs rss c = Some c' \<and> good k c' \<and> input_ok c' \<and> buf_str (c_input c') = rest \<and>
     seen c' = seen c @ concat (map (out k) ws)"
proof (induction rss arbitrary: r ws c)
  case Nil
  then show ?case by (auto simp: feeds_Nil_iff)
next
  case (Cons rs rss)
  from Cons.prems(1) obtain us r1 vs where u: "ws = us @ vs" "frames (codec_dec k) (r @ fst (drain rs)) us r1"
    "feeds (codec_dec k) r1 (map (\<lambda>rs. fst (drain rs)) rss) vs rest"
    by (auto simp: feeds_Cons_iff)
  obtain c1 where c1: "handle_read l cbs (c\<lparr>c_reads := rs\<rparr>) = Some c1" "good k c1" "input_ok c1"
    "buf_str (c_input c1) = r1" "seen c1 = seen c @ concat (map (out k) us)"
    using handle_read_frames [OF Cons.prems(2-4), of rs us r1 l] Cons.prems(5-7) u(2) by auto
  have "length r1 \<le> length (r @ fst (drain rs))"
    using frames_length [OF u(2)] .
  then have "length r1 + length (concat (map (\<lambda>rs. fst (drain rs)) rss)) < 2 ^ 31"
    using Cons.prems(7) by simp
  then obtain c' where "read_events l cbs rss c1 = Some c'" "good k c'" "input_ok c'"
    "buf_str (c_input c') = rest" "seen c' = seen c1 @ concat (map (out k) vs)"
    using Cons.IH [OF u(3) Cons.prems(2) c1(2,3) c1(4) [symmetric]] Cons.prems(6) by auto
  with c1 u(1) show ?case by auto
qed

end

section \<open>A connection that echoes messages\<close>

text \<open>\<open>con->sendMsg(msg)\<close>, the message callback of \<open>examples/codec-svr.cc\<close>.\<close>

definition echo_msg :: "lib \<Rightarrow> bytes \<Rightarrow> conn \<Rightarrow> conn option" where
  "echo_msg l msg c = sendMsg l msg c"

definition can_send :: "codec \<Rightarrow> conn \<Rightarrow> bool" where
  "can_send k c \<longleftrightarrow> chan_open c \<and> WReset \<notin> set (c_writes c) \<and> buf_ok (c_output c) \<and>
     c_codec c = Some k \<and> c_state c = Connected \<and> c_readcb c \<and> idles_ok c"

interpretation echo: msg_user echo_msg can_send out_stream codec_enc
proof unfold_locales
  fix k c l w
  assume "can_send k c"
  then obtain c' where c': "sendMsg l w c = Some c'" "out_stream c' = out_stream c @ codec_enc k w"
    "buf_ok (c_output c')" "io_only c (c'\<lparr>c_output := c_output c\<rparr>)" "set (c_writes c') \<subseteq> set (c_writes c)"
    unfolding can_send_def using sendMsg_sent [of c k l w] by metis
  note D = io_onlyD [OF c'(4), simplified]
  have "chan_open c' = chan_open c"
    using chan_open_io [OF c'(4)] by (simp add: chan_open_def)
  with c' D \<open>can_send k c\<close>
  show "\<exists>c'. echo_msg l w c = Some c' \<and> can_send k c' \<and> c_input c' = c_input c \<and>
      out_stream c' = out_stream c @ codec_enc k w"
    by (intro exI [of _ c']) (auto simp: echo_msg_def can_send_def idles_ok_def)
qed (auto simp: can_send_def out_stream_def chan_open_def idles_ok_def)

definition echo_cbs :: cbs where
  "echo_cbs = quiet_cbs\<lparr>cb_read := on_msg echo_msg\<rparr>"

text \<open>
  C3: A server that answers each message with itself, as \<open>examples/codec-svr.cc\<close> does, on a
  connection with any of the three codecs: however the peer's encoded messages are cut into
  read events, and each event into \<open>read\<close> results with interruptions in between, the server
  hands every message to the callback once and in order. The bytes it has sent or queued
  afterwards are the encodings of exactly these messages, and its input buffer is empty.
\<close>

theorem codec_server_echoes:
  assumes "can_send k c" and "input_ok c" and "buf_str (c_input c) = []"
    and "\<forall>w \<in> set ws. codec_valid k w" and "length (concat (map (codec_enc k) ws)) < 2 ^ 31"
    and "\<forall>rs \<in> set rss. ends_again rs"
    and "concat (map (\<lambda>rs. fst (drain rs)) rss) = concat (map (codec_enc k) ws)"
  shows "\<exists>c'. read_events l echo_cbs rss c = Some c' \<and> buf_str (c_input c') = [] \<and>
    out_stream c' = out_stream c @ concat (map (codec_enc k) ws)"
  using echo.read_events_feeds [OF codec_feeds [OF assms(4,5,7)], of echo_cbs c l] assms
  by (auto simp: echo_cbs_def simp del: codec_enc_simps)

theorem codec_server_echoes_witness:
  "\<exists>c'. read_events (lib_at 1 echo_cbs) echo_cbs
      [[RData ''hi'', RIntr, RData [CR], RAgain], [RIntr, RData [LF]], [RData (''x'' @ CRLF)]]
      (conn_up LineCodec [WTake 3]) = Some c' \<and> buf_str (c_input c') = [] \<and>
    out_stream c' = ''hi'' @ CRLF @ ''x'' @ CRLF"
  using codec_server_echoes [of LineCodec "conn_up LineCodec [WTake 3]" "[''hi'', ''x'']"
      "[[RData ''hi'', RIntr, RData [CR], RAgain], [RIntr, RData [LF]], [RData (''x'' @ CRLF)]]" "lib_at 1 echo_cbs"]
  by (simp add: can_send_def input_ok_def idles_ok_def out_stream_def buf_new_def [THEN arg_cong, of bf_exp])

end
