(* ===== verification/Handy_Conn_Life.thy ===== *)
theory Handy_Conn_Life
  imports Handy_Conn_Recv
begin

text \<open>
  The life of a \<open>TcpConn\<close>: connect or attach, handshake, reads and writes, closing, failing and
  reconnecting, driven by the events of its loop. Callbacks are held to a contract, \<open>polite\<close>:
  they may send and record what they like, but they do not close or connect the connection
  from inside the call. Under it the connection never fails an assertion, never uses a channel
  that is gone and never leaks a descriptor.
\<close>

section \<open>Descriptors\<close>

fun fd_step :: "int list \<Rightarrow> effect \<Rightarrow> int list" where
  "fd_step fds (AddChannel i fd ev) = fds @ [fd]"
| "fd_step fds (CloseFd fd) = remove1 fd fds"
| "fd_step fds _ = fds"

definition open_fds :: "conn \<Rightarrow> int list" where
  "open_fds c = foldl fd_step [] (c_effects c)"

lemma open_fds_eff [simp]: "open_fds (eff es c) = foldl fd_step (open_fds c) es"
  by (simp add: open_fds_def eff_def)

lemma open_fds_upd [simp]:
  "open_fds (c\<lparr>c_state := st\<rparr>) = open_fds c" "open_fds (c\<lparr>c_chan := ch\<rparr>) = open_fds c"
  "open_fds (c\<lparr>c_input := q\<rparr>) = open_fds c" "open_fds (c\<lparr>c_output := q\<rparr>) = open_fds c"
  "open_fds (c\<lparr>c_reads := rs\<rparr>) = open_fds c" "open_fds (c\<lparr>c_writes := ws\<rparr>) = open_fds c"
  "open_fds (c\<lparr>c_polls := ps\<rparr>) = open_fds c" "open_fds (c\<lparr>c_readcb := b\<rparr>) = open_fds c"
  "open_fds (c\<lparr>c_writablecb := b\<rparr>) = open_fds c" "open_fds (c\<lparr>c_statecb := b\<rparr>) = open_fds c"
  "open_fds (c\<lparr>c_reconnecting := b\<rparr>) = open_fds c" "open_fds (c\<lparr>c_idleNodes := is\<rparr>) = open_fds c"
  "open_fds (c\<lparr>c_destPort := p\<rparr>) = open_fds c" "open_fds (c\<lparr>c_connectTimeout := t\<rparr>) = open_fds c"
  "open_fds (c\<lparr>c_timeoutId := tid\<rparr>) = open_fds c" "open_fds (c\<lparr>c_wire := w\<rparr>) = open_fds c"
  by (simp_all add: open_fds_def)

lemma fd_step_idle [simp]: "foldl fd_step fds (map UpdateIdle is) = fds"
  "foldl fd_step fds (map UnregisterIdle is) = fds"
  by (induction "is") simp_all

section \<open>The contract of a callback\<close>

definition same_life :: "conn \<Rightarrow> conn \<Rightarrow> bool" where
  "same_life c c' \<longleftrightarrow> chan_key c' = chan_key c \<and> c_state c' = c_state c \<and> c_idleIds c' = c_idleIds c \<and>
     c_idleNodes c' = c_idleNodes c \<and> c_readcb c' = c_readcb c \<and> c_writablecb c' = c_writablecb c \<and>
     c_statecb c' = c_statecb c \<and> c_reconnectInterval c' = c_reconnectInterval c \<and>
     c_exited c' = c_exited c \<and> c_destPort c' = c_destPort c \<and> c_reconnecting c' = c_reconnecting c \<and>
     open_fds c' = open_fds c \<and> c_reads c' = c_reads c \<and> c_polls c' = c_polls c"

definition bufs_ok :: "conn \<Rightarrow> bool" where
  "bufs_ok c \<longleftrightarrow> input_ok c \<and> buf_ok (c_output c)"

definition polite_cb :: "(lib \<Rightarrow> conn \<Rightarrow> conn option) \<Rightarrow> bool" where
  "polite_cb cb \<longleftrightarrow> (\<forall>l c. bufs_ok c \<longrightarrow> (\<exists>c'. cb l c = Some c' \<and> same_life c c' \<and> bufs_ok c'))"

definition polite :: "cbs \<Rightarrow> bool" where
  "polite cbs \<longleftrightarrow> polite_cb (cb_read cbs) \<and> polite_cb (cb_writable cbs) \<and> polite_cb (cb_state cbs)"

lemma same_life_refl [simp]: "same_life c c"
  by (simp add: same_life_def)

lemma politeD:
  assumes "polite cbs" and "bufs_ok c"
  shows "\<exists>c'. (if b then cb_read cbs l c else Some c) = Some c' \<and> same_life c c' \<and> bufs_ok c'"
    and "\<exists>c'. (if b then cb_writable cbs l c else Some c) = Some c' \<and> same_life c c' \<and> bufs_ok c'"
    and "\<exists>c'. (if b then cb_state cbs l c else Some c) = Some c' \<and> same_life c c' \<and> bufs_ok c'"
  using assms by (auto simp: polite_def polite_cb_def)

section \<open>The states of a connection\<close>

text \<open>A channel is there, though its descriptor may just have been closed.\<close>

definition fds_match :: "conn \<Rightarrow> bool" where
  "fds_match c \<longleftrightarrow> open_fds c = (case chan_key c of None \<Rightarrow> [] | Some (i, fd) \<Rightarrow> if fd < 0 then [] else [fd])"

definition idles_live :: "conn \<Rightarrow> bool" where
  "idles_live c \<longleftrightarrow> distinct (c_idleIds c) \<and> idles_ok c"

definition core :: "conn \<Rightarrow> bool" where
  "core c \<longleftrightarrow> bufs_ok c \<and> fds_match c \<and> idles_live c \<and> word_of_int (c_destPort c) \<noteq> (0 :: 16 word) \<and>
     \<not> c_reconnecting c \<and> chan_key c \<noteq> None"

definition up :: "conn \<Rightarrow> bool" where
  "up c \<longleftrightarrow> core c \<and> chan_open c \<and> (c_state c = Handshaking \<or> c_state c = Connected)"

definition down :: "conn \<Rightarrow> bool" where
  "down c \<longleftrightarrow> bufs_ok c \<and> c_chan c = None \<and> open_fds c = [] \<and> (c_state c = Closed \<or> c_state c = Failed) \<and>
     word_of_int (c_destPort c) \<noteq> (0 :: 16 word) \<and> (c_reconnecting c \<longrightarrow> idles_live c)"

definition fresh :: "conn \<Rightarrow> bool" where
  "fresh c \<longleftrightarrow> bufs_ok c \<and> c_chan c = None \<and> open_fds c = [] \<and> c_state c = Invalid \<and> idles_live c \<and>
     c_destPort c = - 1 \<and> \<not> c_reconnecting c"

definition conn_inv :: "conn \<Rightarrow> bool" where
  "conn_inv c \<longleftrightarrow> up c \<or> down c \<or> fresh c"

lemma core_same: "core c \<Longrightarrow> same_life c c' \<Longrightarrow> bufs_ok c' \<Longrightarrow> core c'"
  by (simp add: core_def same_life_def fds_match_def idles_live_def idles_ok_def)

lemma core_eff [simp]: "\<forall>fds. foldl fd_step fds es = fds \<Longrightarrow> core (eff es c) = core c"
  by (simp add: core_def bufs_ok_def input_ok_def fds_match_def chan_key_def idles_live_def idles_ok_def)

lemma core_upd [simp]:
  "core (c\<lparr>c_state := st\<rparr>) = core c" "core (c\<lparr>c_polls := ps\<rparr>) = core c" "core (c\<lparr>c_reads := rs\<rparr>) = core c"
  "core (c\<lparr>c_writes := ws\<rparr>) = core c"
  by (simp_all add: core_def bufs_ok_def input_ok_def fds_match_def chan_key_def idles_live_def idles_ok_def)

lemma unregister_idles_ok:
  "distinct is \<Longrightarrow> set is \<subseteq> set (c_idleNodes c) \<Longrightarrow>
   unregister_idles is c =
     Some (eff (map UnregisterIdle is) (c\<lparr>c_idleNodes := fold remove1 is (c_idleNodes c)\<rparr>))"
proof (induction "is" arbitrary: c)
  case (Cons i "is")
  have "set is \<subseteq> set (remove1 i (c_idleNodes c))"
    using Cons.prems by (auto intro!: in_set_remove1 [THEN iffD2])
  with Cons show ?case by (simp add: eff_def)
qed (simp add: eff_def)

text \<open>Handlers do nothing once the connection is closed or failed.\<close>

lemma handle_read_closed:
  "c_state c = Closed \<or> c_state c = Failed \<Longrightarrow> handle_read l cbs c = Some c"
  by (auto simp: handle_read_def read_loop.simps)

lemma l_read_closed:
  "0 < d \<Longrightarrow> c_state c = Closed \<or> c_state c = Failed \<Longrightarrow> l_read (lib_at d cbs) c = Some c"
  by (cases d) (auto simp: handle_read_closed)

section \<open>cleanup\<close>

lemma tcp_reconnect_ok:
  assumes "core c" and "c_state c = Closed \<or> c_state c = Failed" and "0 < d \<or> \<not> chan_open c"
  shows "\<exists>c'. tcp_reconnect (lib_at d cbs) c = Some c' \<and> down c' \<and> c_state c' = c_state c \<and> c_reconnecting c'"
proof -
  from assms(1) obtain ch where ch: "c_chan c = Some ch" by (auto simp: core_def chan_key_def)
  show ?thesis
  proof (cases "0 \<le> ch_fd ch")
    case True
    with ch assms(3) have "0 < d" by (simp add: chan_open_def)
    with True ch assms(1,2) show ?thesis
      by (auto simp: tcp_reconnect_def Let_def conn_chan_close_def channel_shut_def l_read_closed
          core_def down_def bufs_ok_def input_ok_def fds_match_def chan_key_def idles_live_def idles_ok_def)
  next
    case False
    with ch assms(1,2) show ?thesis
      by (auto simp: tcp_reconnect_def Let_def conn_chan_close_def
          core_def down_def bufs_ok_def input_ok_def fds_match_def chan_key_def idles_live_def idles_ok_def)
  qed
qed

lemma tcp_drop_ok:
  assumes "core c" and "c_state c = Closed \<or> c_state c = Failed" and "0 < d \<or> \<not> chan_open c"
  shows "\<exists>c1 c'. unregister_idles (c_idleIds c) c = Some c1 \<and> c_chan c1 = c_chan c \<and>
    (case c_chan c of None \<Rightarrow> None
     | Some ch \<Rightarrow> old_chan_close (lib_at d cbs) ch
         (c1\<lparr>c_readcb := False, c_writablecb := False, c_statecb := False, c_chan := None\<rparr>)) = Some c' \<and>
    down c' \<and> c_state c' = c_state c \<and> \<not> c_reconnecting c'"
proof -
  from assms(1) obtain ch where ch: "c_chan c = Some ch" by (auto simp: core_def chan_key_def)
  have un: "unregister_idles (c_idleIds c) c = Some (eff (map UnregisterIdle (c_idleIds c))
      (c\<lparr>c_idleNodes := fold remove1 (c_idleIds c) (c_idleNodes c)\<rparr>))"
    using assms(1) by (intro unregister_idles_ok) (auto simp: core_def idles_live_def idles_ok_def)
  show ?thesis
  proof (cases "0 \<le> ch_fd ch")
    case True
    with ch assms(3) have "0 < d" by (simp add: chan_open_def)
    with True ch un assms(1,2) show ?thesis
      by (auto simp: old_chan_close_def channel_shut_def l_read_closed
          core_def down_def bufs_ok_def input_ok_def fds_match_def chan_key_def idles_live_def idles_ok_def)
  next
    case False
    with ch un assms(1,2) show ?thesis
      by (auto simp: old_chan_close_def
          core_def down_def bufs_ok_def input_ok_def fds_match_def chan_key_def idles_live_def idles_ok_def)
  qed
qed

lemma tcp_cleanup_ok:
  assumes "polite cbs" and "core c" and "0 < d \<or> \<not> chan_open c"
  shows "\<exists>c'. tcp_cleanup (lib_at d cbs) cbs c = Some c' \<and> down c' \<and>
    c_state c' = (if c_state c = Handshaking then Failed else Closed) \<and>
    c_reconnecting c' = (c_reconnectInterval c \<ge> 0 \<and> \<not> c_exited c)"
proof -
  let ?l = "lib_at d cbs"
  have "bufs_ok c" using assms(2) by (simp add: core_def)
  from politeD(1) [OF assms(1) this] obtain c1 where
    c1: "(if c_readcb c \<and> buf_size (c_input c) \<noteq> 0 then cb_read cbs ?l c else Some c) = Some c1"
      "same_life c c1" "bufs_ok c1" by blast
  define c2 where "c2 = eff [CancelTimer (c_timeoutId (c1\<lparr>c_state := (if c_state c1 = Handshaking then Failed else Closed)\<rparr>))]
    (c1\<lparr>c_state := (if c_state c1 = Handshaking then Failed else Closed)\<rparr>)"
  have c2: "core c2" "bufs_ok c2" "chan_key c2 = chan_key c" "c_statecb c2 = c_statecb c"
    "c_state c2 = (if c_state c = Handshaking then Failed else Closed)"
    "c_reconnectInterval c2 = c_reconnectInterval c" "c_exited c2 = c_exited c"
    using core_same [OF assms(2) c1(2,3)] c1(2,3)
    by (simp_all add: c2_def same_life_def bufs_ok_def input_ok_def chan_key_def)
  from politeD(3) [OF assms(1) c2(2)] obtain c3 where
    c3: "(if c_statecb c2 then cb_state cbs ?l c2 else Some c2) = Some c3" "same_life c2 c3" "bufs_ok c3"
    by blast
  have core3: "core c3" using core_same [OF c2(1) c3(2,3)] .
  have st: "c_state c3 = Closed \<or> c_state c3 = Failed" "0 < d \<or> \<not> chan_open c3"
    using c3(2) c2(3,5) assms(3) by (auto simp: same_life_def chan_open_key)
  have eq: "tcp_cleanup ?l cbs c =
    (if c_reconnectInterval c \<ge> 0 \<and> \<not> c_exited c then tcp_reconnect ?l c3
     else do {
       c \<leftarrow> unregister_idles (c_idleIds c3) c3;
       (case c_chan c of None \<Rightarrow> Some (c\<lparr>c_readcb := False, c_writablecb := False, c_statecb := False, c_chan := None\<rparr>)
        | Some ch \<Rightarrow> old_chan_close ?l ch (c\<lparr>c_readcb := False, c_writablecb := False, c_statecb := False, c_chan := None\<rparr>))
     })"
  proof -
    have "c_reconnectInterval c3 = c_reconnectInterval c" "c_exited c3 = c_exited c"
      using c3(2) c2(6,7) by (simp_all add: same_life_def)
    then show ?thesis
      unfolding tcp_cleanup_def c1(1)
      by (simp only: Option.bind.simps Let_def c2_def [symmetric] c3(1))
  qed
  show ?thesis
  proof (cases "c_reconnectInterval c \<ge> 0 \<and> \<not> c_exited c")
    case True
    with eq tcp_reconnect_ok [OF core3 st] c3(2) c2(5) show ?thesis by (auto simp: same_life_def)
  next
    case False
    obtain c4 c' where "unregister_idles (c_idleIds c3) c3 = Some c4" "c_chan c4 = c_chan c3"
      "(case c_chan c3 of None \<Rightarrow> None
        | Some ch \<Rightarrow> old_chan_close ?l ch
         (c4\<lparr>c_readcb := False, c_writablecb := False, c_statecb := False, c_chan := None\<rparr>)) = Some c'"
      "down c'" "c_state c' = c_state c3" "\<not> c_reconnecting c'"
      using tcp_drop_ok [OF core3 st, of cbs] by blast
    with False eq c3(2) c2(5) show ?thesis
      by (auto simp: same_life_def split: option.splits)
  qed
qed

lemma cleanup_inv:
  assumes "polite cbs" and "core c" and "0 < d \<or> \<not> chan_open c"
  shows "\<exists>c'. tcp_cleanup (lib_at d cbs) cbs c = Some c' \<and> conn_inv c'"
  using tcp_cleanup_ok [OF assms] by (auto simp: conn_inv_def)

section \<open>The handlers\<close>

lemma handle_handshake_ok:
  assumes "polite cbs" and "core c" and "c_state c = Handshaking" and "0 < d \<or> \<not> chan_open c"
  shows "\<exists>r c'. handle_handshake (lib_at d cbs) cbs c = Some (r, c') \<and>
    (r = 0 \<and> chan_open c \<and> up c' \<and> c_state c' = Connected \<or> r \<noteq> 0 \<and> down c' \<and> c_state c' = Failed)"
proof -
  from assms(2) obtain ch where ch: "c_chan c = Some ch" by (auto simp: core_def chan_key_def)
  let ?c = "c\<lparr>c_polls := (if ch_fd ch \<ge> 0 then tl (c_polls c) else c_polls c)\<rparr>"
  show ?thesis
  proof (cases "ch_fd ch \<ge> 0 \<and> c_polls c \<noteq> [] \<and> hd (c_polls c)")
    case True
    define c1 where "c1 = eff [UpdateChannel (ch_id ch) (ch_events (channel_enableReadWrite True False ch))]
      (?c\<lparr>c_chan := Some (channel_enableReadWrite True False ch)\<rparr>)"
    have upd: "conn_update (channel_enableReadWrite True False) ?c = Some c1"
      using True ch by (simp add: conn_update_def channel_update_def c1_def)
    let ?c2 = "c1\<lparr>c_state := Connected\<rparr>"
    have core2: "core ?c2" "chan_open ?c2"
      using assms(2) ch True by (simp_all add: c1_def core_def bufs_ok_def input_ok_def fds_match_def chan_key_def
          idles_live_def idles_ok_def chan_open_def)
    then have "bufs_ok ?c2" by (simp add: core_def)
    from politeD(3) [OF assms(1) this] obtain c3 where
      c3: "(if c_statecb ?c2 then cb_state cbs (lib_at d cbs) ?c2 else Some ?c2) = Some c3"
        "same_life ?c2 c3" "bufs_ok c3" by blast
    have "handle_handshake (lib_at d cbs) cbs c = Some (0, c3)"
      using True assms(3) ch upd c3(1) by (simp add: handle_handshake_def Let_def)
    with core_same [OF core2(1) c3(2,3)] c3(2) core2(2) True ch show ?thesis
      by (auto simp: up_def same_life_def chan_open_key chan_key_def)
  next
    case False
    obtain c' where "tcp_cleanup (lib_at d cbs) cbs ?c = Some c'" "down c'" "c_state c' = Failed"
      using tcp_cleanup_ok [OF assms(1), of ?c d] assms(2-4) by (auto simp: chan_open_def)
    with False assms(3) ch show ?thesis by (auto simp: handle_handshake_def Let_def)
  qed
qed

lemma read_again_ok:
  assumes "polite cbs" and "up c"
  shows "\<exists>c'. read_again l cbs c = Some c' \<and> up c'"
proof -
  have idle: "update_idles (c_idleIds c) c = Some (eff (map UpdateIdle (c_idleIds c)) c)"
    using assms(2) by (intro update_idles_ok) (simp add: up_def core_def idles_live_def idles_ok_def)
  let ?c = "eff (map UpdateIdle (c_idleIds c)) c"
  have "bufs_ok ?c" using assms(2) by (simp add: up_def core_def bufs_ok_def input_ok_def)
  from politeD(1) [OF assms(1) this] obtain c' where
    c': "(if c_readcb ?c \<and> buf_size (c_input ?c) \<noteq> 0 then cb_read cbs l ?c else Some ?c) = Some c'"
      "same_life ?c c'" "bufs_ok c'" by blast
  have "core ?c" using assms(2) by (simp add: up_def)
  from core_same [OF this c'(2,3)] c'(2) assms(2) have "up c'"
    by (auto simp: up_def same_life_def chan_open_key chan_key_def)
  with idle c'(1) show ?thesis by (simp add: read_again_def)
qed

lemma core_input:
  "core c \<Longrightarrow> buf_ok q \<Longrightarrow> bf_exp q = bf_exp (c_input c) \<Longrightarrow> core (c\<lparr>c_input := q, c_reads := rs\<rparr>)"
  by (simp add: core_def bufs_ok_def input_ok_def fds_match_def chan_key_def idles_live_def idles_ok_def)

lemma read_loop_ok:
  "polite cbs \<Longrightarrow> l = lib_at d cbs \<Longrightarrow> core c \<Longrightarrow> c_state c = Connected \<Longrightarrow> 0 < d \<or> \<not> chan_open c \<Longrightarrow>
   \<exists>c'. read_loop l cbs c = Some c' \<and> conn_inv c'"
proof (induction l cbs c rule: read_loop.induct)
  case (1 l cbs c)
  let ?q = "buf_makeRoom0 (c_input c)"
  from 1(5) obtain ch where ch: "c_chan c = Some ch" by (auto simp: core_def chan_key_def)
  have bufs: "input_ok c" using 1(5) by (simp add: core_def bufs_ok_def)
  then have q: "buf_ok ?q" "bf_exp ?q = bf_exp (c_input c)"
    using buf_makeRoom0_ok [of "c_input c"] by (auto simp: input_ok_def)
  have corei: "core (c\<lparr>c_input := ?q, c_reads := rs\<rparr>)" for rs
    using core_input [OF 1(5) q] .
  have core0: "core (c\<lparr>c_input := ?q\<rparr>)" using corei [of "c_reads c"] by simp
  have fin: "\<exists>c'. tcp_cleanup l cbs (c\<lparr>c_input := ?q, c_reads := rs\<rparr>) = Some c' \<and> conn_inv c'" for rs
    unfolding 1(4) using 1(3,7) by (intro cleanup_inv corei) (auto simp: chan_open_def)
  note unf = read_loop.simps [of l cbs c] read_loop.simps [of "lib_at d cbs" cbs c] 1(6) ch
  show ?case
  proof (cases "ch_fd ch < 0")
    case True
    with fin [of "c_reads c"] show ?thesis by (simp add: unf)
  next
    case nonneg: False
    have again: "\<exists>c'. read_again l cbs (c\<lparr>c_input := ?q, c_reads := rs\<rparr>) = Some c' \<and> conn_inv c'" for rs
      using read_again_ok [OF 1(3), of "c\<lparr>c_input := ?q, c_reads := rs\<rparr>" l] corei [of rs] nonneg ch 1(6)
      by (auto simp: up_def chan_open_def conn_inv_def)
    have again0: "\<exists>c'. read_again l cbs (c\<lparr>c_input := ?q\<rparr>) = Some c' \<and> conn_inv c'"
      using again [of "c_reads c"] by simp
    show ?thesis
    proof (cases "c_reads c")
      case Nil
      with again0 nonneg show ?thesis by (simp add: unf Let_def)
    next
      case (Cons r rs)
      show ?thesis
      proof (cases r)
        case (RData d')
        define n where "n = min (length d') (min (buf_space ?q) 0x7ffff000)"
        show ?thesis
        proof (cases "n = 0")
          case True
          with fin [of rs] nonneg Cons RData show ?thesis by (simp add: unf Let_def flip: n_def)
        next
          case False
          have "length (take n d') \<le> buf_space ?q" by (simp add: n_def)
          note ri = read_into_ok [OF q(1) this]
          show ?thesis
            using 1(1) [of "c\<lparr>c_input := ?q\<rparr>" ch r rs d' n] 1(3-7) ch False nonneg Cons RData
              core_input [OF 1(5) ri(1)]
            by (cases "n < length d'") (simp_all add: unf Let_def chan_open_def flip: n_def)
        qed
      next
        case RIntr
        with 1(2) [of "c\<lparr>c_input := ?q\<rparr>" ch r rs] 1(3-7) ch Cons nonneg corei show ?thesis
          by (simp add: unf Let_def chan_open_def)
      next
        case RAgain
        with again [of rs] nonneg Cons show ?thesis by (simp add: unf Let_def)
      next
        case RErr
        with fin [of rs] nonneg Cons show ?thesis by (simp add: unf Let_def)
      qed
    qed
  qed
qed

lemma handle_read_ok:
  assumes "polite cbs" and "core c" and "c_state c = Handshaking \<or> c_state c = Connected" and "0 < d \<or> \<not> chan_open c"
  shows "\<exists>c'. handle_read (lib_at d cbs) cbs c = Some c' \<and> conn_inv c'"
proof (cases "c_state c = Handshaking")
  case True
  obtain r c1 where h: "handle_handshake (lib_at d cbs) cbs c = Some (r, c1)"
    "r = 0 \<and> chan_open c \<and> up c1 \<and> c_state c1 = Connected \<or> r \<noteq> 0 \<and> down c1 \<and> c_state c1 = Failed"
    using handle_handshake_ok [OF assms(1,2) True assms(4)] by blast
  show ?thesis
  proof (cases "r = 0")
    case r: True
    with h(2) assms(4) have "up c1" "c_state c1 = Connected" "0 < d" by auto
    then show ?thesis
      using read_loop_ok [OF assms(1) refl, of c1 d] h(1) r True by (simp add: handle_read_def up_def)
  next
    case False
    with h True show ?thesis by (auto simp: handle_read_def conn_inv_def)
  qed
next
  case False
  with assms read_loop_ok [OF assms(1) refl assms(2), of d] show ?thesis by (simp add: handle_read_def)
qed

text \<open>Writing changes no descriptor.\<close>

lemma conn_update_fds: "conn_update f c = Some c' \<Longrightarrow> open_fds c' = open_fds c"
  by (auto simp: conn_update_def channel_update_def split: option.splits if_splits)

lemma isend_loop_fds: "isend_loop buf ws s c = Some (n, c') \<Longrightarrow> open_fds c' = open_fds c"
proof (induction buf ws s c rule: isend_loop.induct)
  case (1 buf ws sended c)
  from 1(3) show ?case
    by (simp add: isend_loop.simps [of buf ws] Let_def
        split: option.splits if_splits list.splits wr.splits bind_splits)
      (auto dest: 1(1) [rotated -1] 1(2) [rotated -1] conn_update_fds)
qed

lemma core_io:
  assumes "core c" and "io_only c c'" and "open_fds c' = open_fds c"
  shows "core c'" and "c_state c' = c_state c" and "chan_open c' = chan_open c"
    and "c_output c' = c_output c" and "c_writablecb c' = c_writablecb c"
  using assms io_onlyD [OF assms(2)]
  by (simp_all add: core_def bufs_ok_def input_ok_def fds_match_def idles_live_def idles_ok_def chan_open_io)

lemma isend_core:
  assumes "core c"
  obtains n c' where "isend buf c = Some (n, c')" "core c'" "c_state c' = c_state c"
    "chan_open c' = chan_open c" "c_output c' = c_output c" "c_writablecb c' = c_writablecb c"
    "n \<noteq> - 1 \<Longrightarrow> 0 \<le> n \<and> nat n \<le> length buf"
proof -
  from assms have "c_chan c \<noteq> None" by (auto simp: core_def chan_key_def)
  from isend_ok [OF this, of buf] obtain n c' where
    n: "isend buf c = Some (n, c')" "sent_ok buf 0 (c_writes c) c n c'" by blast
  have io: "io_only c c'" using n(2) by (simp add: sent_ok_def)
  have "open_fds c' = open_fds c"
    using n(1) by (intro isend_loop_fds) (simp add: isend_def)
  note C = core_io [OF assms io this]
  show thesis
    using n(2) by (intro that [OF n(1) C]) (auto simp: sent_ok_def)
qed

lemma core_output: "core c \<Longrightarrow> buf_ok q \<Longrightarrow> core (c\<lparr>c_output := q\<rparr>)"
  by (simp add: core_def bufs_ok_def input_ok_def fds_match_def chan_key_def idles_live_def idles_ok_def)

lemma up_output: "up c \<Longrightarrow> buf_ok q \<Longrightarrow> up (c\<lparr>c_output := q\<rparr>)"
  by (simp add: up_def core_output chan_open_def)

lemma up_bufs: "up c \<Longrightarrow> bufs_ok c \<and> buf_ok (c_output c) \<and> input_ok c"
  by (simp add: up_def core_def bufs_ok_def)

lemma up_same: "up c \<Longrightarrow> same_life c c' \<Longrightarrow> bufs_ok c' \<Longrightarrow> up c'"
  using core_same [of c c'] by (auto simp: up_def same_life_def chan_open_key)

lemma up_chan: "up c \<Longrightarrow> \<exists>ch. c_chan c = Some ch \<and> ch_fd ch \<ge> 0"
  by (auto simp: up_def dest: chan_open_Some)

lemma up_update:
  assumes "up c"
  shows "\<exists>c'. conn_update (channel_enableWrite on) c = Some c' \<and> up c'"
proof -
  obtain ch where ch: "c_chan c = Some ch" "ch_fd ch \<ge> 0" using up_chan [OF assms] by blast
  then show ?thesis using assms
    by (auto simp: conn_update_def channel_update_def up_def core_def bufs_ok_def input_ok_def fds_match_def
        chan_key_def idles_live_def idles_ok_def chan_open_def)
qed

lemma handle_write_ok:
  assumes "polite cbs" and "up c" and "0 < d"
  shows "\<exists>c'. handle_write (lib_at d cbs) cbs c = Some c' \<and> conn_inv c'"
proof (cases "c_state c = Handshaking")
  case True
  obtain r c1 where "handle_handshake (lib_at d cbs) cbs c = Some (r, c1)" "up c1 \<or> down c1"
    using handle_handshake_ok [OF assms(1) _ True, of d] assms(2,3) by (auto simp: up_def)
  with True show ?thesis by (auto simp: handle_write_def conn_inv_def)
next
  case False
  with assms(2) have st: "c_state c = Connected" and core: "core c" by (auto simp: up_def)
  obtain n c1 where n: "isend (buf_str (c_output c)) c = Some (n, c1)" "core c1" "c_state c1 = c_state c"
    "chan_open c1 = chan_open c" "c_output c1 = c_output c" "c_writablecb c1 = c_writablecb c"
    "n \<noteq> - 1 \<Longrightarrow> 0 \<le> n \<and> nat n \<le> length (buf_str (c_output c))"
    using isend_core [OF core] by metis
  show ?thesis
  proof (cases "n = - 1")
    case True
    with n(1) st cleanup_inv [OF assms(1) n(2), of d] assms(3) show ?thesis
      by (simp add: handle_write_def)
  next
    case False
    let ?c = "c1\<lparr>c_output := buf_consume (nat n) (c_output c1)\<rparr>"
    have "up c1" using n(2-4) assms(2) by (simp add: up_def)
    moreover have "buf_ok (buf_consume (nat n) (c_output c1))"
      using up_bufs [OF assms(2)] n(5,7) False by (simp add: buf_consume_ok)
    ultimately have up1: "up ?c" by (rule up_output)
    then have "bufs_ok ?c" using up_bufs by blast
    from politeD(2) [OF assms(1) this] obtain c2 where
      c2: "(if buf_empty (c_output ?c) \<and> c_writablecb ?c then cb_writable cbs (lib_at d cbs) ?c else Some ?c) = Some c2"
        "same_life ?c c2" "bufs_ok c2" by blast
    have up2: "up c2" using up_same [OF up1 c2(2,3)] .
    obtain ch where ch: "c_chan c2 = Some ch" using up_chan [OF up2] by blast
    obtain c3 where c3: "conn_update (channel_enableWrite False) c2 = Some c3" "up c3"
      using up_update [OF up2] by blast
    have "handle_write (lib_at d cbs) cbs c =
      (if buf_empty (c_output c2) then (if writeEnabled ch then Some c3 else Some c2) else Some c2)"
      using n(1) False st c2(1) ch c3(1) by (simp add: handle_write_def Let_def)
    then show ?thesis using up2 c3(2) by (auto simp: conn_inv_def)
  qed
qed

lemma send_bytes_ok:
  assumes "polite cbs" and "up c" and "1 < d"
  shows "\<exists>c'. send_bytes (lib_at d cbs) bs c = Some c' \<and> conn_inv c'"
proof -
  obtain ch where ch: "c_chan c = Some ch" using up_chan [OF assms(2)] by blast
  obtain e where d: "d = Suc e" "0 < e" using assms(3) by (cases d) auto
  show ?thesis
  proof (cases "buf_empty (c_output c)")
    case True
    have core: "core c" using assms(2) by (simp add: up_def)
    obtain n c1 where n: "isend bs c = Some (n, c1)" "core c1" "c_state c1 = c_state c"
      "chan_open c1 = chan_open c" "c_output c1 = c_output c" "c_writablecb c1 = c_writablecb c"
      using isend_core [OF core] by metis
    have up1: "up c1" using n(2-4) assms(2) by (simp add: up_def)
    show ?thesis
    proof (cases "n = - 1")
      case True
      with \<open>buf_empty (c_output c)\<close> ch n(1) cleanup_inv [OF assms(1) n(2), of e] d show ?thesis
        by (simp add: send_bytes_def)
    next
      case False
      with \<open>buf_empty (c_output c)\<close> ch n(1) up1 up_output [OF up1] up_bufs [OF up1] show ?thesis
        by (auto simp: send_bytes_def conn_inv_def)
    qed
  next
    case False
    with ch assms(2) up_output [OF assms(2)] up_bufs [OF assms(2)] show ?thesis
      by (auto simp: send_bytes_def conn_inv_def)
  qed
qed

lemma conn_chan_close_ok:
  assumes "polite cbs" and "up c" and "0 < d"
  shows "\<exists>c'. conn_chan_close (lib_at d cbs) c = Some c' \<and> conn_inv c'"
proof -
  obtain ch where ch: "c_chan c = Some ch" "ch_fd ch \<ge> 0" using up_chan [OF assms(2)] by blast
  obtain e where d: "d = Suc e" using assms(3) by (cases d) auto
  let ?c = "eff [RemoveChannel (ch_id ch), CloseFd (ch_fd ch)] (c\<lparr>c_chan := Some (ch\<lparr>ch_fd := - 1\<rparr>)\<rparr>)"
  have "core ?c" "\<not> chan_open ?c" "c_state ?c = Handshaking \<or> c_state ?c = Connected"
    using assms(2) ch by (auto simp: up_def core_def bufs_ok_def input_ok_def fds_match_def
        chan_key_def idles_live_def idles_ok_def chan_open_def)
  from handle_read_ok [OF assms(1) this(1,3), of e] this(2)
  show ?thesis using ch d by (simp add: conn_chan_close_def channel_shut_def)
qed

section \<open>The events of a connection\<close>

datatype conn_event =
    EvConnect nat int timer_id "16 word" int
  | EvAttach nat int
  | EvReadable "bool list" "rd list"
  | EvWritable "bool list" "wr list"
  | EvSend bytes "wr list"
  | EvClose
  | EvConnectTimeout
  | EvReconnect nat int timer_id

fun conn_handle :: "cbs \<Rightarrow> conn_event \<Rightarrow> conn \<Rightarrow> conn option" where
  "conn_handle cbs (EvConnect i fd tid port t) c = tcp_connect (lib_at 2 cbs) i fd tid port t c"
| "conn_handle cbs (EvAttach i fd) c = tcp_attach (lib_at 2 cbs) i fd c"
| "conn_handle cbs (EvReadable ps rs) c = handle_read (lib_at 2 cbs) cbs (c\<lparr>c_polls := ps, c_reads := rs\<rparr>)"
| "conn_handle cbs (EvWritable ps ws) c = handle_write (lib_at 2 cbs) cbs (c\<lparr>c_polls := ps, c_writes := ws\<rparr>)"
| "conn_handle cbs (EvSend bs ws) c = send_bytes (lib_at 2 cbs) bs (c\<lparr>c_writes := ws\<rparr>)"
| "conn_handle cbs EvClose c = close_task (lib_at 2 cbs) c"
| "conn_handle cbs EvConnectTimeout c = connect_timeout (lib_at 2 cbs) c"
| "conn_handle cbs (EvReconnect i fd tid) c = reconnect_timeout (lib_at 2 cbs) i fd tid c"

text \<open>
  When an event can come: a connection is started once, on an open descriptor and, for a
  client, to a port other than 0; the reconnect timer runs after \<open>reconnect\<close> has set it.
\<close>

fun can_occur :: "conn_event \<Rightarrow> conn \<Rightarrow> bool" where
  "can_occur (EvConnect i fd tid port t) c \<longleftrightarrow> c_state c = Invalid \<and> fd \<ge> 0 \<and> port \<noteq> 0"
| "can_occur (EvAttach i fd) c \<longleftrightarrow> c_state c = Invalid \<and> fd \<ge> 0"
| "can_occur (EvReconnect i fd tid) c \<longleftrightarrow> c_reconnecting c \<and> fd \<ge> 0"
| "can_occur _ c \<longleftrightarrow> True"

inductive conn_reach :: "cbs \<Rightarrow> conn \<Rightarrow> conn \<Rightarrow> bool" for cbs c0 where
  conn_reach_init: "conn_reach cbs c0 c0"
| conn_reach_step: "conn_reach cbs c0 c \<Longrightarrow> can_occur e c \<Longrightarrow> conn_handle cbs e c = Some c' \<Longrightarrow>
    conn_reach cbs c0 c'"

lemma inv_scripts [simp]:
  "up (c\<lparr>c_polls := ps, c_reads := rs\<rparr>) = up c" "up (c\<lparr>c_polls := ps, c_writes := ws\<rparr>) = up c"
  "up (c\<lparr>c_writes := ws\<rparr>) = up c" "conn_inv (c\<lparr>c_polls := ps\<rparr>) = conn_inv c"
  "conn_inv (c\<lparr>c_polls := ps, c_reads := rs\<rparr>) = conn_inv c"
  "conn_inv (c\<lparr>c_polls := ps, c_writes := ws\<rparr>) = conn_inv c"
  "conn_inv (c\<lparr>c_writes := ws\<rparr>) = conn_inv c"
  by (simp_all add: conn_inv_def up_def down_def fresh_def chan_open_def bufs_ok_def input_ok_def
      idles_live_def idles_ok_def)

lemma not_up: "conn_inv c \<Longrightarrow> \<not> up c \<Longrightarrow> c_chan c = None \<and> c_state c \<noteq> Handshaking \<and> c_state c \<noteq> Connected"
  by (auto simp: conn_inv_def down_def fresh_def)

lemma tcp_attach_ok:
  assumes "bufs_ok c" and "c_chan c = None" and "open_fds c = []" and "idles_live c"
    and "word_of_int (c_destPort c) \<noteq> (0 :: 16 word)" and "\<not> c_reconnecting c" and "fd \<ge> 0"
    and "c_destPort c = - 1 \<and> c_state c = Invalid \<or> c_destPort c > 0 \<and> c_state c = Handshaking"
  shows "\<exists>c'. tcp_attach l i fd c = Some c' \<and> up c' \<and> c_state c' = Handshaking"
  using assms by (auto simp: tcp_attach_def up_def core_def bufs_ok_def input_ok_def fds_match_def
      chan_key_def idles_live_def idles_ok_def chan_open_def)

lemma tcp_connect_ok:
  assumes "down c \<or> fresh c" and "idles_live c" and "\<not> c_reconnecting c" and "fd \<ge> 0" and "port \<noteq> 0"
  shows "\<exists>c'. tcp_connect l i fd tid port t c = Some c' \<and> up c' \<and> c_state c' = Handshaking"
proof -
  let ?c = "c\<lparr>c_destPort := uint port, c_connectTimeout := t, c_state := Handshaking\<rparr>"
  have "0 < uint port" using assms(5) by (simp add: order_less_le unsigned_eq_0_iff)
  with assms obtain c' where c': "tcp_attach l i fd ?c = Some c'" "up c'" "c_state c' = Handshaking"
    using tcp_attach_ok [of ?c fd l i]
    by (auto simp: down_def fresh_def bufs_ok_def input_ok_def idles_live_def idles_ok_def)
  have "up (eff es (c'\<lparr>c_timeoutId := tid\<rparr>))" if "\<forall>fds. foldl fd_step fds es = fds" for es
    using c'(2) that by (simp add: up_def core_def bufs_ok_def input_ok_def fds_match_def
        chan_key_def idles_live_def idles_ok_def chan_open_def)
  with c' assms(1,4) show ?thesis
    by (auto simp: tcp_connect_def Let_def down_def fresh_def)
qed

lemma conn_handle_inv:
  assumes "polite cbs" and "conn_inv c" and "can_occur e c"
  shows "\<exists>c'. conn_handle cbs e c = Some c' \<and> conn_inv c'"
proof (cases e)
  case (EvConnect i fd tid port t)
  with assms have "fresh c" "fd \<ge> 0" "port \<noteq> 0" by (auto simp: conn_inv_def up_def down_def)
  then show ?thesis using EvConnect tcp_connect_ok [of c fd port "lib_at 2 cbs" i tid t]
    by (auto simp: conn_inv_def fresh_def)
next
  case (EvAttach i fd)
  with assms have "fresh c" "fd \<ge> 0" by (auto simp: conn_inv_def up_def down_def)
  then show ?thesis using EvAttach tcp_attach_ok [of c fd "lib_at 2 cbs" i]
    by (auto simp: conn_inv_def fresh_def)
next
  case (EvReadable ps rs)
  let ?c = "c\<lparr>c_polls := ps, c_reads := rs\<rparr>"
  have inv: "conn_inv ?c" using assms(2) by simp
  show ?thesis
  proof (cases "up ?c")
    case True
    with EvReadable handle_read_ok [OF assms(1), of ?c 2] show ?thesis by (auto simp: up_def)
  next
    case False
    with not_up [OF inv] EvReadable inv show ?thesis
      by (auto simp: handle_read_def read_loop.simps)
  qed
next
  case (EvWritable ps ws)
  let ?c = "c\<lparr>c_polls := ps, c_writes := ws\<rparr>"
  have inv: "conn_inv ?c" using assms(2) by simp
  show ?thesis
  proof (cases "up ?c")
    case True
    with EvWritable handle_write_ok [OF assms(1), of ?c 2] show ?thesis by auto
  next
    case False
    with not_up [OF inv] EvWritable inv show ?thesis
      by (cases "c_state c") (auto simp: handle_write_def)
  qed
next
  case (EvSend bs ws)
  let ?c = "c\<lparr>c_writes := ws\<rparr>"
  have inv: "conn_inv ?c" using assms(2) by simp
  show ?thesis
  proof (cases "up ?c")
    case True
    with EvSend send_bytes_ok [OF assms(1), of ?c 2 bs] show ?thesis by auto
  next
    case False
    with not_up [OF inv] EvSend inv show ?thesis by (auto simp: send_bytes_def)
  qed
next
  case EvClose
  show ?thesis
  proof (cases "up c")
    case True
    with EvClose conn_chan_close_ok [OF assms(1) True, of 2] up_chan [OF True] show ?thesis
      by (auto simp: close_task_def)
  next
    case False
    with not_up [OF assms(2)] EvClose assms(2) show ?thesis by (auto simp: close_task_def)
  qed
next
  case EvConnectTimeout
  show ?thesis
  proof (cases "up c")
    case True
    with EvConnectTimeout conn_chan_close_ok [OF assms(1) True, of 2] assms(2) show ?thesis
      by (auto simp: connect_timeout_def)
  next
    case False
    with not_up [OF assms(2)] EvConnectTimeout assms(2) show ?thesis by (auto simp: connect_timeout_def)
  qed
next
  case (EvReconnect i fd tid)
  with assms have d: "down c" "c_reconnecting c" "fd \<ge> 0" by (auto simp: conn_inv_def up_def core_def fresh_def)
  let ?c = "c\<lparr>c_reconnecting := False\<rparr>"
  have "down ?c" "idles_live ?c" "\<not> c_reconnecting ?c" "word_of_int (c_destPort c) \<noteq> (0 :: 16 word)"
    using d(1,2) by (auto simp: down_def bufs_ok_def input_ok_def idles_live_def idles_ok_def)
  then show ?thesis
    using EvReconnect tcp_connect_ok [of ?c fd "word_of_int (c_destPort c)" "lib_at 2 cbs" i tid] d(3)
    by (auto simp: reconnect_timeout_def conn_inv_def)
qed

lemma conn_reach_inv: "conn_reach cbs c0 c \<Longrightarrow> polite cbs \<Longrightarrow> conn_inv c0 \<Longrightarrow> conn_inv c"
proof (induction rule: conn_reach.induct)
  case (conn_reach_step c e c')
  with conn_handle_inv [of cbs c e] show ?case by auto
qed

lemma fresh_new: "fresh tcp_new"
  by (simp add: fresh_def tcp_new_def bufs_ok_def input_ok_def idles_live_def idles_ok_def open_fds_def)
    (simp add: buf_new_def)

lemma polite_quiet: "polite quiet_cbs"
  by (simp add: polite_def polite_cb_def quiet_cbs_def)

section \<open>Properties\<close>

definition start_conn :: "bool \<Rightarrow> bool \<Rightarrow> bool \<Rightarrow> int \<Rightarrow> conn" where
  "start_conn rd wr st r =
     tcp_new\<lparr>c_readcb := rd, c_writablecb := wr, c_statecb := st, c_reconnectInterval := r\<rparr>"

lemma start_inv: "conn_inv (start_conn rd wr st r)"
  using fresh_new
  by (simp add: conn_inv_def fresh_def start_conn_def bufs_ok_def input_ok_def idles_live_def idles_ok_def
      open_fds_def)





lemma quiet_cleanup:
  assumes "c_chan c = Some ch" and "ch_fd ch \<ge> 0"
    and "distinct (c_idleIds c)" and "set (c_idleIds c) \<subseteq> set (c_idleNodes c)"
    and "c_reconnectInterval c < 0 \<or> c_exited c" and "0 < d"
  shows "tcp_cleanup (lib_at d quiet_cbs) quiet_cbs c = Some (c\<lparr>
    c_state := (if c_state c = Handshaking then Failed else Closed), c_chan := None,
    c_readcb := False, c_writablecb := False, c_statecb := False,
    c_idleNodes := fold remove1 (c_idleIds c) (c_idleNodes c),
    c_effects := c_effects c @ CancelTimer (c_timeoutId c) # map UnregisterIdle (c_idleIds c) @
      [RemoveChannel (ch_id ch), CloseFd (ch_fd ch)]\<rparr>)"
proof -
  have un: "unregister_idles (c_idleIds c) c1 = Some (eff (map UnregisterIdle (c_idleIds c))
      (c1\<lparr>c_idleNodes := fold remove1 (c_idleIds c) (c_idleNodes c1)\<rparr>))"
    if "c_idleNodes c1 = c_idleNodes c" for c1
    using assms(3,4) that by (intro unregister_idles_ok) simp_all
  have q: "cb_read quiet_cbs l c1 = Some c1" "cb_state quiet_cbs l c1 = Some c1" for l c1
    by (simp_all add: quiet_cbs_def)
  show ?thesis using assms(1,2,5,6)
    by (auto simp: tcp_cleanup_def q un Let_def old_chan_close_def channel_shut_def l_read_closed eff_def)
qed



text \<open>
  Two hazards. A handshake that completes switches the write event off, also when bytes wait;
  and a read callback that answers through the input buffer is called by \<open>cleanup\<close> again while
  the write still fails.
\<close>

definition echo_cb :: "lib \<Rightarrow> conn \<Rightarrow> conn option" where
  "echo_cb l c = tcp_send l InputBuf c"

text \<open>A connection that is handshaking, on a channel with both events on.\<close>

definition hs_conn :: conn where
  "hs_conn = tcp_new\<lparr>c_state := Handshaking, c_effects := [AddChannel 2 5 (kReadEvent OR kWriteEvent)],
     c_chan := Some \<lparr>ch_id = 2, ch_fd = 5, ch_events = kReadEvent OR kWriteEvent\<rparr>\<rparr>"

lemma hs_conn_simps:
  "c_state hs_conn = Handshaking" "c_output hs_conn = buf_new" "c_writes hs_conn = []" "\<not> c_statecb hs_conn"
  "c_chan hs_conn = Some \<lparr>ch_id = 2, ch_fd = 5, ch_events = kReadEvent OR kWriteEvent\<rparr>"
  by (simp_all add: hs_conn_def tcp_new_def)

lemma hs_conn_up: "up hs_conn"
  by (simp add: hs_conn_def up_def core_def bufs_ok_def input_ok_def tcp_new_def fds_match_def chan_key_def
      idles_live_def idles_ok_def chan_open_def open_fds_def) (simp add: buf_new_def)

lemma hs_conn_send:
  "conn_handle quiet_cbs (EvSend ''hello'' [WAgain]) hs_conn =
     Some (hs_conn\<lparr>c_writes := [], c_output := buf_append ''hello'' buf_new\<rparr>)"
proof -
  have "writeEnabled \<lparr>ch_id = 2, ch_fd = 5, ch_events = kReadEvent OR kWriteEvent\<rparr>"
    by (simp add: writeEnabled_def kReadEvent_def kWriteEvent_def)
  then show ?thesis
    by (simp add: send_bytes_def isend_def isend_loop.simps hs_conn_simps buf_empty_str)
qed



text \<open>
  Bytes sent while the connection is still handshaking and not taken by the kernel stay in
  the output buffer with the write event switched off once the handshake completes, so the
  loop does not wait for the moment to send them.
\<close>

theorem handshake_strands_output:
  assumes "up c" and "c_state c = Handshaking" and "\<not> c_statecb c"
  shows "\<exists>c'. handle_write l cbs (c\<lparr>c_polls := [True]\<rparr>) = Some c' \<and> c_state c' = Connected \<and>
    buf_str (c_output c') = buf_str (c_output c) \<and> \<not> writable c'"
proof -
  obtain ch where ch: "c_chan c = Some ch" "ch_fd ch \<ge> 0" using up_chan [OF assms(1)] by blast
  with assms(2,3) show ?thesis
    by (simp add: handle_write_def handle_handshake_def Let_def conn_update_def channel_update_def writable_def)
qed

theorem handshake_strands_output_witness:
  "\<exists>c c'. conn_handle quiet_cbs (EvSend ''hello'' [WAgain]) hs_conn = Some c \<and>
     handle_write (lib_at 2 quiet_cbs) quiet_cbs (c\<lparr>c_polls := [True]\<rparr>) = Some c' \<and>
     buf_str (c_output c') = ''hello'' \<and> \<not> writable c'"
proof -
  define c where "c = hs_conn\<lparr>c_writes := [], c_output := buf_append ''hello'' buf_new\<rparr>"
  have "up c" "c_state c = Handshaking" "\<not> c_statecb c" "buf_str (c_output c) = ''hello''"
    using hs_conn_up by (simp_all add: c_def up_output hs_conn_simps)
  from handshake_strands_output [OF this(1-3), of "lib_at 2 quiet_cbs" quiet_cbs] this(4) hs_conn_send
  show ?thesis unfolding c_def by auto
qed

text \<open>
  The echo server of \<open>examples/echo.cc\<close> runs out of stack when its peer is gone: while the
  kernel answers writes with \<open>EPIPE\<close>, \<open>cleanup\<close> calls the read callback, which sends the input
  again, which fails and calls \<open>cleanup\<close>. No depth of nesting is enough.
\<close>

theorem echo_cleanup_recurses:
  assumes "cb_read cbs = echo_cb" and "c_chan c = Some ch" and "ch_fd ch \<ge> 0" and "\<not> writeEnabled ch"
    and "c_readcb c" and "buf_ok (c_input c)" and "buf_str (c_input c) \<noteq> []"
    and "c_writes c = replicate n WReset" and "d < n"
  shows "tcp_cleanup (lib_at d cbs) cbs c = None"
  using assms(2-9)
proof (induction d arbitrary: c n)
  case 0
  from 0(8) obtain m where n: "n = Suc m" by (cases n) auto
  with 0 assms(1) show ?case
    by (simp add: tcp_cleanup_def echo_cb_def tcp_send_def isend_def isend_loop.simps buf_size_str)
next
  case (Suc d)
  from Suc(9) obtain m where n: "n = Suc m" by (cases n) auto
  have "tcp_cleanup (lib_at d cbs) cbs (c\<lparr>c_writes := replicate m WReset\<rparr>) = None"
    using Suc.prems n by (intro Suc.IH [of _ m]) simp_all
  moreover have "l_cleanup (lib_at (Suc d) cbs) = tcp_cleanup (lib_at d cbs) cbs" by simp
  ultimately show ?case
    using Suc.prems n assms(1)
    by (simp add: tcp_cleanup_def [of "lib_at (Suc d) cbs"] echo_cb_def tcp_send_def isend_def
        isend_loop.simps buf_size_str del: lib_at.simps)
qed

theorem echo_cleanup_recurses_witness:
  "tcp_cleanup (lib_at 9 (quiet_cbs\<lparr>cb_read := echo_cb\<rparr>)) (quiet_cbs\<lparr>cb_read := echo_cb\<rparr>)
     ((conn_up LineCodec (replicate 10 WReset))\<lparr>c_input := buf_append ''x'' buf_new\<rparr>) = None"
proof (rule echo_cleanup_recurses [where n = 10])
  show "c_chan ((conn_up LineCodec (replicate 10 WReset))\<lparr>c_input := buf_append ''x'' buf_new\<rparr>) =
      Some \<lparr>ch_id = 1, ch_fd = 5, ch_events = kReadEvent\<rparr>"
    by (simp add: conn_up_def)
  show "\<not> writeEnabled \<lparr>ch_id = 1, ch_fd = 5, ch_events = kReadEvent\<rparr>"
    by (simp add: writeEnabled_def)
qed simp_all

end
