(* ===== verification/Handy_Timer.thy ===== *)
theory Handy_Timer
  imports Handy_Channel
begin

text \<open>
  The timers of an event loop (\<open>EventsImp\<close> in \<open>handy/event_base.cc\<close>): one-shot tasks in
  \<open>timers_\<close>, ordered by due time and sequence number, and repeating tasks, whose record stays
  in \<open>timerReps_\<close> while a one-shot entry for the next turn is in \<open>timers_\<close>. The tasks are of a
  type of their own; what a task does to the loop is a parameter. \<open>t_now\<close> is what
  \<open>util::timeMilli()\<close> returns. \<open>None\<close> is an access through a missing map node.
\<close>

record 'a rep =
  r_at :: int
  r_interval :: int
  r_timerid :: timer_id
  r_cb :: 'a

text \<open>An entry of \<open>timers_\<close> is a task of the user or the closure around \<open>repeatableTimeout\<close>.\<close>

datatype 'a ttask = User 'a | Repeat timer_id

record 'a timers =
  t_exit :: bool
  t_now :: int
  t_next :: int
  t_seq :: int
  t_reps :: "(timer_id \<times> 'a rep) list"
  t_timers :: "(timer_id \<times> 'a ttask) list"
  t_fired :: "'a list"   \<comment> \<open>the tasks run so far\<close>

definition timers_new :: "int \<Rightarrow> 'a timers" where
  "timers_new now = \<lparr>t_exit = False, t_now = now, t_next = 2 ^ 30, t_seq = 0, t_reps = [],
     t_timers = [], t_fired = []\<rparr>"

definition refreshNearest :: "('a, 's) timers_scheme \<Rightarrow> ('a, 's) timers_scheme" where
  "refreshNearest t =
     (case t_timers t of
        [] \<Rightarrow> t\<lparr>t_next := 2 ^ 30\<rparr>
      | e # es \<Rightarrow>
          let n = c_int (fst (fst e) - t_now t) in t\<lparr>t_next := (if n < 0 then 0 else n)\<rparr>)"

definition runAt :: "int \<Rightarrow> 'a \<Rightarrow> int \<Rightarrow> ('a, 's) timers_scheme \<Rightarrow> timer_id \<times> ('a, 's) timers_scheme" where
  "runAt milli task interval t =
     (if t_exit t then ((0, 0), t)
      else if interval \<noteq> 0
      then
        let tid = (- milli, t_seq t + 1);
            key = (milli, t_seq t + 2);
            rtr = \<lparr>r_at = milli, r_interval = interval, r_timerid = key, r_cb = task\<rparr>
        in (tid, refreshNearest (t\<lparr>t_seq := t_seq t + 2, t_reps := map_put tid rtr (t_reps t),
              t_timers := map_put key (Repeat tid) (t_timers t)\<rparr>))
      else
        let tid = (milli, t_seq t + 1)
        in (tid, refreshNearest (t\<lparr>t_seq := t_seq t + 1, t_timers := map_put tid (User task) (t_timers t)\<rparr>)))"

definition runAfter :: "int \<Rightarrow> 'a \<Rightarrow> int \<Rightarrow> ('a, 's) timers_scheme \<Rightarrow> timer_id \<times> ('a, 's) timers_scheme" where
  "runAfter milli task interval t = runAt (t_now t + milli) task interval t"

text \<open>
  \<open>cancel\<close>: for the id of a repeating task the result of \<open>find\<close> is used without a check.
\<close>

definition cancel :: "timer_id \<Rightarrow> ('a, 's) timers_scheme \<Rightarrow> (bool \<times> ('a, 's) timers_scheme) option" where
  "cancel tid t =
     (if fst tid < 0
      then (case map_of (t_reps t) tid of
              None \<Rightarrow> None
            | Some r \<Rightarrow> Some (True, t\<lparr>t_timers := map_erase (r_timerid r) (t_timers t),
                t_reps := map_erase tid (t_reps t)\<rparr>))
      else if map_of (t_timers t) tid \<noteq> None
      then Some (True, t\<lparr>t_timers := map_erase tid (t_timers t)\<rparr>)
      else Some (False, t))"

text \<open>\<open>run\<close> is what a task of the user does.\<close>

definition repeatableTimeout :: "('a \<Rightarrow> ('a, 's) timers_scheme \<Rightarrow> ('a, 's) timers_scheme option) \<Rightarrow> timer_id \<Rightarrow> ('a, 's) timers_scheme \<Rightarrow> ('a, 's) timers_scheme option" where
  "repeatableTimeout run tid t =
     (case map_of (t_reps t) tid of
        None \<Rightarrow> None
      | Some tr \<Rightarrow>
          let at' = r_at tr + r_interval tr;
              key = (at', t_seq t + 1);
              t = t\<lparr>t_seq := t_seq t + 1, t_reps := map_put tid (tr\<lparr>r_at := at', r_timerid := key\<rparr>) (t_reps t),
                t_timers := map_put key (Repeat tid) (t_timers t)\<rparr>;
              t = refreshNearest t
          in run (r_cb tr) (t\<lparr>t_fired := t_fired t @ [r_cb tr]\<rparr>))"

definition run_task :: "('a \<Rightarrow> ('a, 's) timers_scheme \<Rightarrow> ('a, 's) timers_scheme option) \<Rightarrow> 'a ttask \<Rightarrow> ('a, 's) timers_scheme \<Rightarrow> ('a, 's) timers_scheme option" where
  "run_task run k t =
     (case k of User a \<Rightarrow> run a (t\<lparr>t_fired := t_fired t @ [a]\<rparr>) | Repeat tid \<Rightarrow> repeatableTimeout run tid t)"

text \<open>
  The loop of \<open>handleTimeouts\<close>. It ends when no due task is left, which tasks that set new due
  tasks can put off for ever.
\<close>

partial_function (option) timeout_loop ::
    "('a \<Rightarrow> ('a, 's) timers_scheme \<Rightarrow> ('a, 's) timers_scheme option) \<Rightarrow> timer_id \<Rightarrow> ('a, 's) timers_scheme \<Rightarrow> ('a, 's) timers_scheme option" where
  "timeout_loop run lim t =
     (case t_timers t of
        [] \<Rightarrow> Some t
      | e # es \<Rightarrow>
          if fst e < lim
          then do { t \<leftarrow> run_task run (snd e) (t\<lparr>t_timers := es\<rparr>); timeout_loop run lim t }
          else Some t)"

definition handleTimeouts :: "('a \<Rightarrow> ('a, 's) timers_scheme \<Rightarrow> ('a, 's) timers_scheme option) \<Rightarrow> ('a, 's) timers_scheme \<Rightarrow> ('a, 's) timers_scheme option" where
  "handleTimeouts run t =
     do { t \<leftarrow> timeout_loop run (t_now t, 2 ^ 62) t; Some (refreshNearest t) }"

section \<open>The invariant\<close>

text \<open>
  The next turn of every repeating task is in \<open>timers_\<close>, under the key its record names, and
  every closure of \<open>timers_\<close> has its record. Sequence numbers are below the counter.
\<close>

definition timers_ok :: "('a, 's) timers_scheme \<Rightarrow> bool" where
  "timers_ok t \<longleftrightarrow> map_ok (t_timers t) \<and> map_ok (t_reps t) \<and>
     (\<forall>key tid. map_of (t_timers t) key = Some (Repeat tid) \<longleftrightarrow>
        (\<exists>r. map_of (t_reps t) tid = Some r \<and> r_timerid r = key)) \<and>
     (\<forall>key \<in> dom (map_of (t_timers t)). snd key \<le> t_seq t) \<and>
     (\<forall>tid \<in> dom (map_of (t_reps t)). snd tid \<le> t_seq t)"

lemma timers_new_ok: "timers_ok (timers_new now)"
  by (simp add: timers_ok_def timers_new_def)

lemma refreshNearest_simps [simp]:
  "t_timers (refreshNearest t) = t_timers t" "t_reps (refreshNearest t) = t_reps t"
  "t_seq (refreshNearest t) = t_seq t" "t_fired (refreshNearest t) = t_fired t"
  "t_now (refreshNearest t) = t_now t" "t_exit (refreshNearest t) = t_exit t"
  by (simp_all add: refreshNearest_def Let_def split: list.splits)

lemma timers_ok_fields:
  "timers_ok t' = timers_ok t" if "t_timers t' = t_timers t" "t_reps t' = t_reps t" "t_seq t' = t_seq t"
  using that by (simp add: timers_ok_def)

lemma timers_ok_refresh [simp]: "timers_ok (refreshNearest t) = timers_ok t"
  by (rule timers_ok_fields) simp_all

lemma timers_ok_fired [simp]: "timers_ok (t\<lparr>t_fired := f\<rparr>) = timers_ok t"
  by (rule timers_ok_fields) simp_all

lemma timers_okD:
  assumes "timers_ok t"
  shows "map_ok (t_timers t)" "map_ok (t_reps t)"
    "map_of (t_reps t) tid = Some r \<Longrightarrow> map_of (t_timers t) (r_timerid r) = Some (Repeat tid)"
    "map_of (t_timers t) key = Some (Repeat tid) \<Longrightarrow> \<exists>r. map_of (t_reps t) tid = Some r \<and> r_timerid r = key"
    "t_seq t < snd key \<Longrightarrow> map_of (t_timers t) key = None"
    "t_seq t < snd tid \<Longrightarrow> map_of (t_reps t) tid = None"
proof -
  from assms show "map_ok (t_timers t)" "map_ok (t_reps t)" by (simp_all add: timers_ok_def)
  show "map_of (t_reps t) tid = Some r \<Longrightarrow> map_of (t_timers t) (r_timerid r) = Some (Repeat tid)"
    using assms unfolding timers_ok_def by blast
  show "map_of (t_timers t) key = Some (Repeat tid) \<Longrightarrow> \<exists>r. map_of (t_reps t) tid = Some r \<and> r_timerid r = key"
    using assms unfolding timers_ok_def by blast
  show "t_seq t < snd key \<Longrightarrow> map_of (t_timers t) key = None"
    using assms unfolding timers_ok_def by (meson domIff not_le)
  show "t_seq t < snd tid \<Longrightarrow> map_of (t_reps t) tid = None"
    using assms unfolding timers_ok_def by (meson domIff not_le)
qed

lemma timers_okI:
  assumes "map_ok (t_timers t)" "map_ok (t_reps t)"
    "\<And>tid r. map_of (t_reps t) tid = Some r \<Longrightarrow> map_of (t_timers t) (r_timerid r) = Some (Repeat tid)"
    "\<And>tid key. map_of (t_timers t) key = Some (Repeat tid) \<Longrightarrow> \<exists>r. map_of (t_reps t) tid = Some r \<and> r_timerid r = key"
    "\<And>key v. map_of (t_timers t) key = Some v \<Longrightarrow> snd key \<le> t_seq t"
    "\<And>tid r. map_of (t_reps t) tid = Some r \<Longrightarrow> snd tid \<le> t_seq t"
  shows "timers_ok t"
  using assms unfolding timers_ok_def dom_def by blast

lemma timers_ok_le:
  assumes "timers_ok t"
  shows "map_of (t_timers t) key = Some v \<Longrightarrow> snd key \<le> t_seq t"
    and "map_of (t_reps t) tid = Some r \<Longrightarrow> snd tid \<le> t_seq t"
  using assms by (auto simp: timers_ok_def)

text \<open>Adding and erasing a task of the user, and adding a repeating task.\<close>

lemma timers_ok_user:
  assumes "timers_ok t" and "n = t_seq t + 1"
  shows "timers_ok (t\<lparr>t_seq := n, t_timers := map_put (milli, n) (User a) (t_timers t)\<rparr>)"
proof (rule timers_okI, goal_cases)
  case (3 tid r)
  with timers_okD(3) [OF assms(1)] timers_okD(5) [OF assms(1), of "r_timerid r"] assms timers_okD(1) [OF assms(1)]
  show ?case by auto
next
  case (4 tid key)
  with timers_okD(4) [OF assms(1)] timers_okD(1) [OF assms(1)] show ?case by (auto split: if_splits)
next
  case (5 key v)
  with timers_ok_le(1) [OF assms(1), of key v] timers_okD(1) [OF assms(1)] assms(2) show ?case
    by (auto split: if_splits)
next
  case (6 tid r)
  with timers_ok_le(2) [OF assms(1), of tid r] assms(2) show ?case by auto
qed (use timers_okD(1,2) [OF assms(1)] in simp_all)

lemma timers_ok_rep:
  assumes "timers_ok t" and "snd key = n" and "r_timerid r = key" and "t_seq t < n" and "snd tid \<le> n"
    and "map_of (t_reps t) tid = None \<or> (\<exists>r'. map_of (t_reps t) tid = Some r' \<and> map_of ts (r_timerid r') = None)"
    and "map_ok ts" and "\<forall>k v. map_of ts k = Some v \<longrightarrow> map_of (t_timers t) k = Some v"
    and "\<forall>k v. v \<noteq> Repeat tid \<and> map_of (t_timers t) k = Some v \<longrightarrow> map_of ts k = Some v"
  shows "timers_ok (t\<lparr>t_seq := n, t_reps := map_put tid r (t_reps t), t_timers := map_put key (Repeat tid) ts\<rparr>)"
proof (rule timers_okI, goal_cases)
  case (3 tid' r')
  show ?case
  proof (cases "tid' = tid")
    case True
    with 3 timers_okD(2) [OF assms(1)] assms(3,7) show ?thesis by simp
  next
    case False
    with 3 timers_okD(2,3) [OF assms(1)] have "map_of (t_timers t) (r_timerid r') = Some (Repeat tid')" by simp
    moreover from this have "snd (r_timerid r') \<le> t_seq t" by (rule timers_ok_le(1) [OF assms(1)])
    moreover have "map_of ts (r_timerid r') = Some (Repeat tid')"
      using calculation(1) False assms(9) by blast
    ultimately show ?thesis using assms(2,4,7) by auto
  qed
next
  case (4 tid' k)
  show ?case
  proof (cases "k = key")
    case True
    with 4 assms(3,7) timers_okD(2) [OF assms(1)] show ?thesis by simp
  next
    case False
    with 4 assms(7) have ts: "map_of ts k = Some (Repeat tid')" by simp
    with assms(8) have "map_of (t_timers t) k = Some (Repeat tid')" by blast
    with timers_okD(4) [OF assms(1)] obtain r' where r': "map_of (t_reps t) tid' = Some r'" "r_timerid r' = k"
      by blast
    with assms(6) ts have "tid' \<noteq> tid" by auto
    with r' timers_okD(2) [OF assms(1)] show ?thesis by simp
  qed
next
  case (5 k v)
  show ?case
  proof (cases "k = key")
    case False
    with 5 assms(7) have "map_of ts k = Some v" by simp
    with assms(8) have "map_of (t_timers t) k = Some v" by blast
    with timers_ok_le(1) [OF assms(1), of k v] assms(4) show ?thesis by simp
  qed (use assms(2) in simp)
next
  case (6 tid' r')
  with assms(4,5) timers_ok_le(2) [OF assms(1), of tid' r'] timers_okD(2) [OF assms(1)] show ?case
    by (auto split: if_splits)
qed (use timers_okD(1,2) [OF assms(1)] assms(7) in simp_all)

lemma runAt_ok:
  assumes "timers_ok t"
  shows "timers_ok (snd (runAt milli task interval t))"
proof (cases "t_exit t \<or> interval = 0")
  case True
  then show ?thesis using timers_ok_user [OF assms refl, of milli task] assms
    by (auto simp: runAt_def Let_def)
next
  case False
  have "timers_ok (t\<lparr>t_seq := t_seq t + 2,
      t_reps := map_put (- milli, t_seq t + 1) \<lparr>r_at = milli, r_interval = interval, r_timerid = (milli, t_seq t + 2), r_cb = task\<rparr> (t_reps t),
      t_timers := map_put (milli, t_seq t + 2) (Repeat (- milli, t_seq t + 1)) (t_timers t)\<rparr>)"
    using timers_okD [OF assms] by (intro timers_ok_rep [OF assms]) auto
  with False show ?thesis by (simp add: runAt_def Let_def)
qed

lemma cancel_ok:
  assumes "timers_ok t" and "cancel tid t = Some (b, t')" and "fst tid < 0"
  shows "timers_ok t'" and "map_of (t_reps t') tid = None" and "map_of (t_timers t') key \<noteq> Some (Repeat tid)"
proof -
  from assms(2,3) obtain r where r: "map_of (t_reps t) tid = Some r"
    and t': "t' = t\<lparr>t_timers := map_erase (r_timerid r) (t_timers t), t_reps := map_erase tid (t_reps t)\<rparr>"
    by (auto simp: cancel_def split: option.splits)
  note own = timers_okD(3) [OF assms(1) r]
  show ok: "timers_ok t'"
  proof (rule timers_okI, goal_cases)
    case (3 tid' r')
    then have "tid' \<noteq> tid" "map_of (t_reps t) tid' = Some r'" by (auto simp: t' split: if_splits)
    with timers_okD(3) [OF assms(1), of tid' r'] own show ?case by (auto simp: t')
  next
    case (4 tid' k)
    then have "k \<noteq> r_timerid r" "map_of (t_timers t) k = Some (Repeat tid')" by (auto simp: t' split: if_splits)
    moreover from this timers_okD(4) [OF assms(1)] obtain r' where
      "map_of (t_reps t) tid' = Some r'" "r_timerid r' = k" by blast
    ultimately show ?case using r by (auto simp: t')
  next
    case (5 k v)
    with timers_ok_le(1) [OF assms(1)] show ?case by (auto simp: t' split: if_splits)
  next
    case (6 tid' r')
    with timers_ok_le(2) [OF assms(1)] show ?case by (auto simp: t' split: if_splits)
  qed (use timers_okD(1,2) [OF assms(1)] in \<open>simp_all add: t'\<close>)
  show none: "map_of (t_reps t') tid = None" by (simp add: t')
  show "map_of (t_timers t') key \<noteq> Some (Repeat tid)"
    using timers_okD(4) [OF ok, of key tid] none by auto
qed

text \<open>Taking the first entry of \<open>timers_\<close>.\<close>

lemma map_of_tl:
  assumes "map_ok (e # es)"
  shows "map_of es k = (if k = fst e then None else map_of (e # es) k)"
  using assms by (cases e) (auto simp: map_of_eq_None_iff)

lemma timers_ok_pop:
  assumes "timers_ok t" and "t_timers t = (key, User a) # es"
  shows "timers_ok (t\<lparr>t_timers := es\<rparr>)"
proof (rule timers_okI, goal_cases)
  case (3 tid r)
  with timers_okD(3) [OF assms(1), of tid r] assms(2) show ?case by (auto split: if_splits)
next
  case (4 tid k)
  with timers_okD(1,4) [OF assms(1)] assms(2) map_of_tl [of "(key, User a)" es k] show ?case
    by (auto split: if_splits)
next
  case (5 k v)
  with timers_ok_le(1) [OF assms(1), of k v] timers_okD(1) [OF assms(1)] assms(2) map_of_tl [of "(key, User a)" es k]
  show ?case by (auto split: if_splits)
next
  case (6 tid r)
  with timers_ok_le(2) [OF assms(1), of tid r] show ?case by simp
qed (use timers_okD(1,2) [OF assms(1)] assms(2) in simp_all)

lemma repeat_step:
  assumes "timers_ok t" and "t_timers t = (key, Repeat tid) # es"
  obtains tr t1 where "map_of (t_reps t) tid = Some tr" "r_timerid tr = key"
    "repeatableTimeout run tid (t\<lparr>t_timers := es\<rparr>) = run (r_cb tr) t1" "timers_ok t1"
    "t_timers t1 = map_put (r_at tr + r_interval tr, t_seq t + 1) (Repeat tid) es"
    "t_reps t1 = map_put tid (tr\<lparr>r_at := r_at tr + r_interval tr, r_timerid := (r_at tr + r_interval tr, t_seq t + 1)\<rparr>) (t_reps t)"
    "t_fired t1 = t_fired t @ [r_cb tr]" "t_seq t1 = t_seq t + 1" "t_now t1 = t_now t"
proof -
  have "map_of (t_timers t) key = Some (Repeat tid)" by (simp add: assms(2))
  then obtain tr where tr: "map_of (t_reps t) tid = Some tr" "r_timerid tr = key"
    using timers_okD(4) [OF assms(1)] by blast
  let ?key = "(r_at tr + r_interval tr, t_seq t + 1)"
  let ?r = "tr\<lparr>r_at := r_at tr + r_interval tr, r_timerid := ?key\<rparr>"
  let ?t = "t\<lparr>t_seq := t_seq t + 1, t_reps := map_put tid ?r (t_reps t), t_timers := map_put ?key (Repeat tid) es\<rparr>"
  have mok: "map_ok ((key, Repeat tid) # es)" using timers_okD(1) [OF assms(1)] assms(2) by simp
  have "timers_ok ?t"
  proof (rule timers_ok_rep [OF assms(1)])
    show "snd tid \<le> t_seq t + 1" using timers_ok_le(2) [OF assms(1) tr(1)] by simp
    show "map_of (t_reps t) tid = None \<or> (\<exists>r'. map_of (t_reps t) tid = Some r' \<and> map_of es (r_timerid r') = None)"
      using tr map_of_tl [OF mok, of key] by simp
    show "\<forall>k v. map_of es k = Some v \<longrightarrow> map_of (t_timers t) k = Some v"
      unfolding assms(2) using map_of_tl [OF mok] by (metis option.distinct(1))
    show "\<forall>k v. v \<noteq> Repeat tid \<and> map_of (t_timers t) k = Some v \<longrightarrow> map_of es k = Some v"
      by (simp add: assms(2))
  qed (use mok in simp_all)
  with tr show thesis
    by (intro that [of tr "(refreshNearest ?t)\<lparr>t_fired := t_fired t @ [r_cb tr]\<rparr>"])
      (simp_all add: repeatableTimeout_def Let_def)
qed

section \<open>Due tasks\<close>

definition quiet_run :: "'a \<Rightarrow> ('a, 's) timers_scheme \<Rightarrow> ('a, 's) timers_scheme option" where
  "quiet_run a t = Some t"

lemma run_task_quiet [simp]:
  "run_task quiet_run (User a) t = Some (t\<lparr>t_fired := t_fired t @ [a]\<rparr>)"
  "run_task quiet_run (Repeat tid) t = repeatableTimeout quiet_run tid t"
  by (simp_all add: run_task_def quiet_run_def)

lemma timeout_loop_oneshot:
  assumes "t_timers t = map (\<lambda>p. (fst p, User (snd p))) xs"
  shows "timeout_loop quiet_run lim t =
    Some (t\<lparr>t_timers := map (\<lambda>p. (fst p, User (snd p))) (dropWhile (\<lambda>p. fst p < lim) xs),
      t_fired := t_fired t @ map snd (takeWhile (\<lambda>p. fst p < lim) xs)\<rparr>)"
  using assms
proof (induction xs arbitrary: t)
  case Nil
  then have "t\<lparr>t_timers := [], t_fired := t_fired t\<rparr> = t" by (cases t) simp
  with Nil show ?case by (simp add: timeout_loop.simps)
next
  case (Cons p xs)
  show ?case
  proof (cases "fst p < lim")
    case True
    with Cons show ?thesis
      by (subst timeout_loop.simps) simp
  next
    case False
    then have "t\<lparr>t_timers := map (\<lambda>p. (fst p, User (snd p))) (p # xs), t_fired := t_fired t\<rparr> = t"
      using Cons.prems by (cases t) simp
    with False Cons.prems show ?thesis by (subst timeout_loop.simps) simp
  qed
qed

text \<open>A lone repeating task: it runs once for each of its due times up to now.\<close>

lemma timeout_loop_repeat:
  assumes "timers_ok t" and "t_timers t = [((r_at tr, s), Repeat tid)]" and "map_of (t_reps t) tid = Some tr"
    and "t_reps t = [(tid, tr)]" and "0 < r_interval tr"
    and "n = (if r_at tr > now then 0 else nat ((now - r_at tr) div r_interval tr + 1))"
    and "s \<le> t_seq t" and "t_seq t + int n < 2 ^ 62"
  shows "\<exists>t'. timeout_loop quiet_run (now, 2 ^ 62) t = Some t' \<and> timers_ok t' \<and>
    t_fired t' = t_fired t @ replicate n (r_cb tr) \<and>
    (\<exists>s'. t_timers t' = [((r_at tr + int n * r_interval tr, s'), Repeat tid)])"
  using assms
proof (induction n arbitrary: t tr s)
  case 0
  then have "now < r_at tr"
    using pos_imp_zdiv_nonneg_iff [OF 0(5), of "now - r_at tr"] by (auto split: if_splits)
  with 0 show ?case by (simp add: timeout_loop.simps)
next
  case (Suc n)
  then have due: "r_at tr \<le> now" by (auto split: if_splits)
  let ?tr = "tr\<lparr>r_at := r_at tr + r_interval tr, r_timerid := (r_at tr + r_interval tr, t_seq t + 1)\<rparr>"
  obtain tr' t1 where st: "map_of (t_reps t) tid = Some tr'"
    "repeatableTimeout quiet_run tid (t\<lparr>t_timers := []\<rparr>) = quiet_run (r_cb tr') t1" "timers_ok t1"
    "t_timers t1 = map_put (r_at tr' + r_interval tr', t_seq t + 1) (Repeat tid) []"
    "t_reps t1 = map_put tid (tr'\<lparr>r_at := r_at tr' + r_interval tr', r_timerid := (r_at tr' + r_interval tr', t_seq t + 1)\<rparr>) (t_reps t)"
    "t_fired t1 = t_fired t @ [r_cb tr']" "t_seq t1 = t_seq t + 1" "t_now t1 = t_now t"
    using repeat_step [OF Suc.prems(1,2)] by metis
  have "tr' = tr" using st(1) Suc.prems(3) by simp
  note st = st [unfolded this]
  define q where "q = (now - r_at tr) div r_interval tr"
  have "0 \<le> q" using due Suc.prems(5) by (simp add: q_def pos_imp_zdiv_nonneg_iff)
  then have n: "int n = q" using Suc.prems(6) due by (simp add: q_def)
  have "(now - r_at ?tr) div r_interval ?tr = q - 1"
    using Suc.prems(5) div_add_self2 [of "r_interval tr" "now - r_at tr - r_interval tr"] by (simp add: q_def diff_diff_eq)
  moreover have "r_at ?tr > now \<longleftrightarrow> q = 0"
    using Suc.prems(5) due \<open>0 \<le> q\<close> pos_imp_zdiv_nonneg_iff [OF Suc.prems(5), of "now - r_at tr - r_interval tr"]
      calculation by (auto simp: diff_diff_eq)
  ultimately have n': "n = (if r_at ?tr > now then 0 else nat ((now - r_at ?tr) div r_interval ?tr + 1))"
    using n by auto
  have "(r_at tr, s) < (now, 2 ^ 62)"
    using due Suc.prems(7,8) by (auto simp: less_prod_def)
  then have "timeout_loop quiet_run (now, 2 ^ 62) t = timeout_loop quiet_run (now, 2 ^ 62) t1"
    using Suc.prems(2) st(2) quiet_run_def [of "r_cb tr" t1] by (subst timeout_loop.simps) simp
  moreover obtain t' s' where "timeout_loop quiet_run (now, 2 ^ 62) t1 = Some t'" "timers_ok t'"
    "t_fired t' = t_fired t1 @ replicate n (r_cb ?tr)"
    "t_timers t' = [((r_at ?tr + int n * r_interval ?tr, s'), Repeat tid)]"
    using Suc.IH [of t1 ?tr "t_seq t + 1"] st n' Suc.prems(4,5,8) by auto
  ultimately show ?case using st(6) by (auto simp: algebra_simps)
qed

section \<open>Properties\<close>





text \<open>
  C21: A repeating task set for time \<open>m\<close> with interval \<open>i > 0\<close> catches up: handled at time
  \<open>now \<ge> m\<close>, it runs once for each of the times \<open>m, m + i, ...\<close> up to \<open>now\<close>, the loop ends, and
  its next turn is the first of these times after \<open>now\<close>.
\<close>

theorem repeating_task_catches_up:
  assumes "0 < i" and "m \<le> now" and "n = nat ((now - m) div i + 1)" and "int n < 2 ^ 61"
  shows "\<exists>t' s. handleTimeouts quiet_run ((snd (runAt m a i (timers_new t0)))\<lparr>t_now := now\<rparr>) = Some t' \<and>
    t_fired t' = replicate n a \<and> t_timers t' = [((m + int n * i, s), Repeat (- m, 1))]"
proof -
  let ?t = "(snd (runAt m a i (timers_new t0)))\<lparr>t_now := now\<rparr>"
  let ?tr = "\<lparr>r_at = m, r_interval = i, r_timerid = (m, 2), r_cb = a\<rparr>"
  have "timers_ok ?t = timers_ok (snd (runAt m a i (timers_new t0)))" by (rule timers_ok_fields) simp_all
  then have ok: "timers_ok ?t" using runAt_ok [OF timers_new_ok] by simp
  have t: "t_timers ?t = [((r_at ?tr, 2), Repeat (- m, 1))]" "t_reps ?t = [((- m, 1), ?tr)]" "t_seq ?t = 2"
    "t_fired ?t = []"
    using assms(1) by (simp_all add: runAt_def timers_new_def Let_def)
  from timeout_loop_repeat [of ?t ?tr 2 "(- m, 1)" n now] ok t assms obtain t' s' where
    "timeout_loop quiet_run (now, 2 ^ 62) ?t = Some t'" "t_fired t' = replicate n a"
    "t_timers t' = [((m + int n * i, s'), Repeat (- m, 1))]"
    by auto
  then show ?thesis by (simp add: handleTimeouts_def)
qed

theorem repeating_task_catches_up_witness:
  "\<exists>t' s. handleTimeouts quiet_run ((snd (runAt 100 ''tick'' 30 (timers_new 0)))\<lparr>t_now := 165\<rparr>) = Some t' \<and>
    t_fired t' = [''tick'', ''tick'', ''tick''] \<and> t_timers t' = [((190, s), Repeat (- 100, 1))]"
  using repeating_task_catches_up [of 30 100 165 3 "''tick''" 0] by (simp add: numeral_3_eq_3)

text \<open>
  Cancelling a repeating task removes its record and its pending turn, so it does not run
  again; cancelling the same id a second time uses the end iterator of the map.
\<close>

theorem cancel_removes_repeating:
  assumes "timers_ok t" and "cancel tid t = Some (b, t')" and "fst tid < 0"
  shows "b \<and> timers_ok t' \<and> (\<forall>key. map_of (t_timers t') key \<noteq> Some (Repeat tid)) \<and> cancel tid t' = None"
proof -
  have "b" using assms(2,3) by (auto simp: cancel_def split: option.splits)
  with cancel_ok [OF assms] assms(3) show ?thesis by (simp add: cancel_def)
qed

theorem cancel_removes_repeating_witness:
  "cancel (- 5, 1) (snd (the (cancel (- 5, 1) (snd (runAt 5 ''tick'' 10 (timers_new 0)))))) = None"
  using cancel_removes_repeating [OF runAt_ok [OF timers_new_ok], of "(- 5, 1)" 5 "''tick''" 10 0 True
      "timers_new 0\<lparr>t_seq := 2, t_next := 5\<rparr>"]
  by (simp add: cancel_def runAt_def timers_new_def refreshNearest_def Let_def map_erase_def)

text \<open>
  C35: The time the loop will wait is the time to the nearest due task, and 0 when it has passed,
  as long as the distance fits an \<open>int\<close>; a task between 2^31 and 2^32 milliseconds away makes the
  wait 0, so that the loop spins until the task is near.
\<close>

theorem next_timeout_range:
  assumes "t_timers t = ((due, s), k) # es" and "d = due - t_now t"
  shows "(- (2 ^ 31) \<le> d \<and> d < 2 ^ 31 \<longrightarrow> t_next (refreshNearest t) = max 0 d) \<and>
    (2 ^ 31 \<le> d \<and> d < 2 ^ 32 \<longrightarrow> t_next (refreshNearest t) = 0)"
proof -
  have "c_int d = d - 2 ^ 32" if "2 ^ 31 \<le> d" "d < 2 ^ 32"
  proof -
    have "word_of_int d = (word_of_int (d - 2 ^ 32) :: 32 word)" by (simp add: word_of_int_eq_iff take_bit_eq_mod)
    then have "c_int d = c_int (d - 2 ^ 32)" by (simp only: c_int_def)
    with that show ?thesis by simp
  qed
  with assms show ?thesis by (auto simp: refreshNearest_def Let_def)
qed

theorem next_timeout_range_witness:
  "t_next (refreshNearest ((timers_new 10)\<lparr>t_timers := [((25, 1), User ''a'')]\<rparr>)) = 15 \<and>
   t_next (refreshNearest ((timers_new 10)\<lparr>t_timers := [((3000000000, 1), User ''a'')]\<rparr>)) = 0"
  using next_timeout_range [of "(timers_new 10)\<lparr>t_timers := [((25, 1), User ''a'')]\<rparr>" 25 1 "User ''a''" "[]" 15]
    next_timeout_range [of "(timers_new 10)\<lparr>t_timers := [((3000000000, 1), User ''a'')]\<rparr>" 3000000000 1 "User ''a''" "[]" 2999999990]
  by (simp add: timers_new_def)

end
