(* ===== verification/Handy_Poller.thy ===== *)
theory Handy_Poller
  imports Handy_Channel
begin

text \<open>
  The pollers of \<open>handy/poller.h\<close> and \<open>handy/poller.cc\<close>: the \<open>epoll\<close> one of Linux and the
  \<open>kqueue\<close> one of Mac OS. \<open>activeEvs_\<close> holds the events of one wait; while its entries are
  handled from the last to the first, \<open>removeChannel\<close> blanks the entry of a channel that is
  closed. The handlers are parameters; \<open>p_calls\<close> records each call with whether the channel was
  in \<open>liveChannels_\<close> then. The descriptors the kernel watches are \<open>p_interest\<close>.
\<close>

record 'w poller =
  p_live :: "nat list"
  p_interest :: "(int \<times> nat \<times> 16 word) list"
  p_active :: "(nat option \<times> 16 word) list"
  p_last :: int
  p_exited :: bool
  p_calls :: "(nat \<times> bool \<times> bool) list"  \<comment> \<open>channel, is it the write handler, was it live\<close>
  p_world :: 'w

definition poller_new :: "'w \<Rightarrow> 'w poller" where
  "poller_new w = \<lparr>p_live = [], p_interest = [], p_active = [], p_last = - 1, p_exited = False,
     p_calls = [], p_world = w\<rparr>"

text \<open>\<open>epoll_ctl\<close> fails for a descriptor that is not open, added twice or not there to modify.\<close>

definition epoll_add :: "channel \<Rightarrow> 'w poller \<Rightarrow> 'w poller option" where
  "epoll_add ch p =
     (if ch_fd ch < 0 \<or> map_of (p_interest p) (ch_fd ch) \<noteq> None then None
      else Some (p\<lparr>p_interest := (ch_fd ch, ch_id ch, ch_events ch) # p_interest p,
        p_live := List.insert (ch_id ch) (p_live p)\<rparr>))"

definition epoll_update :: "channel \<Rightarrow> 'w poller \<Rightarrow> 'w poller option" where
  "epoll_update ch p =
     (if ch_fd ch < 0 \<or> map_of (p_interest p) (ch_fd ch) = None then None
      else Some (p\<lparr>p_interest := (ch_fd ch, ch_id ch, ch_events ch) #
        filter (\<lambda>e. fst e \<noteq> ch_fd ch) (p_interest p)\<rparr>))"

text \<open>The scan of \<open>removeChannel\<close>, downwards from \<open>lastActive_\<close>.\<close>

function blank_active :: "nat \<Rightarrow> int \<Rightarrow> (nat option \<times> 16 word) list \<Rightarrow> (nat option \<times> 16 word) list" where
  "blank_active ch i evs =
     (if i < 0 then evs
      else if fst (evs ! nat i) = Some ch then evs[nat i := (None, snd (evs ! nat i))]
      else blank_active ch (i - 1) evs)"
  by pat_completeness auto
termination by (relation "measure (\<lambda>(ch, i, evs). nat (i + 1))") auto

declare blank_active.simps [simp del]

definition removeChannel :: "nat \<Rightarrow> 'w poller \<Rightarrow> 'w poller" where
  "removeChannel ch p =
     p\<lparr>p_live := removeAll ch (p_live p), p_active := blank_active ch (p_last p) (p_active p)\<rparr>"

text \<open>A handler of a channel, read or write.\<close>

type_synonym 'w handlers = "nat \<Rightarrow> bool \<Rightarrow> 'w poller \<Rightarrow> 'w poller option"

definition call_handler :: "'w handlers \<Rightarrow> nat \<Rightarrow> bool \<Rightarrow> 'w poller \<Rightarrow> 'w poller option" where
  "call_handler h ch wr p = h ch wr (p\<lparr>p_calls := p_calls p @ [(ch, wr, ch \<in> set (p_live p))]\<rparr>)"

section \<open>epoll\<close>

text \<open>One entry of \<open>activeEvs_\<close>; \<open>POLLERR\<close> is handled by the read handler.\<close>

definition epoll_entry :: "'w handlers \<Rightarrow> nat option \<times> 16 word \<Rightarrow> 'w poller \<Rightarrow> 'w poller option" where
  "epoll_entry h e p =
     (case fst e of None \<Rightarrow> Some p
      | Some ch \<Rightarrow> do {
          p \<leftarrow> (if snd e AND kWriteEvent \<noteq> 0 then call_handler h ch True p else Some p);
          p \<leftarrow> (if snd e AND (kReadEvent OR POLLERR) \<noteq> 0 then call_handler h ch False p else Some p);
          if snd e AND (kReadEvent OR kWriteEvent OR POLLERR) = 0 then None else Some p
        })"

text \<open>
  The loop of \<open>loop_once\<close>, \<open>n\<close> entries before its end. The handlers leave \<open>lastActive_\<close> alone:
  only \<open>loop_once\<close> assigns it.
\<close>

primrec epoll_loop :: "'w handlers \<Rightarrow> nat \<Rightarrow> 'w poller \<Rightarrow> 'w poller option" where
  "epoll_loop h 0 p = Some (p\<lparr>p_last := - 1\<rparr>)"
| "epoll_loop h (Suc n) p =
     (let p = p\<lparr>p_last := int n\<rparr>
      in if p_exited p then Some p
         else do { p \<leftarrow> epoll_entry h (p_active p ! n) p; epoll_loop h n p })"

text \<open>\<open>evs\<close> is what \<open>epoll_wait\<close> returns, \<open>None\<close> for an interrupted wait.\<close>

definition epoll_loop_once :: "'w handlers \<Rightarrow> (nat \<times> 16 word) list option \<Rightarrow> 'w poller \<Rightarrow> 'w poller option" where
  "epoll_loop_once h evs p =
     (case evs of
        None \<Rightarrow> Some (p\<lparr>p_last := - 2\<rparr>)
      | Some es \<Rightarrow> epoll_loop h (length es) (p\<lparr>p_active := map (\<lambda>e. (Some (fst e), snd e)) es, p_last := int (length es)\<rparr>))"

section \<open>kqueue\<close>

text \<open>An entry has the end-of-file flag; the channel tells which events are enabled.\<close>

definition kqueue_entry ::
    "(nat \<Rightarrow> 'w poller \<Rightarrow> bool \<times> bool) \<Rightarrow> 'w handlers \<Rightarrow> nat option \<times> bool \<Rightarrow> 'w poller \<Rightarrow> 'w poller option" where
  "kqueue_entry enabled h e p =
     (case fst e of None \<Rightarrow> Some p
      | Some ch \<Rightarrow>
          if \<not> snd e \<and> snd (enabled ch p) then call_handler h ch True p
          else if snd e \<or> fst (enabled ch p) then call_handler h ch False p
          else None)"

text \<open>The flags of the entries are kept beside \<open>p_active\<close>, which \<open>removeChannel\<close> changes.\<close>

primrec kqueue_loop ::
    "(nat \<Rightarrow> 'w poller \<Rightarrow> bool \<times> bool) \<Rightarrow> 'w handlers \<Rightarrow> bool list \<Rightarrow> nat \<Rightarrow> 'w poller \<Rightarrow> 'w poller option" where
  "kqueue_loop enabled h flags 0 p = Some (p\<lparr>p_last := - 1\<rparr>)"
| "kqueue_loop enabled h flags (Suc n) p =
     (let p = p\<lparr>p_last := int n\<rparr>
      in do {
        p \<leftarrow> kqueue_entry enabled h (fst (p_active p ! n), flags ! n) p;
        kqueue_loop enabled h flags n p
      })"

definition kqueue_loop_once ::
    "(nat \<Rightarrow> 'w poller \<Rightarrow> bool \<times> bool) \<Rightarrow> 'w handlers \<Rightarrow> (nat \<times> bool) list option \<Rightarrow> 'w poller \<Rightarrow> 'w poller option" where
  "kqueue_loop_once enabled h evs p =
     (case evs of
        None \<Rightarrow> Some (p\<lparr>p_last := - 2\<rparr>)
      | Some es \<Rightarrow> kqueue_loop enabled h (map snd es) (length es)
          (p\<lparr>p_active := map (\<lambda>e. (Some (fst e), 0)) es, p_last := int (length es)\<rparr>))"

section \<open>What a handler does to the poller\<close>

text \<open>
  The interface between the poller and the handlers of its channels: a handler may add, update
  and remove channels, in any order, and stop the loop; it does not touch the array of events
  in another way.
\<close>

inductive poller_calls :: "'w poller \<Rightarrow> 'w poller \<Rightarrow> bool" where
  calls_none: "poller_calls p p"
| calls_add: "poller_calls p q \<Longrightarrow> epoll_add ch q = Some r \<Longrightarrow> poller_calls p r"
| calls_update: "poller_calls p q \<Longrightarrow> epoll_update ch q = Some r \<Longrightarrow> poller_calls p r"
| calls_remove: "poller_calls p q \<Longrightarrow> poller_calls p (removeChannel ch q)"
| calls_other: "poller_calls p q \<Longrightarrow> poller_calls p (q\<lparr>p_world := w, p_interest := fds, p_exited := x\<rparr>)"

text \<open>
  What is kept: the entries still to come, below \<open>n\<close>, belong to different channels, and each of
  them is live or blank.
\<close>

definition pending_live :: "nat \<Rightarrow> 'w poller \<Rightarrow> bool" where
  "pending_live n p \<longleftrightarrow> n \<le> length (p_active p) \<and> p_last p < int (length (p_active p)) \<and>
     (\<forall>i < n. \<forall>ch. fst (p_active p ! i) = Some ch \<longrightarrow> ch \<in> set (p_live p)) \<and>
     (\<forall>i < length (p_active p). \<forall>j < length (p_active p). \<forall>ch.
        fst (p_active p ! i) = Some ch \<and> fst (p_active p ! j) = Some ch \<longrightarrow> i = j)"

lemma length_blank [simp]: "length (blank_active ch i evs) = length evs"
  by (induction ch i evs rule: blank_active.induct) (simp add: blank_active.simps)

lemma blank_nth:
  "j < length evs \<Longrightarrow> fst (blank_active ch i evs ! j) = fst (evs ! j) \<or>
     fst (evs ! j) = Some ch \<and> fst (blank_active ch i evs ! j) = None"
proof (induction ch i evs rule: blank_active.induct)
  case (1 ch i evs)
  show ?case
  proof (cases "i < 0 \<or> fst (evs ! nat i) = Some ch")
    case True
    then show ?thesis using 1(2)
      by (cases "j = nat i") (auto simp: blank_active.simps [of ch i])
  next
    case False
    with 1 show ?thesis by (simp add: blank_active.simps [of ch i])
  qed
qed

lemma blank_hit:
  "j < length evs \<Longrightarrow> int j \<le> i \<Longrightarrow> i < int (length evs) \<Longrightarrow> fst (evs ! j) = Some ch \<Longrightarrow>
   \<forall>k < length evs. fst (evs ! k) = Some ch \<longrightarrow> k = j \<Longrightarrow> fst (blank_active ch i evs ! j) = None"
proof (induction ch i evs rule: blank_active.induct)
  case (1 ch i evs)
  show ?case
  proof (cases "fst (evs ! nat i) = Some ch")
    case True
    have "nat i < length evs" using 1(3,4) by linarith
    with True 1(6) have "nat i = j" by blast
    with True 1(2-4) show ?thesis by (simp add: blank_active.simps [of ch i])
  next
    case False
    with 1(5) have "int j \<noteq> i" by auto
    with 1(3,4) have i: "\<not> i < 0" "int j \<le> i - 1" "i - 1 < int (length evs)" by linarith+
    from 1(1) [OF i(1) False 1(2) i(2,3) 1(5,6)] show ?thesis
      using i(1) False by (simp add: blank_active.simps [of ch i])
  qed
qed

lemma pending_remove:
  assumes "pending_live n p" and "int n \<le> p_last p + 1"
  shows "pending_live n (removeChannel ch p)"
proof -
  let ?a = "p_active p" and ?b = "blank_active ch (p_last p) (p_active p)"
  have len: "n \<le> length ?a" "p_last p < int (length ?a)"
    and live: "\<And>i c. i < n \<Longrightarrow> fst (?a ! i) = Some c \<Longrightarrow> c \<in> set (p_live p)"
    and uniq: "\<And>i j c. i < length ?a \<Longrightarrow> j < length ?a \<Longrightarrow> fst (?a ! i) = Some c \<Longrightarrow> fst (?a ! j) = Some c \<Longrightarrow> i = j"
    using assms(1) unfolding pending_live_def by blast+
  have keep: "fst (?b ! i) = Some c \<Longrightarrow> i < length ?a \<Longrightarrow> fst (?a ! i) = Some c" for i c
    using blank_nth [of i ?a ch "p_last p"] by auto
  have "c \<noteq> ch" if "i < n" "fst (?b ! i) = Some c" for i c
  proof
    assume "c = ch"
    with that len keep have a: "fst (?a ! i) = Some ch" "i < length ?a" by auto
    have "int i \<le> p_last p" using that(1) assms(2) by linarith
    from blank_hit [OF a(2) this len(2) a(1)] uniq a that(2) show False by auto
  qed
  then show ?thesis
    using len live uniq keep unfolding pending_live_def removeChannel_def by (auto 0 4)
qed

lemma pending_calls:
  "poller_calls p q \<Longrightarrow> pending_live n p \<Longrightarrow> int n \<le> p_last p + 1 \<Longrightarrow>
   pending_live n q \<and> p_last q = p_last p \<and> p_calls q = p_calls p"
proof (induction rule: poller_calls.induct)
  case (calls_add p q ch r)
  then show ?case by (auto simp: epoll_add_def pending_live_def split: if_splits)
next
  case (calls_update p q ch r)
  then show ?case by (auto simp: epoll_update_def pending_live_def split: if_splits)
next
  case (calls_remove p q ch)
  then show ?case using pending_remove [of n q ch] by (auto simp: removeChannel_def)
next
  case (calls_other p q w fds x)
  then show ?case by (auto simp: pending_live_def)
qed simp

text \<open>
  Calls that are safe: on a live channel, or the read handler of the channel whose write handler
  was called just before, in the same entry.
\<close>

inductive calls_safe :: "(nat \<times> bool \<times> bool) list \<Rightarrow> bool" where
  safe_Nil: "calls_safe []"
| safe_live: "calls_safe cs \<Longrightarrow> calls_safe (cs @ [(ch, wr, True)])"
| safe_both: "calls_safe cs \<Longrightarrow> calls_safe (cs @ [(ch, True, True), (ch, False, live)])"

definition obeys :: "'w handlers \<Rightarrow> bool" where
  "obeys h \<longleftrightarrow> (\<forall>ch wr p p'. h ch wr p = Some p' \<longrightarrow> poller_calls p p')"

lemma call_handler_live:
  assumes "obeys h" and "pending_live n p" and "int n \<le> p_last p + 1" and "call_handler h ch wr p = Some q"
  shows "pending_live n q" and "p_last q = p_last p" and "p_calls q = p_calls p @ [(ch, wr, ch \<in> set (p_live p))]"
proof -
  let ?p = "p\<lparr>p_calls := p_calls p @ [(ch, wr, ch \<in> set (p_live p))]\<rparr>"
  have "poller_calls ?p q" using assms(1,4) by (auto simp: obeys_def call_handler_def)
  moreover have "pending_live n ?p" "int n \<le> p_last ?p + 1"
    using assms(2,3) by (simp_all add: pending_live_def)
  ultimately have "pending_live n q \<and> p_last q = p_last ?p \<and> p_calls q = p_calls ?p"
    by (rule pending_calls)
  then show "pending_live n q" "p_last q = p_last p"
    "p_calls q = p_calls p @ [(ch, wr, ch \<in> set (p_live p))]" by simp_all
qed

lemma pending_live_mono: "pending_live (Suc n) p \<Longrightarrow> pending_live n p"
  unfolding pending_live_def by (meson Suc_leD less_SucI)

lemma epoll_entry_live:
  assumes "obeys h" and "pending_live (Suc n) p" and "p_last p = int n" and "epoll_entry h (p_active p ! n) p = Some q"
    and "calls_safe (p_calls p)"
  shows "pending_live n q" and "p_last q = int n" and "calls_safe (p_calls q)"
proof -
  have *: "pending_live (Suc n) q \<and> p_last q = int n \<and> calls_safe (p_calls q)"
  proof (cases "fst (p_active p ! n)")
    case None
    with assms show ?thesis by (simp add: epoll_entry_def)
  next
    case (Some ch)
    then have live: "ch \<in> set (p_live p)" using assms(2) unfolding pending_live_def by blast
    let ?w = "snd (p_active p ! n) AND kWriteEvent \<noteq> 0"
    let ?r = "snd (p_active p ! n) AND (kReadEvent OR POLLERR) \<noteq> 0"
    obtain q1 where q1: "(if ?w then call_handler h ch True p else Some p) = Some q1"
      "(if ?r then call_handler h ch False q1 else Some q1) = Some q"
      using assms(4) Some by (auto simp: epoll_entry_def split: bind_splits if_splits)
    have n: "int (Suc n) \<le> p_last p + 1" using assms(3) by simp
    note W = call_handler_live [OF assms(1,2) n]
    have p1: "pending_live (Suc n) q1" "p_last q1 = int n"
      "p_calls q1 = p_calls p @ (if ?w then [(ch, True, True)] else [])" "\<not> ?w \<Longrightarrow> q1 = p"
      using q1(1) W [of ch True q1] assms(2,3) live by (auto split: if_splits)
    have n1: "int (Suc n) \<le> p_last q1 + 1" using p1(2) by simp
    note R = call_handler_live [OF assms(1) p1(1) n1, of ch False q]
    have "pending_live (Suc n) q" "p_last q = int n"
      "p_calls q = p_calls q1 @ (if ?r then [(ch, False, ch \<in> set (p_live q1))] else [])"
      using q1(2) R p1(1,2) by (auto split: if_splits)
    moreover have "calls_safe (p_calls q)" if "?w"
      using calculation(3) p1(3) that assms(5) safe_live [of "p_calls p" ch True] safe_both [of "p_calls p" ch]
      by simp
    moreover have "calls_safe (p_calls q)" if "\<not> ?w"
      using calculation(3) p1(3,4) that live assms(5) safe_live [of "p_calls p" ch False] by simp
    ultimately show ?thesis by blast
  qed
  then show "pending_live n q" "p_last q = int n" "calls_safe (p_calls q)"
    using pending_live_mono by blast+
qed

lemma epoll_loop_live:
  "obeys h \<Longrightarrow> pending_live n p \<Longrightarrow> calls_safe (p_calls p) \<Longrightarrow> epoll_loop h n p = Some q \<Longrightarrow>
   calls_safe (p_calls q)"
proof (induction n arbitrary: p)
  case (Suc n)
  let ?p = "p\<lparr>p_last := int n\<rparr>"
  show ?case
  proof (cases "p_exited ?p")
    case True
    with Suc.prems show ?thesis by auto
  next
    case False
    with Suc.prems(4) obtain q1 where q1: "epoll_entry h (p_active ?p ! n) ?p = Some q1" "epoll_loop h n q1 = Some q"
      by (auto simp: Let_def split: bind_splits)
    have "pending_live (Suc n) ?p" "calls_safe (p_calls ?p)"
      using Suc.prems(2,3) by (auto simp: pending_live_def)
    from epoll_entry_live [OF Suc.prems(1) this(1) _ q1(1) this(2)] Suc.IH [OF Suc.prems(1) _ _ q1(2)]
    show ?thesis by simp
  qed
qed auto

lemma pending_start:
  assumes "distinct (map fst es)" and "fst ` set es \<subseteq> set (p_live p)"
  shows "pending_live (length es)
    (p\<lparr>p_active := map (\<lambda>e. (Some (fst e), f e)) es, p_last := int (length es) - 1\<rparr>)"
proof -
  have "fst (es ! i) \<in> set (p_live p)" if "i < length es" for i
    using assms(2) that nth_mem by blast
  moreover have "i = j" if "i < length es" "j < length es" "fst (es ! i) = fst (es ! j)" for i j
    using assms(1) that by (metis distinct_conv_nth length_map nth_map)
  ultimately show ?thesis by (simp add: pending_live_def)
qed

lemma epoll_loop_last: "epoll_loop h n (p\<lparr>p_last := i\<rparr>) = epoll_loop h n p"
  by (cases n) (simp_all add: Let_def)

section \<open>Properties\<close>

text \<open>
  C5: Events of one \<open>epoll\<close> wait, each of another live channel, reach no channel that has been
  removed by the handlers of earlier entries, whatever channels the handlers add, update and
  remove: a handler is called on a live channel, or it is the read handler right after the write
  handler of the same entry.
\<close>

theorem epoll_no_stale_dispatch:
  assumes "obeys h" and "distinct (map fst es)" and "fst ` set es \<subseteq> set (p_live p)" and "p_calls p = []"
    and "epoll_loop_once h (Some es) p = Some q"
  shows "calls_safe (p_calls q)"
proof -
  let ?p = "p\<lparr>p_active := map (\<lambda>e. (Some (fst e), snd e)) es, p_last := int (length es) - 1\<rparr>"
  have "epoll_loop h (length es) ?p = Some q"
    using assms(5) epoll_loop_last [where h = h and n = "length es" and p = "p\<lparr>p_active := map (\<lambda>e. (Some (fst e), snd e)) es\<rparr>"]
    by (simp add: epoll_loop_once_def)
  with epoll_loop_live [OF assms(1) pending_start [OF assms(2,3)]] assms(4) show ?thesis
    by (simp add: safe_Nil)
qed

text \<open>A handler that closes channel 1.\<close>

definition close_one :: "'w handlers" where
  "close_one ch wr p = Some (removeChannel 1 p)"

lemma obeys_close_one: "obeys close_one"
  by (simp add: obeys_def close_one_def calls_remove calls_none)

theorem epoll_no_stale_dispatch_witness:
  "\<exists>q. epoll_loop_once close_one (Some [(1, kReadEvent), (2, kReadEvent)]) ((poller_new ())\<lparr>p_live := [1, 2]\<rparr>) = Some q \<and>
     p_calls q = [(2, False, True)] \<and> calls_safe (p_calls q)"
proof -
  obtain q where q: "epoll_loop_once close_one (Some [(1, kReadEvent), (2, kReadEvent)]) ((poller_new ())\<lparr>p_live := [1, 2]\<rparr>) = Some q"
    "p_calls q = [(2, False, True)]"
    by (simp add: epoll_loop_once_def poller_new_def epoll_entry_def call_handler_def close_one_def
        removeChannel_def blank_active.simps kReadEvent_def kWriteEvent_def POLLERR_def numeral_2_eq_2 Let_def)
  from epoll_no_stale_dispatch [OF obeys_close_one _ _ _ q(1)] q show ?thesis
    by (auto simp: poller_new_def)
qed

text \<open>
  One hazard is left: when both events of an entry are set and the write handler removes its
  own channel, the read handler of the removed channel is still called.
\<close>

theorem epoll_read_after_removal:
  assumes "snd e AND kWriteEvent \<noteq> 0" and "snd e AND (kReadEvent OR POLLERR) \<noteq> 0" and "fst e = Some ch"
    and "\<And>q. h ch True q = Some (removeChannel ch q)" and "h ch False = Some" and "ch \<in> set (p_live p)"
  shows "\<exists>q. epoll_entry h e p = Some q \<and> p_calls q = p_calls p @ [(ch, True, True), (ch, False, False)]"
proof -
  have "snd e AND (kReadEvent OR kWriteEvent OR POLLERR) \<noteq> 0"
  proof
    assume "snd e AND (kReadEvent OR kWriteEvent OR POLLERR) = 0"
    moreover have "snd e AND kWriteEvent = (snd e AND (kReadEvent OR kWriteEvent OR POLLERR)) AND kWriteEvent"
      by (rule bit_word_eqI) (auto simp: bit_and_iff bit_or_iff)
    ultimately show False using assms(1) by simp
  qed
  with assms show ?thesis by (simp add: epoll_entry_def call_handler_def removeChannel_def)
qed

theorem epoll_read_after_removal_witness:
  "\<exists>q. epoll_entry (\<lambda>ch wr p. Some (if wr then removeChannel ch p else p)) (Some 3, kReadEvent OR kWriteEvent)
      ((poller_new ())\<lparr>p_live := [3]\<rparr>) = Some q \<and> p_calls q = [(3, True, True), (3, False, False)]"
  using epoll_read_after_removal [of "(Some 3, kReadEvent OR kWriteEvent)" 3
      "\<lambda>ch wr p. Some (if wr then removeChannel ch p else p)" "(poller_new ())\<lparr>p_live := [3]\<rparr>"]
  by (simp add: poller_new_def kReadEvent_def kWriteEvent_def POLLERR_def fun_eq_iff)

text \<open>
  With \<open>kqueue\<close>, where an entry calls one handler only, every handler called in one wait is
  that of a channel that is live at that moment.
\<close>

theorem kqueue_no_stale_dispatch:
  assumes "obeys h" and "distinct (map fst es)" and "fst ` set es \<subseteq> set (p_live p)" and "p_calls p = []"
    and "kqueue_loop_once enabled h (Some es) p = Some q"
  shows "\<forall>c \<in> set (p_calls q). snd (snd c)"
proof -
  have loop: "\<forall>c \<in> set (p_calls q). snd (snd c)"
    if "pending_live n p" "\<forall>c \<in> set (p_calls p). snd (snd c)" "kqueue_loop enabled h fl n p = Some q" for n p fl
    using that
  proof (induction n arbitrary: p)
    case (Suc n)
    let ?p = "p\<lparr>p_last := int n\<rparr>" and ?e = "(fst (p_active p ! n), fl ! n)"
    obtain q1 where q1: "kqueue_entry enabled h ?e ?p = Some q1" "kqueue_loop enabled h fl n q1 = Some q"
      using Suc.prems(3) by (auto simp: Let_def split: bind_splits)
    have pl: "pending_live (Suc n) ?p" using Suc.prems(1) by (auto simp: pending_live_def)
    have "pending_live (Suc n) q1 \<and> (\<forall>c \<in> set (p_calls q1). snd (snd c))"
    proof (cases "fst (p_active p ! n)")
      case None
      with q1(1) have "q1 = ?p" by (simp add: kqueue_entry_def)
      with pl Suc.prems(2) show ?thesis by simp
    next
      case (Some ch)
      then have "ch \<in> set (p_live ?p)" using pl unfolding pending_live_def by auto
      moreover obtain wr where "call_handler h ch wr ?p = Some q1"
        using q1(1) Some by (auto simp: kqueue_entry_def split: if_splits)
      ultimately show ?thesis
        using call_handler_live [OF assms(1) pl] Suc.prems(2) by auto
    qed
    with pending_live_mono Suc.IH [OF _ _ q1(2)] show ?case by blast
  qed auto
  have last: "kqueue_loop enabled h fl n (p\<lparr>p_last := i\<rparr>) = kqueue_loop enabled h fl n p" for fl n p i
    by (cases n) (simp_all add: Let_def)
  let ?p = "p\<lparr>p_active := map (\<lambda>e. (Some (fst e), 0)) es, p_last := int (length es) - 1\<rparr>"
  have "kqueue_loop enabled h (map snd es) (length es) ?p = Some q"
    using assms(5) last [where fl = "map snd es" and n = "length es" and p = "p\<lparr>p_active := map (\<lambda>e. (Some (fst e), 0)) es\<rparr>"]
    by (simp add: kqueue_loop_once_def)
  with loop [OF pending_start [OF assms(2,3)]] assms(4) show ?thesis by auto
qed

theorem kqueue_no_stale_dispatch_witness:
  "\<exists>q. kqueue_loop_once (\<lambda>ch p. (True, False)) close_one (Some [(1, True), (2, False)])
      ((poller_new ())\<lparr>p_live := [1, 2]\<rparr>) = Some q \<and>
     p_calls q = [(2, False, True)] \<and> list_all (\<lambda>c. snd (snd c)) (p_calls q)"
proof -
  obtain q where q: "kqueue_loop_once (\<lambda>ch p. (True, False)) close_one (Some [(1, True), (2, False)])
      ((poller_new ())\<lparr>p_live := [1, 2]\<rparr>) = Some q" "p_calls q = [(2, False, True)]"
    by (simp add: poller_new_def kqueue_loop_once_def kqueue_entry_def call_handler_def close_one_def
        removeChannel_def blank_active.simps numeral_2_eq_2 Let_def)
  from kqueue_no_stale_dispatch [OF obeys_close_one _ _ _ q(1)] q show ?thesis
    by (auto simp: poller_new_def list_all_iff)
qed

end
