(* ===== verification/Handy_Threads.thy ===== *)
theory Handy_Threads
  imports Handy_Prelude "HOL-Library.Multiset"
begin

text \<open>
  \<open>SafeQueue\<close> and \<open>ThreadPool\<close> (\<open>handy/threads.h\<close>, \<open>handy/threads.cc\<close>). The operations of the
  queue hold its mutex, so they are functions of the queue's state; the threads of a pool are a
  state machine whose events are the moments between two such operations. A worker that waits on
  the condition variable sleeps until it is notified or wakes by itself.
\<close>

section \<open>SafeQueue\<close>

record 'a squeue =
  q_items :: "'a list"
  q_capacity :: nat
  q_exit :: bool

definition sq_new :: "nat \<Rightarrow> 'a squeue" where
  "sq_new cap = \<lparr>q_items = [], q_capacity = cap, q_exit = False\<rparr>"

definition sq_push :: "'a \<Rightarrow> 'a squeue \<Rightarrow> bool \<times> 'a squeue" where
  "sq_push v q =
     (if q_exit q \<or> (q_capacity q \<noteq> 0 \<and> length (q_items q) \<ge> q_capacity q) then (False, q)
      else (True, q\<lparr>q_items := q_items q @ [v]\<rparr>))"

text \<open>May \<open>wait_ready\<close> return without waiting? Then \<open>pop_wait\<close> takes the first item.\<close>

definition sq_ready :: "'a squeue \<Rightarrow> bool" where
  "sq_ready q \<longleftrightarrow> q_exit q \<or> q_items q \<noteq> []"

definition sq_pop :: "'a squeue \<Rightarrow> 'a option \<times> 'a squeue" where
  "sq_pop q = (case q_items q of [] \<Rightarrow> (None, q) | x # xs \<Rightarrow> (Some x, q\<lparr>q_items := xs\<rparr>))"

definition sq_size :: "'a squeue \<Rightarrow> nat" where
  "sq_size q = length (q_items q)"

definition sq_set_exit :: "'a squeue \<Rightarrow> 'a squeue" where
  "sq_set_exit q = q\<lparr>q_exit := True\<rparr>"

text \<open>The interface of a bounded queue, as its clients use it.\<close>

locale task_queue =
  fixes push :: "'a \<Rightarrow> 'q \<Rightarrow> bool \<times> 'q"
    and pop :: "'q \<Rightarrow> 'a option \<times> 'q"
    and items :: "'q \<Rightarrow> 'a list"
    and room :: "'q \<Rightarrow> bool"
  assumes push_room: "room q \<Longrightarrow> fst (push v q) \<and> items (snd (push v q)) = items q @ [v]"
    and push_full: "\<not> room q \<Longrightarrow> push v q = (False, q)"
    and pop_empty: "items q = [] \<Longrightarrow> pop q = (None, q)"
    and pop_item: "items q = x # xs \<Longrightarrow> fst (pop q) = Some x \<and> items (snd (pop q)) = xs"
begin

fun push_all :: "'a list \<Rightarrow> 'q \<Rightarrow> 'a list \<times> 'q" where
  "push_all [] q = ([], q)"
| "push_all (v # vs) q =
     (let (ok, q') = push v q; (ws, q'') = push_all vs q' in (if ok then v # ws else ws, q''))"

fun pop_all :: "nat \<Rightarrow> 'q \<Rightarrow> 'a list \<times> 'q" where
  "pop_all 0 q = ([], q)"
| "pop_all (Suc n) q =
     (case pop q of (None, q') \<Rightarrow> ([], q') | (Some v, q') \<Rightarrow> (let (vs, q'') = pop_all n q' in (v # vs, q'')))"

text \<open>What is accepted is what comes out, in the same order.\<close>

lemma push_all_items: "push_all vs q = (ws, q') \<Longrightarrow> items q' = items q @ ws"
proof (induction vs arbitrary: q ws q')
  case (Cons v vs)
  then show ?case
    using push_room [of q v] push_full [of q v]
    by (cases "room q"; cases "push v q") (auto simp: Let_def split: prod.splits)
qed simp

lemma pop_all_items: "pop_all n q = (vs, q') \<Longrightarrow> vs = take n (items q) \<and> items q' = drop n (items q)"
proof (induction n arbitrary: q vs q')
  case (Suc n)
  show ?case
  proof (cases "items q")
    case Nil
    with Suc.prems pop_empty [of q] show ?thesis by simp
  next
    case (Cons x xs)
    with Suc pop_item [of q x xs] show ?thesis
      by (cases "pop q") (auto simp: Let_def split: prod.splits)
  qed
qed simp

lemma fifo: "push_all vs q = (ws, q') \<Longrightarrow> items q = [] \<Longrightarrow> fst (pop_all (length ws) q') = ws"
  using push_all_items pop_all_items by (metis append_Nil fst_conv surj_pair take_all_iff order_refl)

end

definition sq_room :: "'a squeue \<Rightarrow> bool" where
  "sq_room q \<longleftrightarrow> \<not> q_exit q \<and> (q_capacity q = 0 \<or> length (q_items q) < q_capacity q)"

interpretation sq: task_queue sq_push sq_pop q_items sq_room
  by unfold_locales (auto simp: sq_push_def sq_pop_def sq_room_def)

section \<open>Tasks of the event loop\<close>

text \<open>
  \<open>EventsImp::safeCall\<close> does not look at the answer of \<open>push\<close>; the wake-up handler then runs
  tasks until the queue is empty. \<open>run\<close> is what a task does.
\<close>

definition safeCall :: "'a \<Rightarrow> 'a squeue \<Rightarrow> 'a squeue" where
  "safeCall task q = snd (sq_push task q)"

partial_function (option) run_tasks :: "('a \<Rightarrow> 'a squeue \<times> 's \<Rightarrow> ('a squeue \<times> 's) option) \<Rightarrow> 'a squeue \<times> 's \<Rightarrow> ('a squeue \<times> 's) option" where
  "run_tasks run st =
     (case sq_pop (fst st) of
        (None, q) \<Rightarrow> Some (q, snd st)
      | (Some task, q) \<Rightarrow> do { st \<leftarrow> run task (q, snd st); run_tasks run st })"

section \<open>The threads of a pool\<close>

datatype 'a worker = WLoop | WPop | WAsleep | WRun 'a | WDone

record 'a pool =
  p_queue :: "'a squeue"
  p_workers :: "'a worker list"
  p_told :: bool              \<comment> \<open>has \<open>exit\<close> notified the workers\<close>
  p_accepted :: "'a list"
  p_started :: "'a list"
  p_finished :: "'a list"

definition pool_new :: "nat \<Rightarrow> nat \<Rightarrow> 'a pool" where
  "pool_new threads cap = \<lparr>p_queue = sq_new cap, p_workers = replicate threads WLoop, p_told = False,
     p_accepted = [], p_started = [], p_finished = []\<rparr>"

datatype 'a pool_event =
    AddTask 'a nat     \<comment> \<open>and the sleeping worker \<open>notify_one\<close> picks\<close>
  | WorkerStep nat
  | Spurious nat
  | SetExit
  | NotifyExit

definition wake :: "'a worker \<Rightarrow> 'a worker" where
  "wake w = (if w = WAsleep then WPop else w)"

text \<open>\<open>addTask\<close>: \<open>notify_one\<close> wakes one of the sleeping workers, if there is one.\<close>

definition notify_one :: "nat \<Rightarrow> 'a worker list \<Rightarrow> 'a worker list" where
  "notify_one i ws =
     (if WAsleep \<in> set ws
      then let j = (if i < length ws \<and> ws ! i = WAsleep then i else length (takeWhile (\<lambda>w. w \<noteq> WAsleep) ws))
           in ws[j := WPop]
      else ws)"

definition add_task :: "'a \<Rightarrow> nat \<Rightarrow> 'a pool \<Rightarrow> 'a pool" where
  "add_task t i p =
     (let (ok, q) = sq_push t (p_queue p)
      in if ok then p\<lparr>p_queue := q, p_accepted := p_accepted p @ [t], p_workers := notify_one i (p_workers p)\<rparr>
         else p)"

text \<open>One step of a worker's loop in \<open>ThreadPool::start\<close>.\<close>

definition worker_step :: "nat \<Rightarrow> 'a pool \<Rightarrow> 'a pool option" where
  "worker_step i p =
     (if i < length (p_workers p)
      then
        let put = (\<lambda>w. (p_workers p)[i := w]) in
        case p_workers p ! i of
          WLoop \<Rightarrow> Some (p\<lparr>p_workers := put (if q_exit (p_queue p) then WDone else WPop)\<rparr>)
        | WPop \<Rightarrow>
            if sq_ready (p_queue p)
            then (case sq_pop (p_queue p) of
                    (None, q) \<Rightarrow> Some (p\<lparr>p_workers := put WLoop\<rparr>)
                  | (Some t, q) \<Rightarrow> Some (p\<lparr>p_queue := q, p_started := p_started p @ [t], p_workers := put (WRun t)\<rparr>))
            else Some (p\<lparr>p_workers := put WAsleep\<rparr>)
        | WRun t \<Rightarrow> Some (p\<lparr>p_finished := p_finished p @ [t], p_workers := put WLoop\<rparr>)
        | _ \<Rightarrow> None
      else None)"

fun pool_do :: "'a pool_event \<Rightarrow> 'a pool \<Rightarrow> 'a pool option" where
  "pool_do (AddTask t i) p = Some (add_task t i p)"
| "pool_do (WorkerStep i) p = worker_step i p"
| "pool_do (Spurious i) p =
     (if i < length (p_workers p) then Some (p\<lparr>p_workers := (p_workers p)[i := wake (p_workers p ! i)]\<rparr>) else None)"
| "pool_do SetExit p = Some (p\<lparr>p_queue := sq_set_exit (p_queue p)\<rparr>)"
| "pool_do NotifyExit p =
     (if q_exit (p_queue p) then Some (p\<lparr>p_workers := map wake (p_workers p), p_told := True\<rparr>) else None)"

inductive pool_reach :: "'a pool \<Rightarrow> 'a pool \<Rightarrow> bool" for p0 where
  pool_init: "pool_reach p0 p0"
| pool_step: "pool_reach p0 p \<Longrightarrow> pool_do e p = Some p' \<Longrightarrow> pool_reach p0 p'"

section \<open>The invariant of a pool\<close>

fun running :: "'a worker \<Rightarrow> 'a multiset" where
  "running (WRun t) = {#t#}"
| "running _ = {#}"

definition awake :: "'a worker \<Rightarrow> bool" where
  "awake w \<longleftrightarrow> w \<noteq> WAsleep \<and> w \<noteq> WDone"

definition pool_ok :: "'a pool \<Rightarrow> bool" where
  "pool_ok p \<longleftrightarrow>
     p_started p @ q_items (p_queue p) = p_accepted p \<and>
     mset (p_started p) = mset (p_finished p) + sum_list (map running (p_workers p)) \<and>
     (q_capacity (p_queue p) \<noteq> 0 \<longrightarrow> length (q_items (p_queue p)) \<le> q_capacity (p_queue p)) \<and>
     (WAsleep \<in> set (p_workers p) \<and> q_items (p_queue p) \<noteq> [] \<and> \<not> q_exit (p_queue p) \<longrightarrow> (\<exists>w \<in> set (p_workers p). awake w)) \<and>
     (p_told p \<longrightarrow> q_exit (p_queue p) \<and> WAsleep \<notin> set (p_workers p)) \<and>
     (WDone \<in> set (p_workers p) \<longrightarrow> q_exit (p_queue p))"

lemma running_update:
  "i < length ws \<Longrightarrow> sum_list (map running (ws[i := w])) + running (ws ! i) = sum_list (map running ws) + running w"
proof (induction ws arbitrary: i)
  case (Cons a ws)
  then show ?case by (cases i) (auto simp: ac_simps)
qed simp

lemma running_wake [simp]: "running (wake w) = running w"
  by (cases w) (simp_all add: wake_def)

lemma notify_one_props:
  shows "length (notify_one i ws) = length ws"
    and "sum_list (map running (notify_one i ws)) = sum_list (map running ws)"
    and "WAsleep \<in> set ws \<Longrightarrow> WPop \<in> set (notify_one i ws)"
    and "set (notify_one i ws) \<subseteq> insert WPop (set ws)"
    and "WAsleep \<notin> set ws \<Longrightarrow> notify_one i ws = ws"
proof -
  define j where "j = (if i < length ws \<and> ws ! i = WAsleep then i else length (takeWhile (\<lambda>w. w \<noteq> WAsleep) ws))"
  have j: "j < length ws \<and> ws ! j = WAsleep" if "WAsleep \<in> set ws"
  proof (cases "i < length ws \<and> ws ! i = WAsleep")
    case False
    from that obtain a b where "ws = a @ WAsleep # b" "WAsleep \<notin> set a" by (metis split_list_first)
    then have "takeWhile (\<lambda>w. w \<noteq> WAsleep) ws = a" by (simp add: takeWhile_neq)
    with False \<open>ws = a @ WAsleep # b\<close> show ?thesis by (auto simp: j_def)
  qed (simp add: j_def)
  have eq: "notify_one i ws = (if WAsleep \<in> set ws then ws[j := WPop] else ws)"
    by (simp add: notify_one_def j_def)
  show "length (notify_one i ws) = length ws" by (simp add: eq)
  show "sum_list (map running (notify_one i ws)) = sum_list (map running ws)"
    using j running_update [of j ws WPop] by (auto simp: eq)
  show "WAsleep \<in> set ws \<Longrightarrow> WPop \<in> set (notify_one i ws)"
    using j by (simp add: eq set_update_memI)
  show "set (notify_one i ws) \<subseteq> insert WPop (set ws)"
    using set_update_subset_insert [of ws j WPop] by (auto simp: eq)
  show "WAsleep \<notin> set ws \<Longrightarrow> notify_one i ws = ws" by (simp add: eq)
qed

lemma pool_ok_add:
  assumes "pool_ok p"
  shows "pool_ok (add_task t i p)"
proof (cases "fst (sq_push t (p_queue p))")
  case False
  then show ?thesis using assms by (simp add: add_task_def Let_def split_beta)
next
  case True
  then have push: "sq_push t (p_queue p) = (True, (p_queue p)\<lparr>q_items := q_items (p_queue p) @ [t]\<rparr>)"
    "\<not> q_exit (p_queue p)" "q_capacity (p_queue p) = 0 \<or> length (q_items (p_queue p)) < q_capacity (p_queue p)"
    by (auto simp: sq_push_def split: if_splits)
  let ?ws = "notify_one i (p_workers p)"
  have "\<exists>w \<in> set ?ws. awake w" if "WAsleep \<in> set ?ws"
  proof -
    have "WAsleep \<in> set (p_workers p)" using that notify_one_props(4) [of i "p_workers p"] by auto
    from notify_one_props(3) [OF this, of i] show ?thesis by (auto simp: awake_def)
  qed
  moreover have "WAsleep \<notin> set ?ws" if "p_told p"
    using that assms push(2) by (simp add: pool_ok_def)
  moreover have "WDone \<notin> set ?ws"
    using assms push(2) notify_one_props(4) [of i "p_workers p"] by (auto simp: pool_ok_def)
  ultimately show ?thesis
    using assms push notify_one_props(2) [of i "p_workers p"]
    by (auto simp: add_task_def pool_ok_def)
qed

lemma pool_ok_put:
  assumes "i < length ws"
  shows "\<And>w. set (ws[i := w]) \<subseteq> insert w (set ws)" and "w \<in> set (ws[i := w])"
  using assms by (simp_all add: set_update_subset_insert set_update_memI)

lemma pool_ok_worker:
  assumes "pool_ok p" and "worker_step i p = Some p'"
  shows "pool_ok p'"
proof -
  let ?ws = "p_workers p"
  from assms(2) have i: "i < length ?ws" by (auto simp: worker_step_def split: if_splits)
  note sub = pool_ok_put(1) [OF i] and mem = pool_ok_put(2) [OF i] and run = running_update [OF i]
  show ?thesis
  proof (cases "?ws ! i")
    case WLoop
    let ?w = "if q_exit (p_queue p) then WDone else WPop"
    have p': "p' = p\<lparr>p_workers := ?ws[i := ?w]\<rparr>"
      using assms(2) i WLoop by (simp add: worker_step_def Let_def)
    have "\<exists>w \<in> set (?ws[i := ?w]). awake w" if "\<not> q_exit (p_queue p)"
      using mem [of WPop] that by (auto simp: awake_def)
    with assms(1) run [of ?w] sub [of ?w] WLoop show ?thesis
      by (auto simp: p' pool_ok_def split: if_splits)
  next
    case WPop
    show ?thesis
    proof (cases "sq_ready (p_queue p)")
      case False
      then have p': "p' = p\<lparr>p_workers := ?ws[i := WAsleep]\<rparr>" "q_items (p_queue p) = []" "\<not> q_exit (p_queue p)"
        using assms(2) i WPop by (auto simp: worker_step_def Let_def sq_ready_def)
      with assms(1) run [of WAsleep] sub [of WAsleep] WPop show ?thesis by (auto simp: pool_ok_def)
    next
      case ready: True
      show ?thesis
      proof (cases "q_items (p_queue p)")
        case Nil
        then have p': "p' = p\<lparr>p_workers := ?ws[i := WLoop]\<rparr>"
          using assms(2) i WPop ready by (simp add: worker_step_def Let_def sq_pop_def)
        with assms(1) Nil run [of WLoop] sub [of WLoop] WPop show ?thesis by (auto simp: pool_ok_def)
      next
        case (Cons x xs)
        then have p': "p' = p\<lparr>p_queue := (p_queue p)\<lparr>q_items := xs\<rparr>, p_started := p_started p @ [x], p_workers := ?ws[i := WRun x]\<rparr>"
          using assms(2) i WPop ready by (simp add: worker_step_def Let_def sq_pop_def)
        have "\<exists>w \<in> set (?ws[i := WRun x]). awake w" using mem [of "WRun x"] by (auto simp: awake_def)
        with assms(1) Cons run [of "WRun x"] sub [of "WRun x"] WPop show ?thesis
          by (auto simp: p' pool_ok_def add.assoc)
      qed
    qed
  next
    case (WRun t)
    then have p': "p' = p\<lparr>p_finished := p_finished p @ [t], p_workers := ?ws[i := WLoop]\<rparr>"
      using assms(2) i by (simp add: worker_step_def Let_def)
    have "\<exists>w \<in> set (?ws[i := WLoop]). awake w" using mem [of WLoop] by (auto simp: awake_def)
    with assms(1) run [of WLoop] sub [of WLoop] WRun show ?thesis
      by (auto simp: p' pool_ok_def add.assoc ac_simps)
  qed (use assms(2) i in \<open>simp_all add: worker_step_def Let_def\<close>)
qed

lemma pool_ok_step: "pool_ok p \<Longrightarrow> pool_do e p = Some p' \<Longrightarrow> pool_ok p'"
proof (cases e)
  case (Spurious i)
  assume ok: "pool_ok p" and "pool_do e p = Some p'"
  then have i: "i < length (p_workers p)" and p': "p' = p\<lparr>p_workers := (p_workers p)[i := wake (p_workers p ! i)]\<rparr>"
    using Spurious by (auto split: if_splits)
  let ?w = "wake (p_workers p ! i)"
  have w: "?w \<noteq> WAsleep" "?w = WDone \<Longrightarrow> WDone \<in> set (p_workers p)"
    using i by (auto simp: wake_def split: if_splits) (metis nth_mem)
  have "\<exists>w \<in> set ((p_workers p)[i := ?w]). awake w" if "\<not> q_exit (p_queue p)"
    using pool_ok_put(2) [OF i, of ?w] w ok that by (auto simp: awake_def pool_ok_def)
  with ok w running_update [OF i, of ?w] pool_ok_put(1) [OF i, of ?w] show ?thesis
    by (auto simp: p' pool_ok_def)
next
  case NotifyExit
  assume ok: "pool_ok p" and "pool_do e p = Some p'"
  then have p': "p' = p\<lparr>p_workers := map wake (p_workers p), p_told := True\<rparr>" "q_exit (p_queue p)"
    using NotifyExit by (auto split: if_splits)
  have "WAsleep \<notin> wake ` set (p_workers p)" by (auto simp: wake_def split: if_splits)
  with ok p' show ?thesis by (simp add: pool_ok_def comp_def)
qed (auto simp: pool_ok_add pool_ok_worker, auto simp: pool_ok_def sq_set_exit_def)

lemma pool_reach_ok: "pool_reach p0 p \<Longrightarrow> pool_ok p0 \<Longrightarrow> pool_ok p"
  by (induction rule: pool_reach.induct) (auto intro: pool_ok_step)

lemma pool_new_ok: "pool_ok (pool_new n cap)"
  by (induction n) (simp_all add: pool_ok_def pool_new_def sq_new_def)

section \<open>Properties\<close>

text \<open>
  C7: A thread pool loses no task and runs none twice: in every state its threads can reach, the
  tasks taken out so far, followed by those waiting, are exactly the accepted ones in the order
  of their acceptance; each task taken out is being run by one worker or finished; and a
  capacity other than 0 bounds the waiting tasks.
\<close>

theorem pool_runs_each_task_once:
  assumes "pool_reach (pool_new n cap) p"
  shows "p_started p @ q_items (p_queue p) = p_accepted p \<and>
    mset (p_started p) = mset (p_finished p) + sum_list (map running (p_workers p)) \<and>
    (q_capacity (p_queue p) \<noteq> 0 \<longrightarrow> length (q_items (p_queue p)) \<le> q_capacity (p_queue p))"
  using pool_reach_ok [OF assms pool_new_ok] by (simp add: pool_ok_def)

primrec pool_run :: "'a pool_event list \<Rightarrow> 'a pool \<Rightarrow> 'a pool option" where
  "pool_run [] p = Some p"
| "pool_run (e # es) p = do { p \<leftarrow> pool_do e p; pool_run es p }"

lemma pool_run_reach: "pool_reach p0 p \<Longrightarrow> pool_run es p = Some p' \<Longrightarrow> pool_reach p0 p'"
  by (induction es arbitrary: p) (auto intro: pool_step split: bind_splits)

definition pool_demo :: "nat pool" where
  "pool_demo = (pool_new 1 5)\<lparr>p_queue := (sq_new 5)\<lparr>q_items := [8]\<rparr>, p_workers := [WRun 7],
     p_accepted := [7, 8], p_started := [7]\<rparr>"

lemma pool_demo_reach: "pool_reach (pool_new 1 5) pool_demo"
proof (rule pool_run_reach [OF pool_init])
  show "pool_run [AddTask 7 0, AddTask 8 0, WorkerStep 0, WorkerStep 0] (pool_new 1 5) = Some pool_demo"
    by (simp add: pool_demo_def pool_new_def worker_step_def add_task_def sq_push_def sq_new_def sq_pop_def
        sq_ready_def notify_one_def Let_def)
qed

lemma pool_demo_state: "p_accepted pool_demo = [7, 8]" "p_started pool_demo = [7]"
  by (simp_all add: pool_demo_def)

theorem pool_runs_each_task_once_witness:
  "p_started pool_demo @ q_items (p_queue pool_demo) = [7, 8]"
  using pool_runs_each_task_once [OF pool_demo_reach] by (simp add: pool_demo_state)

text \<open>
  C8: No wake-up is lost. While tasks wait and the pool is not told to exit, some worker is not
  asleep if any sleeps, so the tasks are not left behind by a missed \<open>notify_one\<close>; and once
  \<open>exit\<close> has notified its workers none is asleep and none falls asleep again.
\<close>

theorem pool_no_lost_wakeup:
  assumes "pool_reach (pool_new n cap) p"
  shows "(q_items (p_queue p) \<noteq> [] \<and> \<not> q_exit (p_queue p) \<and> WAsleep \<in> set (p_workers p) \<longrightarrow>
      (\<exists>w \<in> set (p_workers p). awake w)) \<and>
    (p_told p \<longrightarrow> WAsleep \<notin> set (p_workers p)) \<and>
    (p_told p \<and> pool_do e p = Some p' \<longrightarrow> WAsleep \<notin> set (p_workers p'))"
proof -
  have ok: "pool_ok p" by (rule pool_reach_ok [OF assms pool_new_ok])
  have told: "p_told p'" if "p_told p" "pool_do e p = Some p'"
    using that by (cases e)
      (auto simp: add_task_def worker_step_def Let_def split: prod.splits if_splits worker.splits option.splits)
  have "WAsleep \<notin> set (p_workers p')" if "p_told p" "pool_do e p = Some p'"
    using pool_ok_step [OF ok that(2)] told [OF that] by (simp add: pool_ok_def)
  with ok show ?thesis by (auto simp: pool_ok_def)
qed

theorem pool_no_lost_wakeup_witness:
  "WAsleep \<notin> set (p_workers (the (pool_do NotifyExit (the (pool_do SetExit pool_demo)))))"
proof -
  have "pool_do SetExit pool_demo = Some (pool_demo\<lparr>p_queue := sq_set_exit (p_queue pool_demo)\<rparr>)"
    by simp
  moreover from this have r: "pool_reach (pool_new 1 5) (pool_demo\<lparr>p_queue := sq_set_exit (p_queue pool_demo)\<rparr>)"
    by (rule pool_step [OF pool_demo_reach])
  moreover have n: "pool_do NotifyExit (pool_demo\<lparr>p_queue := sq_set_exit (p_queue pool_demo)\<rparr>) =
      Some (pool_demo\<lparr>p_queue := sq_set_exit (p_queue pool_demo), p_workers := map wake (p_workers pool_demo), p_told := True\<rparr>)"
    by (simp add: sq_set_exit_def)
  moreover have "WAsleep \<notin> set (p_workers (pool_demo\<lparr>p_queue := sq_set_exit (p_queue pool_demo), p_workers := map wake (p_workers pool_demo), p_told := True\<rparr>))"
    using pool_no_lost_wakeup [OF pool_step [OF r n]] by simp
  ultimately show ?thesis by simp
qed

section \<open>join and the destructor of the pool\<close>

text \<open>\<open>join\<close> returns when every worker has; the destructor asserts that \<open>exit\<close> was called and prints how many tasks it drops.\<close>

definition pool_joined :: "'a pool \<Rightarrow> bool" where
  "pool_joined p \<longleftrightarrow> list_all (\<lambda>w. w = WDone) (p_workers p)"

definition pool_destroy :: "'a pool \<Rightarrow> nat option" where
  "pool_destroy p = (if q_exit (p_queue p) then Some (sq_size (p_queue p)) else None)"

text \<open>\<open>ThreadPool::exit\<close>: the queue is told and every waiting worker is notified.\<close>

definition pool_exit :: "'a pool \<Rightarrow> 'a pool option" where
  "pool_exit p = do { p \<leftarrow> pool_do SetExit p; pool_do NotifyExit p }"

definition weight :: "'a worker \<Rightarrow> nat" where
  "weight w = (case w of WDone \<Rightarrow> 0 | WLoop \<Rightarrow> 1 | WRun _ \<Rightarrow> 2 | WPop \<Rightarrow> 3 | WAsleep \<Rightarrow> 4)"

lemma weight_update:
  "i < length ws \<Longrightarrow> sum_list (map weight (ws[i := w])) + weight (ws ! i) = sum_list (map weight ws) + weight w"
proof (induction ws arbitrary: i)
  case (Cons a ws)
  then show ?case by (cases i) auto
qed simp

text \<open>Once the queue has been told to exit every step brings a worker nearer to its end.\<close>

lemma worker_step_exiting:
  assumes "worker_step i p = Some p'" and "q_exit (p_queue p)"
  shows "sum_list (map weight (p_workers p')) < sum_list (map weight (p_workers p))" and "q_exit (p_queue p')"
proof -
  let ?ws = "p_workers p"
  from assms(1) have i: "i < length ?ws" by (auto simp: worker_step_def split: if_splits)
  note u = weight_update [OF i]
  show "q_exit (p_queue p')"
    using assms by (auto simp: worker_step_def Let_def sq_pop_def split: if_splits worker.splits list.splits)
  have "\<exists>w. p_workers p' = ?ws[i := w] \<and> weight w < weight (?ws ! i)"
    using assms i by (auto simp: worker_step_def Let_def sq_pop_def sq_ready_def weight_def split: if_splits worker.splits list.splits)
  then obtain w where "p_workers p' = ?ws[i := w]" "weight w < weight (?ws ! i)" by blast
  with u [of w] show "sum_list (map weight (p_workers p')) < sum_list (map weight ?ws)" by simp
qed

lemma worker_stuck: "i < length (p_workers p) \<Longrightarrow> worker_step i p = None \<Longrightarrow> p_workers p ! i = WDone \<or> p_workers p ! i = WAsleep"
  by (cases "p_workers p ! i") (auto simp: worker_step_def Let_def split: if_splits prod.splits option.splits)

lemma pool_run_exiting:
  "pool_run (map WorkerStep is) p = Some p' \<Longrightarrow> q_exit (p_queue p) \<Longrightarrow>
   length is + sum_list (map weight (p_workers p')) \<le> sum_list (map weight (p_workers p)) \<and> q_exit (p_queue p')"
proof (induction "is" arbitrary: p)
  case (Cons i "is")
  then obtain p1 where p1: "worker_step i p = Some p1" "pool_run (map WorkerStep is) p1 = Some p'"
    by (auto split: bind_splits)
  from Cons.IH [OF p1(2)] worker_step_exiting [OF p1(1) Cons.prems(2)] show ?case by auto
qed simp

lemma worker_step_length: "worker_step i p = Some p' \<Longrightarrow> length (p_workers p') = length (p_workers p)"
  by (auto simp: worker_step_def Let_def split: if_splits worker.splits prod.splits option.splits)

lemma pool_do_length: "pool_do e p = Some p' \<Longrightarrow> length (p_workers p') = length (p_workers p)"
  by (cases e) (auto simp: worker_step_length add_task_def notify_one_props(1) split_beta Let_def split: if_splits)

lemma pool_reach_length: "pool_reach p0 p \<Longrightarrow> length (p_workers p) = length (p_workers p0)"
  by (induction rule: pool_reach.induct) (auto dest: pool_do_length)

lemma weights_bound: "WAsleep \<notin> set ws \<Longrightarrow> sum_list (map weight ws) \<le> 3 * length ws"
  by (induction ws) (auto simp: weight_def split: worker.splits)

text \<open>
  C26: Once \<open>exit\<close> has been called \<open>join\<close> returns, if the tasks do: in any schedule the threads of a pool
  of \<open>n\<close> take at most \<open>3 n\<close> steps in all, and when none can take another every one of them has returned. The
  destructor is then allowed, and drops the tasks still in the queue.
\<close>

theorem pool_exit_joins:
  assumes "pool_reach (pool_new n cap) p" and "p_told p" and "pool_run (map WorkerStep is) p = Some p'"
  shows "length is \<le> 3 * n \<and> ((\<forall>i. worker_step i p' = None) \<longrightarrow> pool_joined p') \<and>
    pool_destroy p' = Some (length (q_items (p_queue p')))"
proof -
  have ok: "pool_ok p" by (rule pool_reach_ok [OF assms(1) pool_new_ok])
  then have ex: "q_exit (p_queue p)" "WAsleep \<notin> set (p_workers p)" using assms(2) by (simp_all add: pool_ok_def)
  have len: "length (p_workers p) = n" using pool_reach_length [OF assms(1)] by (simp add: pool_new_def)
  note run = pool_run_exiting [OF assms(3) ex(1)]
  have reach: "pool_reach (pool_new n cap) p'" by (rule pool_run_reach [OF assms(1,3)])
  have "p_told p'" using assms(2,3)
  proof (induction "is" arbitrary: p)
    case (Cons i "is")
    then obtain p1 where p1: "worker_step i p = Some p1" "pool_run (map WorkerStep is) p1 = Some p'"
      by (auto split: bind_splits)
    have "p_told p1" using p1(1) Cons.prems(1)
      by (auto simp: worker_step_def Let_def split: if_splits worker.splits prod.splits option.splits)
    from Cons.IH [OF this p1(2)] show ?case .
  qed simp
  then have "WAsleep \<notin> set (p_workers p')" using pool_reach_ok [OF reach pool_new_ok] by (simp add: pool_ok_def)
  then have "pool_joined p'" if "\<forall>i. worker_step i p' = None"
    using worker_stuck [of _ p'] that by (auto simp: pool_joined_def list_all_length) (metis nth_mem)
  with run weights_bound [OF ex(2)] len show ?thesis by (auto simp: pool_destroy_def sq_size_def)
qed

theorem pool_exit_joins_witness:
  "pool_destroy (the (pool_run (map WorkerStep [0]) (the (pool_exit pool_demo)))) = Some 1"
proof -
  let ?p = "pool_demo\<lparr>p_queue := sq_set_exit (p_queue pool_demo)\<rparr>"
  let ?q = "?p\<lparr>p_workers := map wake (p_workers pool_demo), p_told := True\<rparr>"
  have s: "pool_do SetExit pool_demo = Some ?p" by simp
  have n: "pool_do NotifyExit ?p = Some ?q" by (simp add: sq_set_exit_def)
  have r: "pool_reach (pool_new 1 5) ?q" by (rule pool_step [OF pool_step [OF pool_demo_reach s] n])
  have e: "pool_exit pool_demo = Some ?q" unfolding pool_exit_def s using n by simp
  let ?z = "?q\<lparr>p_finished := [7], p_workers := [WLoop]\<rparr>"
  have run: "pool_run (map WorkerStep [0]) ?q = Some ?z"
    by (simp add: worker_step_def pool_demo_def wake_def pool_new_def)
  have "p_told ?q" by simp
  from pool_exit_joins [OF r this run] show ?thesis
    by (simp only: e run option.sel) (simp add: pool_demo_def sq_set_exit_def)
qed

text \<open>
  The queue between threads is first in, first out: the items that \<open>push\<close> accepts from any
  sequence of offers come out of \<open>pop_wait\<close> in the order of the offers.
\<close>

theorem safe_queue_fifo:
  "(let (ws, q) = sq.push_all vs (sq_new cap) in fst (sq.pop_all (length ws) q) = ws)"
  using sq.fifo [of vs "sq_new cap"] by (auto simp: sq_new_def Let_def split: prod.splits)

end
