(* ===== verification/Handy_Conf.thy ===== *)
theory Handy_Conf
  imports Handy_Prelude
begin

text \<open>
  The configuration file reader (\<open>handy/conf.h\<close>, \<open>handy/conf.cc\<close>). A line is scanned as a C
  string: the scanner's pointer is the rest of the line before its terminating zero. The file
  is its bytes; \<open>values_\<close> is a \<open>std::map\<close> from keys to lists of values.
\<close>

section \<open>LineScanner\<close>

record scanner =
  ls_p :: bytes
  ls_err :: bool

definition skipSpaces :: "scanner \<Rightarrow> scanner" where
  "skipSpaces ls = (if ls_err ls then ls else ls\<lparr>ls_p := dropWhile isspace (ls_p ls)\<rparr>)"

definition rstrip :: "bytes \<Rightarrow> bytes" where
  "rstrip s = rev (dropWhile isspace (rev s))"

text \<open>The character at the pointer, the zero at the end of the line.\<close>

definition cur :: "scanner \<Rightarrow> char" where
  "cur ls = (case ls_p ls of [] \<Rightarrow> NUL | c # s \<Rightarrow> c)"

definition peekChar :: "scanner \<Rightarrow> char \<times> scanner" where
  "peekChar ls = (let ls = skipSpaces ls in (cur ls, ls))"

definition skip :: "nat \<Rightarrow> scanner \<Rightarrow> scanner" where
  "skip i ls = ls\<lparr>ls_p := drop i (ls_p ls)\<rparr>"

text \<open>
  \<open>match\<close> steps over the character whatever it is. At the end of the line that is the
  terminating zero; the scanner is not used after that.
\<close>

definition match :: "char \<Rightarrow> scanner \<Rightarrow> scanner" where
  "match c ls = (let ls = skipSpaces ls in ls\<lparr>ls_err := (cur ls \<noteq> c), ls_p := tl (ls_p ls)\<rparr>)"

definition consumeTill :: "char \<Rightarrow> scanner \<Rightarrow> bytes \<times> scanner" where
  "consumeTill c ls =
     (let ls = skipSpaces ls;
          n = (if ls_err ls then 0 else length (takeWhile (\<lambda>x. x \<noteq> c) (ls_p ls)));
          e = drop n (ls_p ls)
      in if (case e of [] \<Rightarrow> NUL | x # _ \<Rightarrow> x) \<noteq> c then ([], ls\<lparr>ls_err := True\<rparr>)
         else (rstrip (take n (ls_p ls)), ls\<lparr>ls_p := e\<rparr>))"

text \<open>The scan of \<open>consumeTillEnd\<close>: it stops one character after the first white space.\<close>

fun till_end :: "bool \<Rightarrow> bytes \<Rightarrow> nat" where
  "till_end wasspace [] = 0"
| "till_end wasspace (c # s) =
     (if c = CHR '';'' \<or> c = CHR ''#'' then 0
      else if wasspace then 0
      else Suc (till_end (isspace c) s))"

definition consumeTillEnd :: "scanner \<Rightarrow> bytes \<times> scanner" where
  "consumeTillEnd ls =
     (let ls = skipSpaces ls;
          n = (if ls_err ls then 0 else till_end False (ls_p ls))
      in (rstrip (take n (ls_p ls)), ls\<lparr>ls_p := drop n (ls_p ls)\<rparr>))"

section \<open>parse\<close>

definition makeKey :: "bytes \<Rightarrow> bytes \<Rightarrow> bytes" where
  "makeKey section name = map tolower (section @ ''.'' @ name)"

type_synonym conf_values = "(bytes \<times> bytes list) list"

text \<open>\<open>values_[key].push_back(value)\<close>.\<close>

definition push_value :: "bytes \<Rightarrow> bytes \<Rightarrow> conf_values \<Rightarrow> conf_values" where
  "push_value k v m = map_put k (case map_of m k of None \<Rightarrow> [v] | Some vs \<Rightarrow> vs @ [v]) m"

record conf_state =
  cf_section :: bytes
  cf_key :: bytes
  cf_err :: bool
  cf_values :: conf_values

text \<open>\<open>fgets(ln, n, file)\<close>: a line with its line feed, at most \<open>n - 1\<close> bytes.\<close>

definition fgets :: "nat \<Rightarrow> bytes \<Rightarrow> (bytes \<times> bytes) option" where
  "fgets n s =
     (if s = [] \<or> n < 2 then None
      else let k = min (n - 1) (Suc (length (takeWhile (\<lambda>c. c \<noteq> LF) s))) in Some (take k s, drop k s))"

definition MAX_LINE :: nat where "MAX_LINE = 16 * 1024"

text \<open>The body of the loop of \<open>parse\<close> for one line.\<close>

definition parse_line :: "bytes \<Rightarrow> conf_state \<Rightarrow> conf_state" where
  "parse_line ln st =
     (let str = takeWhile (\<lambda>c. c \<noteq> NUL) ln;
          (c, ls) = peekChar \<lparr>ls_p = str, ls_err = False\<rparr>
      in if c = CHR '';'' \<or> c = CHR ''#'' \<or> c = NUL then st
         else if c = CHR ''['' then
           let (section, ls) = consumeTill (CHR '']'') (skip 1 ls)
           in st\<lparr>cf_section := section, cf_err := ls_err (match (CHR '']'') ls), cf_key := []\<rparr>
         else if isspace (hd str) then
           (if cf_key st \<noteq> []
            then st\<lparr>cf_values := push_value (makeKey (cf_section st) (cf_key st)) (fst (consumeTill NUL ls)) (cf_values st)\<rparr>
            else st\<lparr>cf_err := True\<rparr>)
         else
           let lsc = ls;
               (key, ls) = consumeTill (CHR ''='') ls;
               (c, ls) = peekChar ls;
               (key, err, ls) =
                 (if c = CHR ''='' then (key, cf_err st, skip 1 ls)
                  else let (key, ls) = consumeTill (CHR '':'') lsc; ls = match (CHR '':'') ls
                       in (key, ls_err ls, ls));
               (v, ls) = consumeTillEnd ls
           in st\<lparr>cf_key := key, cf_err := err,
                cf_values := push_value (makeKey (cf_section st) key) v (cf_values st)\<rparr>)"

lemma fgets_shorter: "fgets n s = Some (ln, rest) \<Longrightarrow> length rest < length s"
  by (auto simp: fgets_def Let_def split: if_splits)

function parse_lines :: "nat \<Rightarrow> bytes \<Rightarrow> conf_state \<Rightarrow> nat \<times> conf_state" where
  "parse_lines lineno s st =
     (if cf_err st then (lineno, st)
      else case fgets MAX_LINE s of
        None \<Rightarrow> (lineno, st)
      | Some (ln, rest) \<Rightarrow> parse_lines (Suc lineno) rest (parse_line ln st))"
  by pat_completeness auto
termination
  by (relation "measure (\<lambda>(lineno, s, st). length s)") (auto dest: fgets_shorter)

declare parse_lines.simps [simp del]

text \<open>\<open>file\<close> is the contents of the file, \<open>None\<close> if \<open>fopen\<close> fails. The answer is the result and \<open>values_\<close>.\<close>

definition conf_parse :: "bytes option \<Rightarrow> conf_values \<Rightarrow> int \<times> conf_values" where
  "conf_parse file m =
     (case file of None \<Rightarrow> (- 1, m)
      | Some s \<Rightarrow>
          let (lineno, st) = parse_lines 0 s \<lparr>cf_section = [], cf_key = [], cf_err = False, cf_values = m\<rparr>
          in (if cf_err st then int lineno else 0, cf_values st))"

section \<open>Lookups\<close>

definition conf_get :: "conf_values \<Rightarrow> bytes \<Rightarrow> bytes \<Rightarrow> bytes \<Rightarrow> bytes" where
  "conf_get m section name def = (case map_of m (makeKey section name) of None \<Rightarrow> def | Some vs \<Rightarrow> last vs)"

definition conf_getStrings :: "conf_values \<Rightarrow> bytes \<Rightarrow> bytes \<Rightarrow> bytes list" where
  "conf_getStrings m section name = (case map_of m (makeKey section name) of None \<Rightarrow> [] | Some vs \<Rightarrow> vs)"

text \<open>\<open>strtol(s, &end, 0)\<close>: \<open>0x\<close> makes the number hexadecimal, a leading \<open>0\<close> octal.\<close>

definition digit_val :: "char \<Rightarrow> nat" where
  "digit_val c =
     (let n = of_char c :: nat
      in if isdigit c then n - 48
         else if 97 \<le> n \<and> n \<le> 122 then n - 87
         else if 65 \<le> n \<and> n \<le> 90 then n - 55
         else 36)"

definition base_digits :: "nat \<Rightarrow> bytes \<Rightarrow> nat list" where
  "base_digits b s = takeWhile (\<lambda>d. d < b) (map digit_val s)"

definition number :: "nat \<Rightarrow> nat list \<Rightarrow> nat" where
  "number b ds = foldl (\<lambda>a d. a * b + d) 0 ds"

definition strtol0 :: "bytes \<Rightarrow> int option" where
  "strtol0 s =
     (let t = dropWhile isspace s;
          neg = (t \<noteq> [] \<and> hd t = CHR ''-'');
          u = (if t \<noteq> [] \<and> (hd t = CHR ''-'' \<or> hd t = CHR ''+'') then tl t else t);
          hex = (length u > 2 \<and> hd u = CHR ''0'' \<and> tolower (u ! 1) = CHR ''x'' \<and> digit_val (u ! 2) < 16);
          ds = (if hex then base_digits 16 (drop 2 u)
                else if u \<noteq> [] \<and> hd u = CHR ''0'' then base_digits 8 u else base_digits 10 u);
          v = int (number (if hex then 16 else if u \<noteq> [] \<and> hd u = CHR ''0'' then 8 else 10) ds)
      in if ds = [] then None
         else Some (if neg then max (- (2 ^ 63)) (- v) else min (2 ^ 63 - 1) v))"

definition conf_getInteger :: "conf_values \<Rightarrow> bytes \<Rightarrow> bytes \<Rightarrow> int \<Rightarrow> int" where
  "conf_getInteger m section name def =
     (case strtol0 (takeWhile (\<lambda>c. c \<noteq> NUL) (conf_get m section name [])) of None \<Rightarrow> def | Some n \<Rightarrow> n)"

text \<open>\<open>strtod\<close> is a parameter: the value and whether it read anything.\<close>

definition conf_getReal :: "(bytes \<Rightarrow> 'd option) \<Rightarrow> conf_values \<Rightarrow> bytes \<Rightarrow> bytes \<Rightarrow> 'd \<Rightarrow> 'd" where
  "conf_getReal strtod m section name def =
     (case strtod (takeWhile (\<lambda>c. c \<noteq> NUL) (conf_get m section name [])) of None \<Rightarrow> def | Some n \<Rightarrow> n)"

definition conf_getBoolean :: "conf_values \<Rightarrow> bytes \<Rightarrow> bytes \<Rightarrow> bool \<Rightarrow> bool" where
  "conf_getBoolean m section name def =
     (let v = map tolower (conf_get m section name [])
      in if v \<in> {''true'', ''yes'', ''on'', ''1''} then True
         else if v \<in> {''false'', ''no'', ''off'', ''0''} then False
         else def)"

end
