(* ===== verification/Handy_Ini.thy ===== *)
theory Handy_Ini
  imports Handy_Conf
begin

text \<open>
  What the reader of \<open>conf.cc\<close> makes of a configuration file: the file as a list of lines with a meaning, the text of such
  lines, and that \<open>Conf::parse\<close> reads this meaning back. A line that has none ends the reading with its number.
\<close>

section \<open>Lines\<close>

text \<open>
  A remark is blank or begins with \<open>;\<close> or \<open>#\<close>; a section; an entry with its name, the white space around the separator,
  the value and what follows it on the line; and more values for the last name.
\<close>

datatype ini_line =
    Remark bytes
  | Section bytes bytes
  | Entry bytes bytes char bytes bytes bytes
  | More bytes bytes

fun ini_line_text :: "ini_line \<Rightarrow> bytes" where
  "ini_line_text (Remark t) = t"
| "ini_line_text (Section s t) = ''['' @ s @ '']'' @ t"
| "ini_line_text (Entry k a c b v t) = k @ a @ [c] @ b @ v @ t"
| "ini_line_text (More a v) = a @ v"

definition ini_text :: "ini_line list \<Rightarrow> bytes" where
  "ini_text ls = concat (map (\<lambda>l. ini_line_text l @ [LF]) ls)"

definition blanks :: "bytes \<Rightarrow> bool" where
  "blanks s \<longleftrightarrow> (\<forall>c \<in> set s. isspace c)"

definition trimmed :: "bytes \<Rightarrow> bool" where
  "trimmed s \<longleftrightarrow> (s = [] \<or> \<not> isspace (hd s) \<and> \<not> isspace (last s))"

definition starts :: "(char \<Rightarrow> bool) \<Rightarrow> bytes \<Rightarrow> bool" where
  "starts P s \<longleftrightarrow> s \<noteq> [] \<and> P (hd s)"

definition marks :: "char \<Rightarrow> bool" where
  "marks c \<longleftrightarrow> c = CHR '';'' \<or> c = CHR ''#''"

fun ini_line_fine :: "ini_line \<Rightarrow> bool" where
  "ini_line_fine (Remark t) \<longleftrightarrow> \<not> starts (\<lambda>c. \<not> marks c) (dropWhile isspace t)"
| "ini_line_fine (Section s t) \<longleftrightarrow> trimmed s \<and> CHR '']'' \<notin> set s"
| "ini_line_fine (Entry k a c b v t) \<longleftrightarrow> k \<noteq> [] \<and> trimmed k \<and> \<not> marks (hd k) \<and> hd k \<noteq> CHR ''['' \<and> blanks a \<and> blanks b \<and>
     (c = CHR ''='' \<and> CHR ''='' \<notin> set k \<or>
      c = CHR '':'' \<and> CHR '':'' \<notin> set k \<and> CHR ''='' \<notin> set (k @ v @ t)) \<and>
     (\<forall>x \<in> set v. \<not> isspace x \<and> \<not> marks x) \<and> \<not> starts (\<lambda>x. \<not> isspace x \<and> \<not> marks x) t \<and> (v = [] \<longrightarrow> \<not> starts isspace t)"
| "ini_line_fine (More a v) \<longleftrightarrow> a \<noteq> [] \<and> blanks a \<and> v \<noteq> [] \<and> trimmed v \<and> \<not> marks (hd v) \<and> hd v \<noteq> CHR ''[''"

text \<open>A line of the file: it fits the buffer of \<open>fgets\<close> and is one line of text.\<close>

definition one_line :: "bytes \<Rightarrow> bool" where
  "one_line s \<longleftrightarrow> LF \<notin> set s \<and> NUL \<notin> set s \<and> length s < MAX_LINE - 1"

text \<open>The values of a file in the order they stand there, with their keys; \<open>sec\<close> and \<open>name\<close> are those in force.\<close>

fun ini_values :: "bytes \<Rightarrow> bytes \<Rightarrow> ini_line list \<Rightarrow> (bytes \<times> bytes) list" where
  "ini_values sec name [] = []"
| "ini_values sec name (Remark t # ls) = ini_values sec name ls"
| "ini_values sec name (Section s t # ls) = ini_values s [] ls"
| "ini_values sec name (Entry k a c b v t # ls) = (makeKey sec k, v) # ini_values sec k ls"
| "ini_values sec name (More a v # ls) = (makeKey sec name, v) # ini_values sec name ls"

fun ini_fine :: "bytes \<Rightarrow> ini_line list \<Rightarrow> bool" where
  "ini_fine name [] \<longleftrightarrow> True"
| "ini_fine name (l # ls) \<longleftrightarrow> ini_line_fine l \<and> one_line (ini_line_text l) \<and>
     (case l of Remark t \<Rightarrow> ini_fine name ls | Section s t \<Rightarrow> ini_fine [] ls
      | Entry k a c b v t \<Rightarrow> ini_fine k ls | More a v \<Rightarrow> name \<noteq> [] \<and> ini_fine name ls)"

section \<open>The scanner\<close>

lemma isspace_LF [simp]: "isspace LF" "isspace CR" "\<not> isspace NUL"
  by (simp_all add: isspace_def)

lemma blanks_simps [simp]: "blanks []" "blanks (c # s) \<longleftrightarrow> isspace c \<and> blanks s" "blanks (s @ t) \<longleftrightarrow> blanks s \<and> blanks t"
  by (auto simp: blanks_def)

lemma dropWhile_blanks: "blanks s \<Longrightarrow> dropWhile isspace (s @ t) = dropWhile isspace t"
  by (simp add: blanks_def dropWhile_append3 dropWhile_append)

lemma rstrip_blanks [simp]: "blanks t \<Longrightarrow> rstrip (s @ t) = rstrip s"
  by (auto simp: rstrip_def blanks_def dropWhile_append)

lemma rstrip_id: "s = [] \<or> \<not> isspace (last s) \<Longrightarrow> rstrip s = s"
  by (cases s rule: rev_cases) (auto simp: rstrip_def)

lemma dropWhile_start: "s \<noteq> [] \<Longrightarrow> \<not> isspace (hd s) \<Longrightarrow> dropWhile isspace (s @ t) = s @ t"
  by (cases s) auto

text \<open>Up to a separator, and up to the end of the value.\<close>

lemma consumeTill_found:
  assumes "\<not> ls_err ls" "dropWhile isspace (ls_p ls) = s @ a @ c # t" "c \<notin> set (s @ a)" "blanks a" "s = [] \<or> \<not> isspace (last s)"
  shows "consumeTill c ls = (s, ls\<lparr>ls_p := c # t\<rparr>)"
proof -
  have tw: "takeWhile (\<lambda>x. x \<noteq> c) (s @ a @ c # t) = s @ a"
    using takeWhile_neq [of c "s @ a" t] assms(3) by simp
  have tk: "take (length (s @ a)) (s @ a @ c # t) = s @ a" "drop (length (s @ a)) (s @ a @ c # t) = c # t" by simp_all
  show ?thesis
    using assms(1,2,4) rstrip_id [OF assms(5)] tw tk
    by (simp add: consumeTill_def skipSpaces_def Let_def del: append_assoc length_append)
qed

lemma consumeTill_missing:
  assumes "\<not> ls_err ls" "c \<notin> set (ls_p ls)" "c \<noteq> NUL"
  shows "consumeTill c ls = ([], ls\<lparr>ls_p := dropWhile isspace (ls_p ls), ls_err := True\<rparr>)"
proof -
  define d where "d = dropWhile isspace (ls_p ls)"
  have "c \<notin> set d" using assms(2) by (auto simp: d_def dest: set_dropWhileD)
  then have tw: "takeWhile (\<lambda>x. x \<noteq> c) d = d" by (simp add: takeWhile_eq_all_conv) blast
  show ?thesis
    using assms(1,3) by (auto simp: consumeTill_def skipSpaces_def Let_def d_def [symmetric] tw)
qed

lemma till_end_value:
  assumes "\<forall>x \<in> set v. \<not> isspace x \<and> \<not> marks x" "\<not> starts (\<lambda>x. \<not> isspace x \<and> \<not> marks x) t"
  shows "till_end False (v @ t) = length v + (if starts isspace t then 1 else 0)"
  using assms
proof (induction v)
  case Nil
  show ?case
  proof (cases t)
    case (Cons c u)
    show ?thesis
    proof (cases "marks c")
      case True
      then have "\<not> isspace c" by (auto simp: marks_def isspace_def)
      with True Cons show ?thesis by (simp add: starts_def marks_def)
    next
      case False
      then have c: "isspace c" using Nil Cons by (simp add: starts_def)
      have "till_end True u = 0" by (cases u) simp_all
      with False c Cons show ?thesis by (simp add: starts_def marks_def)
    qed
  qed (simp add: starts_def)
next
  case (Cons c v)
  then show ?case by (auto simp: marks_def)
qed

lemma consumeTillEnd_value:
  assumes "\<not> ls_err ls" "ls_p ls = b @ v @ t @ [LF]" "blanks b" "\<forall>x \<in> set v. \<not> isspace x \<and> \<not> marks x"
    "\<not> starts (\<lambda>x. \<not> isspace x \<and> \<not> marks x) t" "v = [] \<longrightarrow> \<not> starts isspace t"
  shows "fst (consumeTillEnd ls) = v"
proof (cases "v = [] \<and> t = []")
  case True
  then have d: "dropWhile isspace (ls_p ls) = []" using assms(2) dropWhile_blanks [OF assms(3), of "[LF]"] by simp
  show ?thesis using True assms(1) by (simp add: consumeTillEnd_def skipSpaces_def Let_def d rstrip_def)
next
  case False
  have ns: "v @ t @ [LF] \<noteq> [] \<and> \<not> isspace (hd (v @ t @ [LF]))"
    using False assms(4-6) by (cases v) (auto simp: starts_def hd_append marks_def isspace_def)
  then have dw: "dropWhile isspace (ls_p ls) = v @ (t @ [LF])"
    using dropWhile_blanks [OF assms(3), of "v @ t @ [LF]"] dropWhile_start [of "v @ t @ [LF]" "[]"] assms(2) by simp
  have tl: "\<not> starts (\<lambda>x. \<not> isspace x \<and> \<not> marks x) (t @ [LF])"
    using assms(5) by (cases t) (auto simp: starts_def)
  define n where "n = till_end False (v @ (t @ [LF]))"
  have n: "n = length v + (if starts isspace (t @ [LF]) then 1 else 0)" unfolding n_def by (rule till_end_value [OF assms(4) tl])
  have "rstrip (take n (v @ (t @ [LF]))) = v"
  proof (cases "starts isspace (t @ [LF])")
    case True
    then obtain c u where c: "t @ [LF] = c # u" "isspace c" by (cases "t @ [LF]") (auto simp: starts_def)
    then have "take n (v @ (t @ [LF])) = v @ [c]" using n True by simp
    moreover have "rstrip v = v" using assms(4) by (intro rstrip_id) (auto simp: last_in_set)
    ultimately show ?thesis using c(2) by simp
  next
    case False
    then have "take n (v @ (t @ [LF])) = v" using n by simp
    moreover have "rstrip v = v" using assms(4) by (intro rstrip_id) (auto simp: last_in_set)
    ultimately show ?thesis by simp
  qed
  then show ?thesis using assms(1) dw by (simp add: consumeTillEnd_def skipSpaces_def Let_def n_def [symmetric])
qed

lemma consumeTill_end:
  assumes "\<not> ls_err ls" "dropWhile isspace (ls_p ls) = v @ [LF]" "NUL \<notin> set v" "\<not> isspace (last v)" "v \<noteq> []"
  shows "fst (consumeTill NUL ls) = v"
proof -
  have tw: "takeWhile (\<lambda>x. x \<noteq> NUL) (v @ [LF]) = v @ [LF]" using assms(3) by (simp add: takeWhile_neq_all)
  show ?thesis using assms(1,2) rstrip_id [of v] assms(4,5) by (simp add: consumeTill_def skipSpaces_def Let_def tw)
qed

section \<open>A line\<close>

fun ini_step :: "ini_line \<Rightarrow> conf_state \<Rightarrow> conf_state" where
  "ini_step (Remark t) st = st"
| "ini_step (Section s t) st = st\<lparr>cf_section := s, cf_key := []\<rparr>"
| "ini_step (Entry k a c b v t) st =
     st\<lparr>cf_key := k, cf_values := push_value (makeKey (cf_section st) k) v (cf_values st)\<rparr>"
| "ini_step (More a v) st =
     st\<lparr>cf_values := push_value (makeKey (cf_section st) (cf_key st)) v (cf_values st)\<rparr>"

lemma parse_section:
  assumes "trimmed s" "CHR '']'' \<notin> set s" "NUL \<notin> set (''['' @ s @ '']'' @ t)" "\<not> cf_err st"
  shows "parse_line (''['' @ s @ '']'' @ t @ [LF]) st = st\<lparr>cf_section := s, cf_key := []\<rparr>"
proof -
  let ?r = "CHR '']'' # t @ [LF]"
  have str: "takeWhile (\<lambda>c. c \<noteq> NUL) (''['' @ s @ '']'' @ t @ [LF]) = CHR ''['' # s @ ?r"
    using assms(3) takeWhile_neq_all [of NUL "''['' @ s @ '']'' @ t @ [LF]"] by simp
  have "dropWhile isspace (s @ ?r) = s @ [] @ ?r"
    using dropWhile_start [of s ?r] assms(1) by (cases "s = []") (auto simp: trimmed_def isspace_def)
  then have c: "consumeTill (CHR '']'') \<lparr>ls_p = s @ ?r, ls_err = False\<rparr> = (s, \<lparr>ls_p = ?r, ls_err = False\<rparr>)"
    using consumeTill_found [of "\<lparr>ls_p = s @ ?r, ls_err = False\<rparr>" s "[]" "CHR '']''" "t @ [LF]"] assms(1,2)
    by (auto simp: trimmed_def)
  have "\<not> isspace (CHR ''['')" "\<not> isspace (CHR '']'')" by (simp_all add: isspace_def)
  then show ?thesis
    using assms(4) c unfolding parse_line_def str
    by (cases st) (simp add: peekChar_def skipSpaces_def cur_def skip_def match_def Let_def)
qed

lemma parse_more:
  assumes "a \<noteq> []" "blanks a" "v \<noteq> []" "trimmed v" "\<not> marks (hd v)" "hd v \<noteq> CHR ''[''" "NUL \<notin> set (a @ v)" "cf_key st \<noteq> []"
  shows "parse_line (a @ v @ [LF]) st = st\<lparr>cf_values := push_value (makeKey (cf_section st) (cf_key st)) v (cf_values st)\<rparr>"
proof -
  have str: "takeWhile (\<lambda>c. c \<noteq> NUL) (a @ v @ [LF]) = a @ v @ [LF]"
    using assms(7) takeWhile_neq_all [of NUL "a @ v @ [LF]"] by simp
  have dw: "dropWhile isspace (a @ v @ [LF]) = v @ [LF]" "dropWhile isspace (v @ [LF]) = v @ [LF]"
    using dropWhile_blanks [OF assms(2)] dropWhile_start [OF assms(3), of "[LF]"] assms(3,4) by (auto simp: trimmed_def)
  have c: "fst (consumeTill NUL \<lparr>ls_p = v @ [LF], ls_err = False\<rparr>) = v"
    by (rule consumeTill_end) (use dw assms(3,4,7) in \<open>auto simp: trimmed_def\<close>)
  obtain x u where v: "v = x # u" "x \<noteq> NUL" using assms(3,7) by (cases v) auto
  obtain y w where a: "a = y # w" "isspace y" using assms(1,2) by (cases a) auto
  show ?thesis
    using assms(5,6,8) c dw v a unfolding parse_line_def str
    by (simp add: peekChar_def skipSpaces_def cur_def Let_def marks_def)
qed

lemma parse_remark:
  assumes "\<not> starts (\<lambda>c. \<not> marks c) (dropWhile isspace t)" "NUL \<notin> set t"
  shows "parse_line (t @ [LF]) st = st"
proof -
  have str: "takeWhile (\<lambda>c. c \<noteq> NUL) (t @ [LF]) = t @ [LF]"
    using assms(2) takeWhile_neq_all [of NUL "t @ [LF]"] by simp
  have "dropWhile isspace (t @ [LF]) = (if dropWhile isspace t = [] then [] else dropWhile isspace t @ [LF])"
    by (auto simp: dropWhile_append)
  then have "cur \<lparr>ls_p = dropWhile isspace (t @ [LF]), ls_err = False\<rparr> \<in> {NUL, CHR '';'', CHR ''#''}"
    using assms(1) by (cases "dropWhile isspace t") (auto simp: cur_def starts_def marks_def)
  then show ?thesis unfolding parse_line_def str by (auto simp: peekChar_def skipSpaces_def Let_def)
qed

lemma parse_entry:
  assumes "k \<noteq> []" "trimmed k" "\<not> marks (hd k)" "hd k \<noteq> CHR ''[''" "blanks a" "blanks b" "NUL \<notin> set k"
    "NUL \<notin> set (a @ [c] @ b @ v @ t)"
    "c = CHR ''='' \<and> CHR ''='' \<notin> set k \<or> c = CHR '':'' \<and> CHR '':'' \<notin> set k \<and> CHR ''='' \<notin> set (k @ v @ t)"
    "\<forall>x \<in> set v. \<not> isspace x \<and> \<not> marks x" "\<not> starts (\<lambda>x. \<not> isspace x \<and> \<not> marks x) t" "v = [] \<longrightarrow> \<not> starts isspace t"
    "\<not> cf_err st"
  shows "parse_line (k @ a @ [c] @ b @ v @ t @ [LF]) st =
    st\<lparr>cf_key := k, cf_values := push_value (makeKey (cf_section st) k) v (cf_values st)\<rparr>"
proof -
  let ?r = "b @ v @ t @ [LF]" and ?w = "k @ a @ [c] @ b @ v @ t @ [LF]"
  have str: "takeWhile (\<lambda>c. c \<noteq> NUL) ?w = ?w"
    using assms(7,8) takeWhile_neq_all [of NUL ?w] by simp
  obtain x u where k: "k = x # u" "\<not> isspace x" "x \<noteq> NUL" "\<not> marks x" "x \<noteq> CHR ''[''"
    using assms(1-4,7) by (cases k) (auto simp: trimmed_def)
  have dw: "dropWhile isspace ?w = ?w" using k by simp
  have cs: "\<not> isspace c" using assms(9) by (auto simp: isspace_def)
  have notin: "e \<notin> set a \<and> e \<notin> set b" if "\<not> isspace e" for e using assms(5,6) that by (auto simp: blanks_def)
  have pk: "peekChar \<lparr>ls_p = ?w, ls_err = False\<rparr> = (x, \<lparr>ls_p = ?w, ls_err = False\<rparr>)"
    using k by (simp add: peekChar_def skipSpaces_def cur_def Let_def)
  have ce: "c \<notin> set (k @ a)" using assms(9) notin [OF cs] by auto
  have till: "consumeTill c \<lparr>ls_p = ?w, ls_err = False\<rparr> = (k, \<lparr>ls_p = c # ?r, ls_err = False\<rparr>)"
    using consumeTill_found [of "\<lparr>ls_p = ?w, ls_err = False\<rparr>" k a c ?r] dw ce assms(1,2,5) by (simp add: trimmed_def)
  have val: "fst (consumeTillEnd \<lparr>ls_p = ?r, ls_err = False\<rparr>) = v"
    by (rule consumeTillEnd_value [of _ b v t]) (use assms(6,10-12) in auto)
  show ?thesis
  proof (cases "c = CHR ''=''")
    case True
    have "peekChar \<lparr>ls_p = c # ?r, ls_err = False\<rparr> = (c, \<lparr>ls_p = c # ?r, ls_err = False\<rparr>)"
      using cs by (simp add: peekChar_def skipSpaces_def cur_def Let_def)
    then show ?thesis
      using pk till val k(1-5) True assms(13) unfolding parse_line_def str
      by (cases st) (simp add: Let_def skip_def marks_def split_beta)
  next
    case False
    then have c: "c = CHR '':''" "CHR ''='' \<notin> set ?w" using assms(9) notin [of "CHR ''=''"] by (auto simp: isspace_def)
    have miss: "consumeTill (CHR ''='') \<lparr>ls_p = ?w, ls_err = False\<rparr> = ([], \<lparr>ls_p = ?w, ls_err = True\<rparr>)"
      using consumeTill_missing [of "\<lparr>ls_p = ?w, ls_err = False\<rparr>" "CHR ''=''"] c(2) dw by simp
    have "x \<noteq> CHR ''=''" using c(2) k(1) by auto
    then have pk2: "peekChar \<lparr>ls_p = ?w, ls_err = True\<rparr> = (x, \<lparr>ls_p = ?w, ls_err = True\<rparr>) \<and> x \<noteq> CHR ''=''"
      using k by (simp add: peekChar_def skipSpaces_def cur_def Let_def)
    have mt: "match (CHR '':'') \<lparr>ls_p = c # ?r, ls_err = False\<rparr> = \<lparr>ls_p = ?r, ls_err = False\<rparr>"
      using cs c(1) by (simp add: match_def skipSpaces_def cur_def Let_def)
    show ?thesis
      using pk till val k(1-5) c(1) assms(13) miss pk2 mt unfolding parse_line_def str
      by (cases st) (simp add: Let_def marks_def split_beta)
  qed
qed

lemma parse_line_step:
  assumes "ini_line_fine l" "one_line (ini_line_text l)" "\<not> cf_err st" "\<And>a v. l = More a v \<Longrightarrow> cf_key st \<noteq> []"
  shows "parse_line (ini_line_text l @ [LF]) st = ini_step l st"
proof (cases l)
  case (Remark t)
  then show ?thesis using assms parse_remark [of t st] by (simp add: one_line_def)
next
  case (Section s t)
  then show ?thesis using assms parse_section [of s t st] by (simp add: one_line_def)
next
  case (Entry k a c b v t)
  then show ?thesis using assms parse_entry [of k a b c v t st] by (simp add: one_line_def)
next
  case (More a v)
  then show ?thesis using assms parse_more [of a v st] by (simp add: one_line_def)
qed

section \<open>A file\<close>

lemma fgets_line:
  assumes "one_line l"
  shows "fgets MAX_LINE (l @ LF # rest) = Some (l @ [LF], rest)"
proof -
  have "takeWhile (\<lambda>c. c \<noteq> LF) (l @ LF # rest) = l" using assms by (intro takeWhile_neq) (simp add: one_line_def)
  moreover have "min (MAX_LINE - 1) (Suc (length l)) = Suc (length l)" "\<not> MAX_LINE < 2"
    using assms by (simp_all add: one_line_def MAX_LINE_def)
  ultimately show ?thesis by (simp add: fgets_def Let_def)
qed

lemma ini_step_err [simp]: "cf_err (ini_step l st) = cf_err st"
  by (cases l) simp_all

lemma parse_lines_ini:
  "ini_fine (cf_key st) ls \<Longrightarrow> \<not> cf_err st \<Longrightarrow>
     parse_lines n (ini_text ls @ rest) st = parse_lines (n + length ls) rest (fold ini_step ls st) \<and> \<not> cf_err (fold ini_step ls st)"
proof (induction ls arbitrary: n st)
  case (Cons l ls)
  have l: "ini_line_fine l" "one_line (ini_line_text l)" and more: "\<And>a v. l = More a v \<Longrightarrow> cf_key st \<noteq> []"
    using Cons.prems(1) by auto
  have t: "ini_text (l # ls) @ rest = ini_line_text l @ LF # ini_text ls @ rest" by (simp add: ini_text_def)
  have "parse_lines n (ini_text (l # ls) @ rest) st = parse_lines (Suc n) (ini_text ls @ rest) (ini_step l st)"
    using Cons.prems(2) parse_line_step [OF l Cons.prems(2) more]
    by (simp add: t parse_lines.simps [of n "ini_line_text l @ LF # ini_text ls @ rest"] fgets_line [OF l(2)])
  moreover have "ini_fine (cf_key (ini_step l st)) ls" using Cons.prems(1) by (cases l) simp_all
  ultimately show ?case using Cons.IH [of "ini_step l st" "Suc n"] Cons.prems(2) by simp
qed (simp add: ini_text_def)

lemma parse_lines_end: "parse_lines n [] st = (n, st)"
  by (simp add: parse_lines.simps [of n "[]"] fgets_def)

lemma fold_ini_values:
  "cf_values (fold ini_step ls st) = fold (\<lambda>p. push_value (fst p) (snd p)) (ini_values (cf_section st) (cf_key st) ls) (cf_values st)"
proof (induction ls arbitrary: st)
  case (Cons l ls)
  then show ?case by (cases l) simp_all
qed simp

text \<open>What \<open>getStrings\<close> finds under a key; no key has an empty list.\<close>

definition looked_up :: "bytes \<Rightarrow> conf_values \<Rightarrow> bytes list" where
  "looked_up key m = (case map_of m key of None \<Rightarrow> [] | Some vs \<Rightarrow> vs)"

definition conf_ok :: "conf_values \<Rightarrow> bool" where
  "conf_ok m \<longleftrightarrow> map_ok m \<and> (\<forall>key. map_of m key \<noteq> Some [])"

lemma push_value_ok:
  assumes "conf_ok m"
  shows "conf_ok (push_value k v m)" "looked_up key (push_value k v m) = looked_up key m @ (if key = k then [v] else [])"
  using assms by (auto simp: conf_ok_def push_value_def looked_up_def split: option.splits)

lemma push_values_ok:
  "conf_ok m \<Longrightarrow> conf_ok (fold (\<lambda>p. push_value (fst p) (snd p)) kvs m) \<and>
     looked_up key (fold (\<lambda>p. push_value (fst p) (snd p)) kvs m) = looked_up key m @ map snd (filter (\<lambda>p. fst p = key) kvs)"
proof (induction kvs arbitrary: m)
  case (Cons p kvs)
  then show ?case using push_value_ok(1) [OF Cons.prems, of "fst p" "snd p"] push_value_ok(2) [OF Cons.prems, of key "fst p" "snd p"] by auto
qed simp

lemma conf_lookups:
  assumes "conf_ok m"
  shows "conf_getStrings m sec name = looked_up (makeKey sec name) m"
    "conf_get m sec name def = (let vs = looked_up (makeKey sec name) m in if vs = [] then def else last vs)"
  using assms by (auto simp: conf_getStrings_def conf_get_def looked_up_def conf_ok_def split: option.splits)

definition conf_start :: conf_state where
  "conf_start = \<lparr>cf_section = [], cf_key = [], cf_err = False, cf_values = []\<rparr>"

text \<open>The values of a key that a list of lines gives.\<close>

definition ini_lookup :: "ini_line list \<Rightarrow> bytes \<Rightarrow> bytes \<Rightarrow> bytes list" where
  "ini_lookup ls sec name = map snd (filter (\<lambda>p. fst p = makeKey sec name) (ini_values [] [] ls))"

lemma ini_values_read:
  "conf_ok (cf_values (fold ini_step ls conf_start)) \<and>
   looked_up (makeKey sec name) (cf_values (fold ini_step ls conf_start)) = ini_lookup ls sec name"
proof -
  have ok: "conf_ok []" by (simp add: conf_ok_def)
  show ?thesis
    using push_values_ok [OF ok, of "ini_values [] [] ls" "makeKey sec name"]
    by (simp add: fold_ini_values conf_start_def ini_lookup_def looked_up_def)
qed

lemma conf_parsed:
  assumes "ini_fine [] ls"
  shows "\<exists>m. conf_parse (Some (ini_text ls)) [] = (0, m) \<and> conf_getStrings m sec name = ini_lookup ls sec name \<and>
    conf_get m sec name def = (if ini_lookup ls sec name = [] then def else last (ini_lookup ls sec name))"
proof -
  let ?st = "fold ini_step ls conf_start"
  have "parse_lines 0 (ini_text ls) conf_start = (length ls, ?st) \<and> \<not> cf_err ?st"
    using parse_lines_ini [of conf_start ls 0 "[]"] assms by (simp add: conf_start_def parse_lines_end)
  then have "conf_parse (Some (ini_text ls)) [] = (0, cf_values ?st)" by (simp add: conf_parse_def conf_start_def)
  then show ?thesis using ini_values_read [of ls sec name] by (simp add: conf_lookups Let_def)
qed

section \<open>Numbers\<close>

lemma digit_val_digit: "d < 10 \<Longrightarrow> digit_val (digit d) = d"
  by (simp add: digit_val_def)

lemma number_digits: "number 10 (map digit_val (show_nat n)) = n \<and> (\<forall>d \<in> set (map digit_val (show_nat n)). d < 10)"
proof (induction n rule: show_nat.induct)
  case (1 n)
  show ?case
  proof (cases "n < 10")
    case True
    then have "show_nat n = [digit n]" by (subst show_nat.simps) simp
    then show ?thesis using True by (simp add: number_def digit_val_digit)
  next
    case False
    then have "show_nat n = show_nat (n div 10) @ [digit (n mod 10)]" by (subst show_nat.simps) simp
    then have e: "map digit_val (show_nat n) = map digit_val (show_nat (n div 10)) @ [n mod 10]"
      using digit_val_digit [of "n mod 10"] by (simp only: map_append list.map mod_less_divisor zero_less_numeral)
    note ih = 1 [OF False]
    have snoc: "number 10 (xs @ [d]) = number 10 xs * 10 + d" for xs d by (simp only: number_def foldl_append foldl.simps)
    have "number 10 (map digit_val (show_nat n)) = number 10 (map digit_val (show_nat (n div 10))) * 10 + n mod 10"
      by (subst e) (rule snoc)
    then have "number 10 (map digit_val (show_nat n)) = n div 10 * 10 + n mod 10"
      by (simp only: ih [THEN conjunct1])
    moreover have "\<forall>d \<in> set (map digit_val (show_nat n)). d < 10"
      unfolding e using ih [THEN conjunct2] by (simp only: set_append ball_Un) simp
    ultimately show ?thesis by (simp only: div_mult_mod_eq simp_thms)
  qed
qed

lemma show_nat_nonzero: "0 < n \<Longrightarrow> hd (show_nat n) \<noteq> CHR ''0''"
proof (induction n rule: show_nat.induct)
  case (1 n)
  show ?case
  proof (cases "n < 10")
    case True
    then have "show_nat n = [digit n]" by (subst show_nat.simps) simp
    moreover have "digit n \<noteq> CHR ''0''"
    proof
      assume "digit n = CHR ''0''"
      moreover have "digit_val (CHR ''0'') = 0" by code_simp
      ultimately show False using digit_val_digit [OF True] "1.prems" by simp
    qed
    ultimately show ?thesis by simp
  next
    case False
    then have "show_nat n = show_nat (n div 10) @ [digit (n mod 10)]" by (subst show_nat.simps) simp
    then show ?thesis using 1(1) [OF False] False by (simp add: hd_append)
  qed
qed

lemma strtol0_show_nat: "strtol0 (show_nat n) = Some (min (2 ^ 63 - 1) (int n))"
proof -
  obtain a as where e: "show_nat n = a # as" by (cases "show_nat n") auto
  have a: "\<not> isspace a" "a \<noteq> CHR ''-''" "a \<noteq> CHR ''+''" using show_nat_hd [of n] e by auto
  show ?thesis
  proof (cases "n = 0")
    case True
    then have "show_nat n = ''0''" by (simp add: show_nat.simps digit_def) code_simp
    then show ?thesis using True by simp code_simp
  next
    case False
    then have z: "a \<noteq> CHR ''0''" using show_nat_nonzero [of n] e by simp
    have "takeWhile (\<lambda>d. d < 10) (map digit_val (a # as)) = map digit_val (a # as)"
      using number_digits [of n] e by (intro takeWhile_eq_all_conv [THEN iffD2]) simp
    then have bd: "base_digits 10 (a # as) = map digit_val (a # as)" unfolding base_digits_def .
    then have ne: "base_digits 10 (a # as) \<noteq> []" by simp
    have dw: "dropWhile isspace (a # as) = a # as" using a(1) by simp
    have "strtol0 (a # as) = Some (min (2 ^ 63 - 1) (int (number 10 (base_digits 10 (a # as)))))"
      unfolding strtol0_def Let_def dw using a z ne by (simp only: list.sel if_False de_Morgan_conj simp_thms)
    then show ?thesis using number_digits [of n] unfolding e bd by simp
  qed
qed

text \<open>A number that was written in decimal is read back.\<close>

lemma strtol0_show_int: "- (2 ^ 63) \<le> n \<Longrightarrow> n < 2 ^ 63 \<Longrightarrow> strtol0 (show_int n) = Some n"
proof (cases "n < 0")
  case False
  then show "n < 2 ^ 63 \<Longrightarrow> ?thesis" using strtol0_show_nat [of "nat n"] by (simp add: show_int_def)
next
  case True
  have s: "strtol0 (CHR ''-'' # show_nat k) = Some (max (- (2 ^ 63)) (- int k))" if "0 < k" for k
  proof -
    obtain a as where e: "show_nat k = a # as" by (cases "show_nat k") auto
    have z: "a \<noteq> CHR ''0''" using show_nat_nonzero [OF that] e by simp
    have bd: "base_digits 10 (a # as) = map digit_val (a # as)"
      using number_digits [of k] e unfolding base_digits_def by (intro takeWhile_eq_all_conv [THEN iffD2]) simp
    then have ne: "base_digits 10 (a # as) \<noteq> []" by simp
    have dw: "dropWhile isspace (CHR ''-'' # a # as) = CHR ''-'' # a # as" by (simp add: isspace_def)
    have "strtol0 (CHR ''-'' # a # as) = Some (max (- (2 ^ 63)) (- int (number 10 (base_digits 10 (a # as)))))"
      unfolding strtol0_def Let_def dw using z ne
      by (simp only: list.sel list.distinct if_False if_True de_Morgan_conj simp_thms)
    then show ?thesis using number_digits [of k] unfolding e bd by simp
  qed
  assume "- (2 ^ 63) \<le> n"
  then show ?thesis using s [of "nat (- n)"] True by (simp add: show_int_def)
qed

lemma conf_integer_read:
  assumes "ini_fine [] ls" "ini_lookup ls sec name = vs @ [show_int n]" "- (2 ^ 63) \<le> n" "n < 2 ^ 63"
  shows "conf_getInteger (snd (conf_parse (Some (ini_text ls)) [])) sec name def = n"
proof -
  obtain m where "conf_parse (Some (ini_text ls)) [] = (0, m)" "conf_get m sec name [] = show_int n"
    using conf_parsed [OF assms(1), of sec name "[]"] assms(2) by auto
  moreover note tw = takeWhile_neq_all [OF show_int_NUL, of n]
  ultimately show ?thesis using strtol0_show_int [OF assms(3,4)] by (simp add: conf_getInteger_def tw)
qed

section \<open>Properties\<close>


definition ini_demo :: "ini_line list" where
  "ini_demo = [Remark ''; ports'', Section ''Net'' [], Entry ''Port'' '' '' (CHR ''='') '' '' ''80'' '' ; web'', More ''  '' ''8080 x'',
     Remark [], Section ''log'' ''!'', Entry ''Level'' [] (CHR '':'') '' '' ''INFO'' []]"

lemma ini_demo_fine: "ini_fine [] ini_demo"
  unfolding ini_demo_def by code_simp


text \<open>
  A line without a meaning: a section that is not closed, a line of white space and text when there is no entry to
  continue, and an entry without a separator.
\<close>

definition ini_bad :: "bytes \<Rightarrow> bytes \<Rightarrow> bool" where
  "ini_bad name s \<longleftrightarrow>
     (let t = dropWhile isspace s in
      starts (\<lambda>c. \<not> marks c) t \<and>
      (if hd t = CHR ''['' then CHR '']'' \<notin> set s
       else if isspace (hd s) then name = []
       else CHR ''='' \<notin> set s \<and> CHR '':'' \<notin> set s))"

lemma parse_bad:
  assumes "ini_bad (cf_key st) s" "NUL \<notin> set s"
  shows "cf_err (parse_line (s @ [LF]) st) \<and>
    (\<exists>vs. cf_values (parse_line (s @ [LF]) st) = fold (\<lambda>v. push_value (makeKey (cf_section st) []) v) vs (cf_values st))"
proof -
  have str: "takeWhile (\<lambda>c. c \<noteq> NUL) (s @ [LF]) = s @ [LF]"
    using assms(2) takeWhile_neq_all [of NUL "s @ [LF]"] by simp
  obtain x u where t: "dropWhile isspace s = x # u" "\<not> marks x"
    using assms(1) by (cases "dropWhile isspace s") (auto simp: ini_bad_def starts_def)
  have "\<not> (\<forall>y \<in> set s. isspace y)" using t(1) by (metis dropWhile_eq_Nil_conv list.distinct(1))
  then have dw: "dropWhile isspace (s @ [LF]) = x # u @ [LF]" using t(1) by (auto simp: dropWhile_append)
  have x: "\<not> isspace x" using t(1) by (metis hd_dropWhile list.distinct(1) list.sel(1))
  have sub: "e \<notin> set s \<Longrightarrow> e \<notin> set (x # u)" for e using t(1) set_dropWhileD [of e isspace s] by auto
  have "x \<noteq> NUL" using sub [OF assms(2)] by auto
  then have pk: "peekChar \<lparr>ls_p = s @ [LF], ls_err = False\<rparr> = (x, \<lparr>ls_p = x # u @ [LF], ls_err = False\<rparr>)" "x \<noteq> NUL"
    using dw by (simp_all add: peekChar_def skipSpaces_def cur_def Let_def)
  show ?thesis
  proof (cases "x = CHR ''[''")
    case True
    then have c: "CHR '']'' \<notin> set (u @ [LF])" using assms(1) t sub by (auto simp: ini_bad_def)
    have m: "consumeTill (CHR '']'') \<lparr>ls_p = u @ [LF], ls_err = False\<rparr> =
        ([], \<lparr>ls_p = dropWhile isspace (u @ [LF]), ls_err = True\<rparr>)"
      using consumeTill_missing [of "\<lparr>ls_p = u @ [LF], ls_err = False\<rparr>" "CHR '']''"] c by simp
    have "cur \<lparr>ls_p = dropWhile isspace (u @ [LF]), ls_err = True\<rparr> \<noteq> CHR '']''"
      using c set_dropWhileD [of "CHR '']''" isspace "u @ [LF]"] by (cases "dropWhile isspace (u @ [LF])") (auto simp: cur_def)
    then show ?thesis
      using pk True m unfolding parse_line_def str
      by (auto simp: Let_def skip_def match_def skipSpaces_def intro: exI [of _ "[]"])
  next
    case nb: False
    show ?thesis
    proof (cases "isspace (hd s)")
      case True
      then have "isspace (hd (s @ [LF]))" "cf_key st = []" using assms(1) t nb by (cases s; auto simp: ini_bad_def)+
      then show ?thesis
        using pk nb t(2) unfolding parse_line_def str by (auto simp: Let_def marks_def intro: exI [of _ "[]"])
    next
      case False
      then have s: "s = x # u" using t(1) by (cases s) auto
      then have c: "CHR ''='' \<notin> set (x # u @ [LF])" "CHR '':'' \<notin> set (x # u @ [LF])"
        using assms(1) t nb False by (auto simp: ini_bad_def)
      have d: "dropWhile isspace (x # u @ [LF]) = x # u @ [LF]" using x by simp
      have m: "consumeTill e \<lparr>ls_p = x # u @ [LF], ls_err = False\<rparr> = ([], \<lparr>ls_p = x # u @ [LF], ls_err = True\<rparr>)"
        if "e \<in> {CHR ''='', CHR '':''}" for e
        using consumeTill_missing [of "\<lparr>ls_p = x # u @ [LF], ls_err = False\<rparr>" e] c d that by auto
      have p2: "peekChar \<lparr>ls_p = x # u @ [LF], ls_err = True\<rparr> = (x, \<lparr>ls_p = x # u @ [LF], ls_err = True\<rparr>)"
        by (simp add: peekChar_def skipSpaces_def cur_def Let_def)
      have mt: "match (CHR '':'') \<lparr>ls_p = x # u @ [LF], ls_err = True\<rparr> = \<lparr>ls_p = u @ [LF], ls_err = True\<rparr>"
        using c by (auto simp: match_def skipSpaces_def cur_def Let_def)
      have e: "consumeTillEnd \<lparr>ls_p = u @ [LF], ls_err = True\<rparr> = ([], \<lparr>ls_p = u @ [LF], ls_err = True\<rparr>)"
        by (simp add: consumeTillEnd_def skipSpaces_def rstrip_def)
      have "\<not> isspace (hd (s @ [LF]))" "x \<noteq> CHR ''=''" "\<not> marks x" using x c s t(2) by auto
      then have "parse_line (s @ [LF]) st = st\<lparr>cf_key := [], cf_err := True,
          cf_values := push_value (makeKey (cf_section st) []) [] (cf_values st)\<rparr>"
        using pk nb m [of "CHR ''=''"] m [of "CHR '':''"] p2 mt e unfolding parse_line_def str
        by (simp add: Let_def marks_def)
      then show ?thesis by (auto intro: exI [of _ "[[]]"])
    qed
  qed
qed

text \<open>
  C37: the first line of a configuration file that has no meaning, an unclosed section, an entry without a separator or a
  continuation of nothing, ends the reading: \<open>parse\<close> returns its number, whatever follows, and the values of the lines
  before it are all there.
\<close>

theorem conf_error_line:
  assumes "ini_fine [] ls" and "one_line s" and "ini_bad (cf_key (fold ini_step ls conf_start)) s"
    and "makeKey sec name \<noteq> makeKey (cf_section (fold ini_step ls conf_start)) []"
  shows "\<exists>m. conf_parse (Some (ini_text ls @ s @ LF # rest)) [] = (int (length ls) + 1, m) \<and>
    conf_getStrings m sec name = ini_lookup ls sec name"
proof -
  let ?st = "fold ini_step ls conf_start"
  have p: "parse_lines 0 (ini_text ls @ s @ LF # rest) conf_start = parse_lines (length ls) (s @ LF # rest) ?st" "\<not> cf_err ?st"
    using parse_lines_ini [of conf_start ls 0 "s @ LF # rest"] assms(1) by (simp_all add: conf_start_def)
  have "NUL \<notin> set s" using assms(2) by (simp add: one_line_def)
  from parse_bad [OF assms(3) this] obtain vs where bad: "cf_err (parse_line (s @ [LF]) ?st)"
      "cf_values (parse_line (s @ [LF]) ?st) = fold (\<lambda>v. push_value (makeKey (cf_section ?st) []) v) vs (cf_values ?st)" by blast
  let ?m = "cf_values (parse_line (s @ [LF]) ?st)"
  have "parse_lines (length ls) (s @ LF # rest) ?st = (Suc (length ls), parse_line (s @ [LF]) ?st)"
    using p(2) bad(1) by (simp add: parse_lines.simps [of "length ls"] parse_lines.simps [of "Suc (length ls)"] fgets_line [OF assms(2)])
  then have "conf_parse (Some (ini_text ls @ s @ LF # rest)) [] = (int (length ls) + 1, ?m)"
    using p(1) bad(1) by (simp add: conf_parse_def conf_start_def)
  moreover have "conf_ok ?m \<and> looked_up (makeKey sec name) ?m = looked_up (makeKey sec name) (cf_values ?st)"
  proof -
    have f: "fold (\<lambda>v. push_value k v) vs m = fold (\<lambda>p. push_value (fst p) (snd p)) (map (Pair k) vs) m" for k m
      by (simp add: fold_map comp_def)
    have "filter (\<lambda>p. fst p = makeKey sec name) (map (Pair (makeKey (cf_section ?st) [])) vs) = []"
      using assms(4) by (auto simp: filter_empty_conv)
    then show ?thesis
      using push_values_ok [of "cf_values ?st" "map (Pair (makeKey (cf_section ?st) [])) vs" "makeKey sec name"] ini_values_read [of ls]
      by (simp add: bad(2) f)
  qed
  ultimately show ?thesis using ini_values_read [of ls sec name] by (auto simp: conf_lookups)
qed

theorem conf_error_line_witness:
  "\<exists>m. conf_parse (Some (ini_text ini_demo @ ''no separator'' @ LF # ''a=b'')) [] = (8, m) \<and>
     conf_getStrings m ''log'' ''level'' = [''INFO'']"
proof -
  have b1: "one_line ''no separator''" by code_simp
  have b2: "ini_bad (cf_key (fold ini_step ini_demo conf_start)) ''no separator''"
    unfolding ini_demo_def by code_simp
  have b3: "makeKey ''log'' ''level'' \<noteq> makeKey (cf_section (fold ini_step ini_demo conf_start)) []"
    unfolding ini_demo_def by code_simp
  have b4: "ini_lookup ini_demo ''log'' ''level'' = [''INFO'']"
    unfolding ini_demo_def by code_simp
  have "length ini_demo = 7" by (simp add: ini_demo_def)
  then show ?thesis using conf_error_line [OF ini_demo_fine b1 b2 b3, of "''a=b''"] b4 by simp
qed

end
