(* ===== verification/Handy_Status.thy ===== *)
theory Handy_Status
  imports Handy_Net
begin

text \<open>
  \<open>Status\<close> (\<open>handy/status.h\<close>) and \<open>util::format\<close> (\<open>handy/util.cc\<close>). A status is a null pointer, for
  success, or one allocation that packs its own size, the code and the message; the model keeps
  the bytes of the allocation. \<open>None\<close> of an operation is an access outside the allocation or after
  it was freed.
\<close>

section \<open>util::format\<close>

text \<open>
  \<open>text\<close> is what the format expands to. \<open>format_into\<close> is one turn of the loop: \<open>vsnprintf\<close> into an
  array of \<open>bufsize\<close> bytes, and whether it all fitted.
\<close>

definition format_into :: "nat \<Rightarrow> bytes \<Rightarrow> bool \<times> bytes" where
  "format_into bufsize text = (length text < bufsize, take (bufsize - 1) text)"

definition util_format :: "bytes \<Rightarrow> bytes" where
  "util_format text =
     cstr (case format_into 500 text of (True, s) \<Rightarrow> s | (False, _) \<Rightarrow> snd (format_into 30000 text))"

lemma util_format_take: "util_format text = cstr (take 29999 text)"
  by (cases "length text < 500") (simp_all add: util_format_def format_into_def)

section \<open>Status\<close>

type_synonym status = "bytes option"

definition status_ok0 :: status where
  "status_ok0 = None"

text \<open>Sizes are \<open>uint32_t\<close>.\<close>

definition u32 :: "int \<Rightarrow> nat" where
  "u32 n = nat (n mod 2 ^ 32)"

definition status_head :: "nat \<Rightarrow> int \<Rightarrow> bytes" where
  "status_head sz code = store32 (word_of_nat sz) @ store32 (word_of_int code)"

text \<open>\<open>Status(int code, const char *msg)\<close>: the message is copied without its final zero.\<close>

definition status_new :: "int \<Rightarrow> bytes \<Rightarrow> status option" where
  "status_new code msg =
     (let m = cstr msg; sz = u32 (int (length m) + 8); n = u32 (int sz - 8)
      in if sz < 8 + n then None else Some (Some (status_head sz code @ take n m)))"

text \<open>\<open>fromFormat\<close>: \<open>vsnprintf\<close> gives the length of the text, or \<open>-1\<close> if it exceeds an \<open>int\<close>.\<close>

definition status_format :: "int \<Rightarrow> bytes \<Rightarrow> status" where
  "status_format code text =
     (let n = (if int (length text) < 2 ^ 31 then int (length text) else - 1);
          sz = u32 (8 + n + 1)
      in Some (status_head sz code @ (if sz = 8 then [] else take (sz - 9) text @ [NUL])))"

text \<open>\<open>strerror\<close> is the C library's; \<open>err\<close> is \<open>errno\<close>.\<close>

definition status_ioError :: "(int \<Rightarrow> bytes) \<Rightarrow> int \<Rightarrow> bytes \<Rightarrow> bytes \<Rightarrow> status" where
  "status_ioError strerror err oper name =
     status_format err (cstr oper @ '' '' @ cstr name @ '' '' @ strerror err)"

definition status_fromSystem :: "(int \<Rightarrow> bytes) \<Rightarrow> int \<Rightarrow> status option" where
  "status_fromSystem strerror err = status_new err (strerror err)"

definition status_code :: "status \<Rightarrow> int" where
  "status_code s = (case s of None \<Rightarrow> 0 | Some b \<Rightarrow> sint (load32 b 4))"

text \<open>A C string at an offset of an allocation; without a zero the reader runs past its end.\<close>

definition cstr_at :: "bytes \<Rightarrow> nat \<Rightarrow> bytes option" where
  "cstr_at b p = (if NUL \<in> set (drop p b) then Some (cstr (drop p b)) else None)"

definition status_msg :: "status \<Rightarrow> bytes option" where
  "status_msg s = (case s of None \<Rightarrow> Some [] | Some b \<Rightarrow> cstr_at b 8)"

definition status_ok :: "status \<Rightarrow> bool" where
  "status_ok s \<longleftrightarrow> status_code s = 0"

definition status_toString :: "status \<Rightarrow> bytes option" where
  "status_toString s = map_option (\<lambda>m. util_format (show_int (status_code s) @ '' '' @ m)) (status_msg s)"

definition copyState :: "status \<Rightarrow> status option" where
  "copyState s =
     (case s of None \<Rightarrow> Some None
      | Some b \<Rightarrow> (let sz = unat (load32 b 0) in if length b < sz then None else Some (Some (take sz b))))"

text \<open>
  Assignment, by copy and by move, gives the target and the source. \<open>self\<close> tells that both are the
  same object, whose state has then been deleted.
\<close>

definition status_assign :: "bool \<Rightarrow> status \<Rightarrow> status \<Rightarrow> (status \<times> status) option" where
  "status_assign self dst src =
     (if self \<and> dst \<noteq> None then None else map_option (\<lambda>s. (s, src)) (copyState src))"

definition status_move :: "bool \<Rightarrow> status \<Rightarrow> status \<Rightarrow> status \<times> status" where
  "status_move self dst src = (if self then (None, None) else (src, None))"

section \<open>The packed form\<close>

text \<open>The first word of an allocation is its size.\<close>

definition status_packed :: "status \<Rightarrow> bool" where
  "status_packed s \<longleftrightarrow> (case s of None \<Rightarrow> True | Some b \<Rightarrow> 8 \<le> length b \<and> unat (load32 b 0) = length b)"

lemma head_load [simp]:
  "load32 (status_head sz code @ t) 0 = word_of_nat sz" "load32 (status_head sz code @ t) 4 = word_of_int code"
  "length (status_head sz code) = 8"
  using load32_store32_offset [of "[]" 0 "word_of_nat sz" "store32 (word_of_int code) @ t"]
    load32_store32_offset [of "store32 (word_of_nat sz)" 4 "word_of_int code" t]
  by (simp_all add: status_head_def)

lemma head_load_only [simp]:
  "load32 (status_head sz code) 0 = word_of_nat sz" "load32 (status_head sz code) 4 = word_of_int code"
  using head_load(1,2) [of sz code "[]"] by simp_all

lemma u32_id: "0 \<le> n \<Longrightarrow> n < 2 ^ 32 \<Longrightarrow> u32 n = nat n"
  by (simp add: u32_def)

lemma u32_bound: "u32 n < 2 ^ 32"
  by (simp add: u32_def nat_less_iff)

lemma unat_u32: "unat (word_of_nat (u32 n) :: 32 word) = u32 n"
  using u32_bound [of n] by (simp add: unsigned_of_nat take_bit_nat_eq_self)

lemma sint_code: "- (2 ^ 31) \<le> c \<Longrightarrow> c < 2 ^ 31 \<Longrightarrow> sint (word_of_int c :: 32 word) = c"
  by (simp add: signed_of_int signed_take_bit_int_eq_self)

text \<open>The length of what follows the head, and the size it is given, agree.\<close>

lemma u32_less: "0 \<le> n \<Longrightarrow> int (u32 n) \<le> n"
  by (simp add: u32_def) (simp add: zmod_le_nonneg_dividend)

lemma u32_minus:
  assumes "\<not> sz < 8 + u32 (int sz - 8)" and "sz < 2 ^ 32"
  shows "u32 (int sz - 8) = sz - 8" and "8 \<le> sz"
proof -
  show "8 \<le> sz" using assms(1) by simp
  then show "u32 (int sz - 8) = sz - 8" using assms(2) by (simp add: u32_id nat_diff_distrib')
qed

lemma status_new_packed: "status_new code msg = Some s \<Longrightarrow> status_packed s"
proof -
  assume new: "status_new code msg = Some s"
  let ?m = "cstr msg" and ?sz = "u32 (int (length (cstr msg)) + 8)"
  have n: "u32 (int ?sz - 8) = ?sz - 8" "8 \<le> ?sz"
    using new u32_minus [of ?sz, OF _ u32_bound] by (auto simp: status_new_def Let_def split: if_splits)
  have "?sz - 8 \<le> length ?m" using u32_less [of "int (length ?m) + 8"] by linarith
  moreover have "s = Some (status_head ?sz code @ take (?sz - 8) ?m)"
    using new n by (auto simp: status_new_def Let_def split: if_splits)
  ultimately show ?thesis using n(2) by (simp add: status_packed_def unat_u32)
qed

lemma status_format_packed: "status_packed (status_format code text)"
proof -
  let ?n = "if int (length text) < 2 ^ 31 then int (length text) else - 1"
  have sz: "int (u32 (8 + ?n + 1)) = 9 + ?n" by (simp add: u32_def)
  show ?thesis
  proof (cases "int (length text) < 2 ^ 31")
    case True
    with sz have u: "u32 (8 + ?n + 1) = 9 + length text" by simp
    moreover from u unat_u32 [of "8 + ?n + 1"] have "unat (word_of_nat (9 + length text) :: 32 word) = 9 + length text"
      by simp
    ultimately show ?thesis using True by (simp add: status_format_def status_packed_def Let_def del: of_nat_add)
  next
    case False
    with sz have "u32 (8 + ?n + 1) = 8" by simp
    with False show ?thesis by (simp add: status_format_def status_packed_def Let_def)
  qed
qed

lemma copyState_packed: "status_packed s \<Longrightarrow> copyState s = Some s"
  by (auto simp: copyState_def status_packed_def split: option.splits)

lemma status_format_read:
  assumes "- (2 ^ 31) \<le> code" and "code < 2 ^ 31" and "int (length text) < 2 ^ 31" and "NUL \<notin> set text"
  shows "status_code (status_format code text) = code" and "status_msg (status_format code text) = Some text"
proof -
  have "u32 (8 + int (length text) + 1) = 9 + length text" using assms(3) by (simp add: u32_def)
  then have "status_format code text = Some (status_head (9 + length text) code @ text @ [NUL])"
    using assms(3) by (simp add: status_format_def)
  with sint_code [OF assms(1,2)] assms(4)
  show "status_code (status_format code text) = code" "status_msg (status_format code text) = Some text"
    by (simp_all add: status_code_def status_msg_def cstr_at_def cstr_append)
qed

section \<open>Properties\<close>

text \<open>
  A status made by \<open>fromFormat\<close>, and every copy of it, gives back its code and its message. One
  made by \<open>Status(int, const char *)\<close> gives back its code, but its message has no final zero: \<open>msg\<close>
  and \<open>toString\<close> read past the end of the allocation, for every message.
\<close>

theorem status_message:
  assumes "- (2 ^ 31) \<le> code" and "code < 2 ^ 31" and "int (length text) < 2 ^ 31" and "NUL \<notin> set text"
  shows "status_code (status_format code text) = code \<and> status_msg (status_format code text) = Some text \<and>
    copyState (status_format code text) = Some (status_format code text) \<and>
    (\<exists>s. status_new code text = Some s \<and> status_code s = code \<and> status_msg s = None \<and> status_toString s = None \<and>
      copyState s = Some s)"
proof -
  have n: "u32 (int (length text) + 8) = length text + 8" "u32 (int (length text + 8) - 8) = length text"
    using assms(3) by (simp_all add: u32_def)
  then have new: "status_new code text = Some (Some (status_head (length text + 8) code @ text))"
    using assms(4) by (simp add: status_new_def cstr_id)
  have kept: "copyState (status_format code text) = Some (status_format code text)"
    by (rule copyState_packed, rule status_format_packed)
  have kept2: "copyState (Some (status_head (length text + 8) code @ text)) = Some (Some (status_head (length text + 8) code @ text))"
    by (rule copyState_packed, rule status_new_packed, rule new)
  have "status_code (Some (status_head (length text + 8) code @ text)) = code \<and>
      status_msg (Some (status_head (length text + 8) code @ text)) = None"
    using sint_code [OF assms(1,2)] assms(4) by (simp add: status_code_def status_msg_def cstr_at_def)
  then show ?thesis using kept kept2 status_format_read [OF assms] by (simp add: new status_toString_def)
qed

theorem status_message_witness:
  "status_msg (status_format 2 ''open f'') = Some ''open f'' \<and> (\<exists>s. status_new 2 ''bad'' = Some s \<and> status_msg s = None)"
  using status_message [of 2 "''open f''"] status_message [of 2 "''bad''"] by auto

end
