(* ===== verification/Handy_Sys.thy ===== *)
theory Handy_Sys
  imports Handy_Status
begin

text \<open>
  System calls of the components that work on files, sockets and processes. What the kernel answers is
  a script, one result for every call whose result the program looks at; the calls made are kept in
  the order they were made.
\<close>

text \<open>\<open>Err e\<close>: the call gave -1 and \<open>errno\<close> is \<open>e\<close>. \<open>Got b\<close>: the call filled a buffer with \<open>b\<close>.\<close>

datatype sysres = Res int | Got bytes | Err int

record 'c world =
  w_script :: "sysres list"
  w_trace :: "'c list"

definition world_new :: "sysres list \<Rightarrow> 'c world" where
  "world_new rs = \<lparr>w_script = rs, w_trace = []\<rparr>"

text \<open>A call, and a call whose result the program drops. After the end of the script calls fail with \<open>EAGAIN\<close>, which is 11.\<close>

definition sys :: "'c \<Rightarrow> 'c world \<Rightarrow> sysres \<times> 'c world" where
  "sys call w =
     ((case w_script w of [] \<Rightarrow> Err 11 | r # _ \<Rightarrow> r),
      w\<lparr>w_script := tl (w_script w), w_trace := w_trace w @ [call]\<rparr>)"

definition sys_drop :: "'c \<Rightarrow> 'c world \<Rightarrow> 'c world" where
  "sys_drop call w = w\<lparr>w_trace := w_trace w @ [call]\<rparr>"

definition res_int :: "sysres \<Rightarrow> int" where
  "res_int r = (case r of Res n \<Rightarrow> n | Got b \<Rightarrow> int (length b) | Err _ \<Rightarrow> - 1)"

definition res_errno :: "sysres \<Rightarrow> int" where
  "res_errno r = (case r of Err e \<Rightarrow> e | _ \<Rightarrow> 0)"

definition res_bytes :: "nat \<Rightarrow> sysres \<Rightarrow> bytes" where
  "res_bytes n r = (case r of Got b \<Rightarrow> take n b | _ \<Rightarrow> [])"

named_theorems sys_simps

lemma sys_script [sys_simps]:
  "sys call \<lparr>w_script = r # rs, w_trace = tr\<rparr> = (r, \<lparr>w_script = rs, w_trace = tr @ [call]\<rparr>)"
  "sys call \<lparr>w_script = [], w_trace = tr\<rparr> = (Err 11, \<lparr>w_script = [], w_trace = tr @ [call]\<rparr>)"
  by (simp_all add: sys_def)

lemma sys_drop_script [sys_simps]:
  "sys_drop call \<lparr>w_script = rs, w_trace = tr\<rparr> = \<lparr>w_script = rs, w_trace = tr @ [call]\<rparr>"
  by (simp add: sys_drop_def)

lemma res_simps [sys_simps]:
  "res_int (Res i) = i" "res_int (Err e) = - 1" "res_int (Got b) = int (length b)"
  "res_errno (Err e) = e" "res_bytes n (Got b) = take n b" "res_bytes n (Res i) = []"
  by (simp_all add: res_int_def res_errno_def res_bytes_def)

lemma world_new_script [sys_simps]: "world_new rs = \<lparr>w_script = rs, w_trace = []\<rparr>"
  by (simp add: world_new_def)

lemma sys_measure: "sys call w = (r, w') \<Longrightarrow> w_script w \<noteq> [] \<Longrightarrow> length (w_script w') < length (w_script w)"
  by (auto simp: sys_def)

lemma sys_end: "w_script w = [] \<Longrightarrow> fst (sys call w) = Err 11"
  by (simp add: sys_def)

end
