(* ===== verification/Handy_Socket.thy ===== *)
theory Handy_Socket
  imports Handy_Sys Handy_Channel
begin

text \<open>
  Sockets: the option and flag wrappers of \<open>net\<close> (\<open>handy/net.cc\<close>) and \<open>util::addFdFlag\<close>
  (\<open>handy/util.cc\<close>) over scripted system calls, and the part of \<open>bind\<close> that \<open>TcpServer\<close> and \<open>UdpServer\<close>
  share. Numbers of calls and options are those of Linux. \<open>None\<close> is a process that \<open>fatalif\<close> has ended.
\<close>

datatype sock_call =
    Socket int | Pipe | SetSockOpt int int int int | FcntlGet int int | FcntlSet int int int
  | BindTo int sockaddr_in | ListenOn int int | Accept int | GetPeerName int | GetSockName int
  | ConnectTo int sockaddr_in | CloseSock int
  | RecvFrom int nat | RecvFd int nat | SendTo int bytes sockaddr_in | WriteSock int bytes

type_synonym sworld = "sock_call world"

definition SOCK_STREAM :: int where "SOCK_STREAM = 1"
definition SOCK_DGRAM :: int where "SOCK_DGRAM = 2"
definition SOL_SOCKET :: int where "SOL_SOCKET = 1"
definition IPPROTO_TCP :: int where "IPPROTO_TCP = 6"
definition F_GETFD :: int where "F_GETFD = 1"
definition F_SETFD :: int where "F_SETFD = 2"
definition F_GETFL :: int where "F_GETFL = 3"
definition F_SETFL :: int where "F_SETFL = 4"
definition O_NONBLOCK :: int where "O_NONBLOCK = 2048"
definition FD_CLOEXEC :: int where "FD_CLOEXEC = 1"

definition sys_int :: "'c \<Rightarrow> 'c world \<Rightarrow> int \<times> 'c world" where
  "sys_int call w = (let (r, w) = sys call w in (res_int r, w))"

lemma sys_int_script [sys_simps]:
  "sys_int call \<lparr>w_script = r # rs, w_trace = tr\<rparr> = (res_int r, \<lparr>w_script = rs, w_trace = tr @ [call]\<rparr>)"
  by (simp add: sys_int_def sys_simps)

text \<open>A \<open>bool\<close> as an \<open>int\<close>.\<close>

definition bool_int :: "bool \<Rightarrow> int" where
  "bool_int b = (if b then 1 else 0)"

text \<open>The errors of \<open>F_GETFL\<close> come back as the positive \<open>errno\<close>.\<close>

definition net_setNonBlock :: "int \<Rightarrow> bool \<Rightarrow> sworld \<Rightarrow> int \<times> sworld" where
  "net_setNonBlock fd value w =
     (let (r, w) = sys (FcntlGet fd F_GETFL) w; flags = res_int r in
      if flags < 0 then (res_errno r, w)
      else if value then sys_int (FcntlSet fd F_SETFL (flags OR O_NONBLOCK)) w
      else sys_int (FcntlSet fd F_SETFL (flags AND NOT O_NONBLOCK)) w)"

definition net_setReuseAddr :: "int \<Rightarrow> bool \<Rightarrow> sworld \<Rightarrow> int \<times> sworld" where
  "net_setReuseAddr fd value w = sys_int (SetSockOpt fd SOL_SOCKET 2 (bool_int value)) w"

definition net_setReusePort :: "int \<Rightarrow> bool \<Rightarrow> sworld \<Rightarrow> int \<times> sworld" where
  "net_setReusePort fd value w = sys_int (SetSockOpt fd SOL_SOCKET 15 (bool_int value)) w"

definition net_setNoDelay :: "int \<Rightarrow> bool \<Rightarrow> sworld \<Rightarrow> int \<times> sworld" where
  "net_setNoDelay fd value w = sys_int (SetSockOpt fd IPPROTO_TCP 1 (bool_int value)) w"

definition net_setKeepAlived :: "int \<Rightarrow> int \<Rightarrow> int \<Rightarrow> int \<Rightarrow> sworld \<Rightarrow> int \<times> sworld" where
  "net_setKeepAlived fd idle interval keepcnt w =
     (let (r, w) = sys_int (SetSockOpt fd SOL_SOCKET 9 1) w in
      if r = - 1 then (- 1, w)
      else let (r, w) = sys_int (SetSockOpt fd IPPROTO_TCP 4 idle) w in
      if r = - 1 then (- 1, w)
      else let (r, w) = sys_int (SetSockOpt fd IPPROTO_TCP 5 interval) w in
      if r = - 1 then (- 1, w)
      else sys_int (SetSockOpt fd IPPROTO_TCP 6 keepcnt) w)"

text \<open>The answer of \<open>F_GETFD\<close> is not looked at: after a failure \<open>F_SETFD\<close> gets all bits.\<close>

definition addFdFlag :: "int \<Rightarrow> int \<Rightarrow> sworld \<Rightarrow> int \<times> sworld" where
  "addFdFlag fd flag w =
     (let (ret, w) = sys_int (FcntlGet fd F_GETFD) w in sys_int (FcntlSet fd F_SETFD (ret OR flag)) w)"

text \<open>\<open>fatalif\<close> of a number.\<close>

definition fatalif :: "bool \<Rightarrow> unit option" where
  "fatalif b = (if b then None else Some ())"

text \<open>
  The beginning of \<open>bind\<close>: a socket of the kind, its options, and the address. The answer is the
  descriptor, or the \<open>errno\<close> of the failed \<open>::bind\<close> with the descriptor closed. The result of \<open>socket\<close>
  is not looked at.
\<close>

definition bound_socket :: "int \<Rightarrow> sockaddr_in \<Rightarrow> bool \<Rightarrow> sworld \<Rightarrow> ((int + int) \<times> sworld) option" where
  "bound_socket kind addr reusePort w =
     (let (fd, w) = sys_int (Socket kind) w; (r, w) = net_setReuseAddr fd True w in do {
        fatalif (r \<noteq> 0);
        let (r, w) = net_setReusePort fd reusePort w;
        fatalif (r \<noteq> 0);
        let (r, w) = addFdFlag fd FD_CLOEXEC w;
        fatalif (r \<noteq> 0);
        let (r, w) = sys (BindTo fd addr) w;
        Some (if res_int r \<noteq> 0 then (Inl (res_errno r), sys_drop (CloseSock fd) w) else (Inr fd, w))
      })"

text \<open>
  \<open>Channel::Channel\<close> for a socket: \<open>setNonBlock\<close> and the registration. \<open>chid\<close> is the next value of the
  static counter.
\<close>

definition new_channel :: "nat \<Rightarrow> int \<Rightarrow> 16 word \<Rightarrow> sworld \<Rightarrow> ((channel \<times> effect list) \<times> sworld) option" where
  "new_channel chid fd events w =
     (let (r, w) = net_setNonBlock fd True w in do {
        fatalif (r < 0);
        Some ((\<lparr>ch_id = chid, ch_fd = fd, ch_events = events\<rparr>, [AddChannel chid fd events]), w)
      })"

lemma fatalif_simps [simp]: "fatalif True = None" "fatalif False = Some ()"
  by (simp_all add: fatalif_def)

text \<open>The calls of a \<open>bind\<close> that comes to \<open>::bind\<close>.\<close>

definition bind_trace :: "int \<Rightarrow> int \<Rightarrow> sockaddr_in \<Rightarrow> bool \<Rightarrow> int \<Rightarrow> sock_call list" where
  "bind_trace kind fd addr reusePort fl =
     [Socket kind, SetSockOpt fd SOL_SOCKET 2 1, SetSockOpt fd SOL_SOCKET 15 (bool_int reusePort),
      FcntlGet fd F_GETFD, FcntlSet fd F_SETFD (fl OR FD_CLOEXEC), BindTo fd addr]"

lemma bound_socket_runs:
  "bound_socket kind addr reusePort (world_new (Res fd # Res 0 # Res 0 # Res fl # Res 0 # r # rs)) =
     Some (if res_int r \<noteq> 0
       then (Inl (res_errno r), \<lparr>w_script = rs, w_trace = bind_trace kind fd addr reusePort fl @ [CloseSock fd]\<rparr>)
       else (Inr fd, \<lparr>w_script = rs, w_trace = bind_trace kind fd addr reusePort fl\<rparr>))"
  by (simp add: bound_socket_def net_setReuseAddr_def net_setReusePort_def addFdFlag_def sys_simps bind_trace_def
      bool_int_def del: One_nat_def)

end
