(* ===== verification/Handy_Loop.thy ===== *)
theory Handy_Loop
  imports Handy_Threads
begin

text \<open>
  The thread of an event loop and the threads that talk to it (\<open>EventsImp\<close> in
  \<open>handy/event_base.cc\<close>): \<open>safeCall\<close> and \<open>exit\<close> from any thread, the wake-up pipe, the queue of
  tasks and \<open>loop\<close>. The moments between two accesses to shared state are steps. What other
  channels, the timers and the idle lists do is left to the theories about them: here a wait
  may end without the pipe being readable. A pipe holds \<open>65536\<close> bytes; a write to a full one waits.
\<close>

definition pipe_room :: nat where
  "pipe_room = 65536"

text \<open>
  Where the loop thread is; \<open>fin\<close> tells the \<open>loop_once\<close> after the loop from those of the loop.
  \<open>LRead\<close> is the handler of the pipe's channel.
\<close>

datatype 'a loop_pc =
    LTop
  | LWait bool
  | LEvents bool bool
  | LRead bool
  | LPop bool
  | LRun 'a bool
  | LTimers bool
  | LClear
  | LDone

record 'a evloop =
  e_exit :: bool
  e_pipe :: nat
  e_tasks :: "'a squeue"
  e_pexited :: bool             \<comment> \<open>\<open>poller_->exited_\<close>\<close>
  e_pc :: "'a loop_pc"
  e_pushed :: nat               \<comment> \<open>callers of \<open>safeCall\<close> between \<open>push\<close> and \<open>wakeup\<close>\<close>
  e_exiting :: nat              \<comment> \<open>callers of \<open>exit\<close> between setting \<open>exit_\<close> and \<open>wakeup\<close>\<close>
  e_woken :: nat                \<comment> \<open>callers of \<open>exit\<close> between \<open>wakeup\<close> and \<open>poller_->exited()\<close>\<close>
  e_cleared :: bool             \<comment> \<open>have the timers and idle lists been dropped\<close>
  e_accepted :: "'a list"
  e_ran :: "'a list"

definition evloop_new :: "nat \<Rightarrow> 'a evloop" where
  "evloop_new cap = \<lparr>e_exit = False, e_pipe = 0, e_tasks = sq_new cap, e_pexited = False, e_pc = LTop,
     e_pushed = 0, e_exiting = 0, e_woken = 0, e_cleared = False, e_accepted = [], e_ran = []\<rparr>"

section \<open>The loop thread\<close>

text \<open>
  The handler of the pipe's channel takes up to 1024 bytes and then runs tasks until the queue is
  empty.
\<close>

definition pipe_handler :: "'a evloop \<Rightarrow> 'a evloop option" where
  "pipe_handler s =
     (case e_pc s of
        LRead fin \<Rightarrow> if e_pipe s > 0 then Some (s\<lparr>e_pipe := e_pipe s - 1024, e_pc := LPop fin\<rparr>) else None
      | LPop fin \<Rightarrow>
          (case sq_pop (e_tasks s) of
             (None, q) \<Rightarrow> Some (s\<lparr>e_pc := LTimers fin\<rparr>)
           | (Some t, q) \<Rightarrow> Some (s\<lparr>e_tasks := q, e_ran := e_ran s @ [t], e_pc := LRun t fin\<rparr>))
      | LRun t fin \<Rightarrow> Some (s\<lparr>e_pc := LPop fin\<rparr>)
      | _ \<Rightarrow> None)"

text \<open>One step of the thread; \<open>None\<close> when it waits or has returned.\<close>

definition loop_thread :: "'a evloop \<Rightarrow> 'a evloop option" where
  "loop_thread s =
     (case e_pc s of
        LTop \<Rightarrow> Some (s\<lparr>e_pc := (if e_exit s then LClear else LWait False)\<rparr>)
      | LWait fin \<Rightarrow> if e_pipe s > 0 \<or> fin then Some (s\<lparr>e_pc := LEvents (e_pipe s > 0) fin\<rparr>) else None
      | LEvents ready fin \<Rightarrow> Some (s\<lparr>e_pc := (if ready \<and> \<not> e_pexited s then LRead fin else LTimers fin)\<rparr>)
      | LTimers fin \<Rightarrow> Some (s\<lparr>e_pc := (if fin then LDone else LTop)\<rparr>)
      | LClear \<Rightarrow> Some (s\<lparr>e_cleared := True, e_pc := LWait True\<rparr>)
      | LDone \<Rightarrow> None
      | _ \<Rightarrow> pipe_handler s)"

lemmas thread_defs = loop_thread_def pipe_handler_def

text \<open>The callers. The wait may also end because of another channel or its time limit.\<close>

definition call_push :: "'a \<Rightarrow> 'a evloop \<Rightarrow> 'a evloop" where
  "call_push t s =
     s\<lparr>e_tasks := safeCall t (e_tasks s), e_pushed := e_pushed s + 1,
       e_accepted := (if fst (sq_push t (e_tasks s)) then e_accepted s @ [t] else e_accepted s)\<rparr>"

definition call_wakeup :: "'a evloop \<Rightarrow> 'a evloop" where
  "call_wakeup s = s\<lparr>e_pipe := e_pipe s + 1\<rparr>"

inductive loop_step :: "'a evloop \<Rightarrow> 'a evloop \<Rightarrow> bool" where
  step_thread: "loop_thread s = Some s' \<Longrightarrow> loop_step s s'"
| step_other: "e_pc s = LWait fin \<Longrightarrow> e_pipe s = 0 \<Longrightarrow> loop_step s (s\<lparr>e_pc := LEvents False fin\<rparr>)"
| step_push: "loop_step s (call_push t s)"
| step_pushed: "e_pushed s > 0 \<Longrightarrow> e_pipe s < pipe_room \<Longrightarrow>
    loop_step s (call_wakeup (s\<lparr>e_pushed := e_pushed s - 1\<rparr>))"
| step_wakeup: "e_pipe s < pipe_room \<Longrightarrow> loop_step s (call_wakeup s)"
| step_exit: "loop_step s (s\<lparr>e_exit := True, e_exiting := e_exiting s + 1\<rparr>)"
| step_exit_wakeup: "e_exiting s > 0 \<Longrightarrow> e_pipe s < pipe_room \<Longrightarrow>
    loop_step s (call_wakeup (s\<lparr>e_exiting := e_exiting s - 1, e_woken := e_woken s + 1\<rparr>))"
| step_exit_poller: "e_woken s > 0 \<Longrightarrow> loop_step s (s\<lparr>e_pexited := True, e_woken := e_woken s - 1\<rparr>)"

inductive loop_reach :: "nat \<Rightarrow> 'a evloop \<Rightarrow> bool" for cap where
  reach_new: "loop_reach cap (evloop_new cap)"
| reach_step: "loop_reach cap s \<Longrightarrow> loop_step s s' \<Longrightarrow> loop_reach cap s'"

inductive_cases loop_stepE: "loop_step s s'"

text \<open>The loop thread alone, for \<open>n\<close> steps or until it waits.\<close>

fun loop_run :: "nat \<Rightarrow> 'a evloop \<Rightarrow> 'a evloop" where
  "loop_run 0 s = s"
| "loop_run (Suc n) s = (case loop_thread s of None \<Rightarrow> s | Some s' \<Rightarrow> loop_run n s')"

section \<open>The invariant\<close>

fun in_handler :: "'a loop_pc \<Rightarrow> bool" where
  "in_handler (LPop _) = True"
| "in_handler (LRun _ _) = True"
| "in_handler _ = False"

fun needs_pipe :: "'a loop_pc \<Rightarrow> bool" where
  "needs_pipe (LEvents r _) = r"
| "needs_pipe (LRead _) = True"
| "needs_pipe _ = False"

fun after_loop :: "'a loop_pc \<Rightarrow> bool" where
  "after_loop (LWait l) = l"
| "after_loop (LEvents _ l) = l"
| "after_loop (LRead l) = l"
| "after_loop (LPop l) = l"
| "after_loop (LRun _ l) = l"
| "after_loop (LTimers l) = l"
| "after_loop LTop = False"
| "after_loop _ = True"

definition loop_ok :: "'a evloop \<Rightarrow> bool" where
  "loop_ok s \<longleftrightarrow>
     e_accepted s = e_ran s @ q_items (e_tasks s) \<and>
     (q_items (e_tasks s) \<noteq> [] \<and> \<not> after_loop (e_pc s) \<longrightarrow> e_pipe s > 0 \<or> e_pushed s > 0 \<or> in_handler (e_pc s)) \<and>
     (e_exit s \<and> e_pc s = LWait False \<longrightarrow> e_exiting s > 0 \<or> e_pipe s > 0) \<and>
     (needs_pipe (e_pc s) \<longrightarrow> e_pipe s > 0) \<and>
     (after_loop (e_pc s) \<or> e_pexited s \<or> e_exiting s > 0 \<or> e_woken s > 0 \<longrightarrow> e_exit s) \<and>
     (e_cleared s \<longleftrightarrow> after_loop (e_pc s) \<and> e_pc s \<noteq> LClear)"

lemma loop_ok_new: "loop_ok (evloop_new cap)"
  by (simp add: loop_ok_def evloop_new_def sq_new_def)

lemma loop_thread_ok:
  assumes "loop_ok s" and "loop_thread s = Some s'"
  shows "loop_ok s'"
proof (cases "e_pc s")
  case (LPop fin)
  show ?thesis
  proof (cases "q_items (e_tasks s)")
    case Nil
    with assms LPop show ?thesis by (auto simp: thread_defs sq_pop_def loop_ok_def)
  next
    case (Cons t ts)
    with assms(2) LPop have "s' = s\<lparr>e_tasks := (e_tasks s)\<lparr>q_items := ts\<rparr>, e_ran := e_ran s @ [t], e_pc := LRun t fin\<rparr>"
      by (simp add: thread_defs sq_pop_def)
    with assms(1) LPop Cons show ?thesis by (simp add: loop_ok_def)
  qed
next
  case LTop
  with assms(2) have "s' = s\<lparr>e_pc := (if e_exit s then LClear else LWait False)\<rparr>" by (simp add: thread_defs)
  with assms(1) LTop show ?thesis by (simp add: loop_ok_def)
next
  case (LWait fin)
  with assms(2) have "s' = s\<lparr>e_pc := LEvents (e_pipe s > 0) fin\<rparr>"
    by (simp add: thread_defs split: if_splits)
  with assms(1) LWait show ?thesis by (simp add: loop_ok_def)
next
  case (LEvents r fin)
  with assms(2) have "s' = s\<lparr>e_pc := (if r \<and> \<not> e_pexited s then LRead fin else LTimers fin)\<rparr>"
    by (simp add: thread_defs)
  with assms(1) LEvents show ?thesis by (simp add: loop_ok_def)
next
  case (LRead fin)
  with assms(2) have "s' = s\<lparr>e_pipe := e_pipe s - 1024, e_pc := LPop fin\<rparr>"
    by (simp add: thread_defs split: if_splits)
  with assms(1) LRead show ?thesis by (simp add: loop_ok_def)
next
  case (LRun t fin)
  with assms(2) have "s' = s\<lparr>e_pc := LPop fin\<rparr>" by (simp add: thread_defs)
  with assms(1) LRun show ?thesis by (simp add: loop_ok_def)
next
  case (LTimers fin)
  with assms(2) have "s' = s\<lparr>e_pc := (if fin then LDone else LTop)\<rparr>" by (simp add: thread_defs)
  with assms(1) LTimers show ?thesis by (simp add: loop_ok_def)
next
  case LClear
  with assms(2) have "s' = s\<lparr>e_cleared := True, e_pc := LWait True\<rparr>" by (simp add: thread_defs)
  with assms(1) LClear show ?thesis by (simp add: loop_ok_def)
qed (use assms in \<open>simp add: thread_defs\<close>)

lemma call_push_items: "q_items (safeCall t q) = (if fst (sq_push t q) then q_items q @ [t] else q_items q)"
  by (simp add: safeCall_def sq_push_def)

lemma loop_step_ok: "loop_step s s' \<Longrightarrow> loop_ok s \<Longrightarrow> loop_ok s'"
proof (induction rule: loop_step.induct)
  case (step_thread s s')
  then show ?case by (simp add: loop_thread_ok)
qed (auto simp: loop_ok_def call_push_def call_wakeup_def call_push_items)

lemma loop_reach_ok: "loop_reach cap s \<Longrightarrow> loop_ok s"
  by (induction rule: loop_reach.induct) (auto intro: loop_ok_new loop_step_ok)

section \<open>The loop thread makes progress\<close>

lemma loop_run_step: "loop_thread s = Some s' \<Longrightarrow> loop_run (Suc n) s = loop_run n s'"
  by simp

lemma loop_run_add: "loop_run (m + n) s = loop_run n (loop_run m s)"
proof (induction m arbitrary: s)
  case (Suc m)
  then show ?case
  proof (cases "loop_thread s")
    case None
    then have "loop_run k s = s" for k by (cases k) simp_all
    with None show ?thesis by simp
  qed simp
qed simp

text \<open>From the handler the queue is emptied, in order.\<close>

lemma handler_drains:
  assumes "e_pc s = LPop fin" and "q_items (e_tasks s) = ts"
  shows "loop_run (2 * length ts + 1) s =
    s\<lparr>e_tasks := (e_tasks s)\<lparr>q_items := []\<rparr>, e_ran := e_ran s @ ts, e_pc := LTimers fin\<rparr>"
  using assms
proof (induction ts arbitrary: s)
  case Nil
  then have "e_tasks s = (e_tasks s)\<lparr>q_items := []\<rparr>" by simp
  with Nil show ?case by (simp add: thread_defs sq_pop_def)
next
  case (Cons t ts)
  let ?s = "s\<lparr>e_tasks := (e_tasks s)\<lparr>q_items := ts\<rparr>, e_ran := e_ran s @ [t], e_pc := LRun t fin\<rparr>"
  have "loop_thread s = Some ?s" using Cons.prems by (simp add: thread_defs sq_pop_def)
  moreover have "loop_thread ?s = Some (?s\<lparr>e_pc := LPop fin\<rparr>)" by (simp add: thread_defs)
  moreover note Cons.IH [of "?s\<lparr>e_pc := LPop fin\<rparr>"]
  ultimately show ?case by (simp add: numeral_2_eq_2)
qed

lemma run_drains:
  assumes "in_handler (e_pc s)"
  shows "\<exists>n. q_items (e_tasks (loop_run n s)) = [] \<and> e_ran (loop_run n s) = e_ran s @ q_items (e_tasks s)"
proof (cases "e_pc s")
  case (LPop fin)
  show ?thesis
    using handler_drains [OF LPop refl] by (intro exI [of _ "2 * length (q_items (e_tasks s)) + 1"]) simp
next
  case (LRun t fin)
  then have "loop_run 1 s = s\<lparr>e_pc := LPop fin\<rparr>" by (simp add: thread_defs)
  with handler_drains [of "s\<lparr>e_pc := LPop fin\<rparr>" fin] show ?thesis
    using loop_run_add [of 1 _ s] by (intro exI [of _ "1 + (2 * length (q_items (e_tasks s)) + 1)"]) simp
qed (use assms in simp_all)

text \<open>Alone, the thread comes to a state with \<open>P\<close>.\<close>

definition reaches :: "('a evloop \<Rightarrow> bool) \<Rightarrow> 'a evloop \<Rightarrow> bool" where
  "reaches P s \<longleftrightarrow> (\<exists>n. P (loop_run n s))"

lemma reaches_now: "P s \<Longrightarrow> reaches P s"
  unfolding reaches_def by (rule exI [of _ 0]) simp

lemma reaches_run: "reaches P (loop_run m s) \<Longrightarrow> reaches P s"
  unfolding reaches_def using loop_run_add by metis

lemma reaches_step: "loop_thread s = Some s' \<Longrightarrow> reaches P s' \<Longrightarrow> reaches P s"
  using reaches_run [of P 1 s] by simp

text \<open>What the thread does in each place, as equations.\<close>

lemma thread_steps:
  "e_pc s = LTop \<Longrightarrow> loop_thread s = Some (s\<lparr>e_pc := (if e_exit s then LClear else LWait False)\<rparr>)"
  "e_pc s = LWait fin \<Longrightarrow> e_pipe s > 0 \<or> fin \<Longrightarrow> loop_thread s = Some (s\<lparr>e_pc := LEvents (e_pipe s > 0) fin\<rparr>)"
  "e_pc s = LEvents r fin \<Longrightarrow> loop_thread s = Some (s\<lparr>e_pc := (if r \<and> \<not> e_pexited s then LRead fin else LTimers fin)\<rparr>)"
  "e_pc s = LRead fin \<Longrightarrow> e_pipe s > 0 \<Longrightarrow> loop_thread s = Some (s\<lparr>e_pipe := e_pipe s - 1024, e_pc := LPop fin\<rparr>)"
  "e_pc s = LRun t fin \<Longrightarrow> loop_thread s = Some (s\<lparr>e_pc := LPop fin\<rparr>)"
  "e_pc s = LTimers fin \<Longrightarrow> loop_thread s = Some (s\<lparr>e_pc := (if fin then LDone else LTop)\<rparr>)"
  "e_pc s = LClear \<Longrightarrow> loop_thread s = Some (s\<lparr>e_cleared := True, e_pc := LWait True\<rparr>)"
  by (simp_all add: thread_defs)

definition drained :: "'a evloop \<Rightarrow> 'a evloop \<Rightarrow> bool" where
  "drained s0 s \<longleftrightarrow> q_items (e_tasks s) = [] \<and> e_ran s = e_ran s0 @ q_items (e_tasks s0)"

lemma drained_pc [simp]: "drained (s\<lparr>e_pc := pc\<rparr>) = drained s" "drained (s\<lparr>e_pipe := n\<rparr>) = drained s"
  by (simp_all add: drained_def fun_eq_iff)

lemma drain_handler: "in_handler (e_pc s) \<Longrightarrow> reaches (drained s) s"
  using run_drains [of s] by (simp add: drained_def reaches_def)

lemma drain_read: "e_pc s = LRead fin \<Longrightarrow> e_pipe s > 0 \<Longrightarrow> reaches (drained s) s"
  using drain_handler [of "s\<lparr>e_pipe := e_pipe s - 1024, e_pc := LPop fin\<rparr>"] reaches_step [OF thread_steps(4)]
  by simp

lemma drain_events:
  assumes "e_pc s = LEvents r fin" and "e_pipe s > 0" and "\<not> e_pexited s"
    and "\<not> r \<Longrightarrow> reaches (drained s) (s\<lparr>e_pc := LTimers fin\<rparr>)"
  shows "reaches (drained s) s"
  using drain_read [of "s\<lparr>e_pc := LRead fin\<rparr>" fin] assms(2-4)
  by (intro reaches_step [OF thread_steps(3) [OF assms(1)]]) (cases r; simp)

lemma drain_wait: "e_pc s = LWait fin \<Longrightarrow> e_pipe s > 0 \<Longrightarrow> \<not> e_pexited s \<Longrightarrow> reaches (drained s) s"
  using drain_events [of "s\<lparr>e_pc := LEvents True fin\<rparr>" True fin] reaches_step [OF thread_steps(2), of s fin] by simp

lemma drain_top: "e_pc s = LTop \<Longrightarrow> e_pipe s > 0 \<Longrightarrow> \<not> e_pexited s \<Longrightarrow> \<not> e_exit s \<Longrightarrow> reaches (drained s) s"
  using drain_wait [of "s\<lparr>e_pc := LWait False\<rparr>" False] reaches_step [OF thread_steps(1), of s] by simp

lemma drain_timers:
  "e_pc s = LTimers False \<Longrightarrow> e_pipe s > 0 \<Longrightarrow> \<not> e_pexited s \<Longrightarrow> \<not> e_exit s \<Longrightarrow> reaches (drained s) s"
  using drain_top [of "s\<lparr>e_pc := LTop\<rparr>"] reaches_step [OF thread_steps(6), of s] by simp

lemma loop_drains:
  assumes "loop_ok s" and "e_pushed s = 0" and "\<not> e_exit s"
  shows "reaches (drained s) s"
proof (cases "q_items (e_tasks s) = [] \<or> in_handler (e_pc s)")
  case True
  then show ?thesis using drain_handler by (auto simp: drained_def intro: reaches_now)
next
  case False
  have live: "\<not> after_loop (e_pc s)" "\<not> e_pexited s" using assms(1,3) by (auto simp: loop_ok_def)
  then have pipe: "e_pipe s > 0" using assms(1,2) False by (simp add: loop_ok_def)
  show ?thesis
  proof (cases "e_pc s")
    case (LEvents r fin)
    with live(1) drain_timers [of "s\<lparr>e_pc := LTimers False\<rparr>"] pipe live(2) assms(3) show ?thesis
      by (intro drain_events [OF LEvents pipe live(2)]) simp
  next
    case (LTimers fin)
    with live(1) drain_timers [OF _ pipe live(2) assms(3)] show ?thesis by simp
  qed (use live(1) False drain_top [OF _ pipe live(2) assms(3)] drain_wait [OF _ pipe live(2)] drain_read [OF _ pipe]
      in simp_all)
qed

section \<open>The loop ends after exit\<close>

abbreviation ends :: "'a evloop \<Rightarrow> bool" where
  "ends \<equiv> reaches (\<lambda>s. e_pc s = LDone)"

text \<open>The timers are handled next, with the loop's exit flag unchanged.\<close>

definition to_timers :: "bool \<Rightarrow> 'a evloop \<Rightarrow> bool" where
  "to_timers fin (s :: 'a evloop) \<longleftrightarrow> (\<forall>t :: 'a evloop. e_pc t = LTimers fin \<longrightarrow> e_exit t = e_exit s \<longrightarrow> ends t)"

lemma to_timers_pc [simp]: "to_timers fin (s\<lparr>e_pc := pc\<rparr>) = to_timers fin s"
  "to_timers fin (s\<lparr>e_pipe := n\<rparr>) = to_timers fin s" "to_timers fin (s\<lparr>e_cleared := b\<rparr>) = to_timers fin s"
  by (simp_all add: to_timers_def)

lemma to_timersD:
  fixes s t :: "'a evloop"
  shows "to_timers fin s \<Longrightarrow> e_pc t = LTimers fin \<Longrightarrow> e_exit t = e_exit s \<Longrightarrow> ends t"
  by (simp add: to_timers_def)

lemma end_timers: "e_pc t = LTimers True \<Longrightarrow> ends t"
  by (rule reaches_step [OF thread_steps(6)], assumption, rule reaches_now) simp

lemma to_timers_last [simp]: "to_timers True s"
  by (simp add: to_timers_def end_timers)

lemma end_pop: "e_pc s = LPop fin \<Longrightarrow> to_timers fin s \<Longrightarrow> ends s"
  by (rule reaches_run [of _ "2 * length (q_items (e_tasks s)) + 1"], rule to_timersD [of fin s])
    (simp_all only: handler_drains [OF _ refl], simp_all)

lemma end_read: "e_pc s = LRead fin \<Longrightarrow> e_pipe s > 0 \<Longrightarrow> to_timers fin s \<Longrightarrow> ends s"
  using end_pop [of "s\<lparr>e_pipe := e_pipe s - 1024, e_pc := LPop fin\<rparr>" fin] reaches_step [OF thread_steps(4)] by simp

lemma end_run: "e_pc s = LRun t fin \<Longrightarrow> to_timers fin s \<Longrightarrow> ends s"
  using end_pop [of "s\<lparr>e_pc := LPop fin\<rparr>" fin] reaches_step [OF thread_steps(5)] by simp

lemma end_events:
  assumes "e_pc s = LEvents r fin" and "r \<Longrightarrow> e_pipe s > 0" and "to_timers fin s"
  shows "ends s"
  using end_read [of "s\<lparr>e_pc := LRead fin\<rparr>" fin] to_timersD [OF assms(3), of "s\<lparr>e_pc := LTimers fin\<rparr>"] assms(2,3)
  by (intro reaches_step [OF thread_steps(3) [OF assms(1)]]) simp

lemma end_wait: "e_pc s = LWait fin \<Longrightarrow> e_pipe s > 0 \<or> fin \<Longrightarrow> to_timers fin s \<Longrightarrow> ends s"
  using end_events [of "s\<lparr>e_pc := LEvents (e_pipe s > 0) fin\<rparr>" "e_pipe s > 0" fin] reaches_step [OF thread_steps(2), of s fin]
  by simp

lemma end_clear: "e_pc s = LClear \<Longrightarrow> ends s"
  using end_wait [of "s\<lparr>e_cleared := True, e_pc := LWait True\<rparr>" True] reaches_step [OF thread_steps(7), of s] by simp

lemma end_top: "e_pc s = LTop \<Longrightarrow> e_exit s \<Longrightarrow> ends s"
  using end_clear [of "s\<lparr>e_pc := LClear\<rparr>"] reaches_step [OF thread_steps(1), of s] by simp

lemma to_timers_exit: "e_exit s \<Longrightarrow> to_timers fin s"
proof (cases fin)
  case False
  assume "e_exit s"
  moreover have "ends t" if "e_pc t = LTimers False" "e_exit t" for t :: "'a evloop"
    using end_top [of "t\<lparr>e_pc := LTop\<rparr>"] reaches_step [OF thread_steps(6), of t False] that by simp
  ultimately show ?thesis using False by (simp add: to_timers_def)
qed simp

lemma loop_ends:
  assumes "loop_ok s" and "e_exit s" and "e_exiting s = 0"
  shows "ends s"
proof -
  note tt = to_timers_exit [OF assms(2)]
  show ?thesis
  proof (cases "e_pc s")
    case (LWait fin)
    then have "e_pipe s > 0 \<or> fin" using assms by (cases fin) (auto simp: loop_ok_def)
    then show ?thesis by (rule end_wait [OF LWait _ tt])
  next
    case (LEvents r fin)
    with assms(1) tt show ?thesis by (intro end_events [OF LEvents]) (auto simp: loop_ok_def)
  next
    case (LRead fin)
    with assms(1) tt show ?thesis by (intro end_read [OF LRead]) (auto simp: loop_ok_def)
  next
    case (LTimers fin)
    with tt to_timersD show ?thesis by blast
  next
    case (LRun t fin)
    then show ?thesis using tt by (rule end_run)
  qed (use tt end_pop end_top end_clear assms(2) reaches_now in auto)
qed

section \<open>MultiBase\<close>

text \<open>
  Several loops (\<open>handy/event_base.h\<close>): \<open>allocBase\<close> takes them in turn by an \<open>int\<close> counter, which
  is converted to \<open>size_t\<close> for the remainder. No base at all is a division by zero; \<open>loop\<close> makes
  one thread less than there are bases.
\<close>

record 'a multi =
  m_id :: int
  m_bases :: "'a evloop list"

definition multi_new :: "nat \<Rightarrow> 'a multi" where
  "multi_new sz = \<lparr>m_id = 0, m_bases = replicate sz (evloop_new 0)\<rparr>"

definition multi_alloc :: "'a multi \<Rightarrow> (nat \<times> 'a multi) option" where
  "multi_alloc m =
     (if m_bases m = [] then None
      else Some (nat (m_id m mod 2 ^ 64) mod length (m_bases m), m\<lparr>m_id := c_int (m_id m + 1)\<rparr>))"

text \<open>\<open>MultiBase::exit\<close>: \<open>exit\<close> of every base, all its steps.\<close>

definition base_exit :: "'a evloop \<Rightarrow> 'a evloop" where
  "base_exit s = (call_wakeup (s\<lparr>e_exit := True\<rparr>))\<lparr>e_pexited := True\<rparr>"

definition multi_exit :: "'a multi \<Rightarrow> 'a multi" where
  "multi_exit m = m\<lparr>m_bases := map base_exit (m_bases m)\<rparr>"

primrec multi_allocs :: "nat \<Rightarrow> 'a multi \<Rightarrow> nat list \<times> 'a multi" where
  "multi_allocs 0 m = ([], m)"
| "multi_allocs (Suc n) m =
     (case multi_alloc m of None \<Rightarrow> ([], m) | Some (i, m') \<Rightarrow> (let (is, m'') = multi_allocs n m' in (i # is, m'')))"

text \<open>
  \<open>MultiBase::loop\<close>: the threads of the bases, the last being the caller's, each for some steps. The
  call returns when every one has returned.
\<close>

definition multi_loop :: "nat list \<Rightarrow> 'a multi \<Rightarrow> 'a multi option" where
  "multi_loop ns m =
     (if m_bases m = [] then None else Some (m\<lparr>m_bases := map2 loop_run ns (m_bases m)\<rparr>))"

definition multi_returned :: "'a multi \<Rightarrow> bool" where
  "multi_returned m \<longleftrightarrow> list_all (\<lambda>s. e_pc s = LDone) (m_bases m)"

lemma base_exit_ok: "loop_ok s \<Longrightarrow> loop_ok (base_exit s)"
  by (simp add: loop_ok_def base_exit_def call_wakeup_def)

lemma multi_exit_returns:
  assumes "m_bases m \<noteq> []" and "list_all (\<lambda>s. loop_ok s \<and> e_exiting s = 0) (m_bases m)"
  shows "\<exists>ns m'. multi_loop ns (multi_exit m) = Some m' \<and> multi_returned m'"
proof -
  have "\<exists>n. e_pc (loop_run n (base_exit s)) = LDone" if "s \<in> set (m_bases m)" for s
    using loop_ends [of "base_exit s"] base_exit_ok [of s] assms(2) that
    by (auto simp: list_all_iff reaches_def base_exit_def call_wakeup_def)
  then obtain f where f: "\<forall>s \<in> set (m_bases m). e_pc (loop_run (f s) (base_exit s)) = LDone" by metis
  have "map2 loop_run (map f xs) (map base_exit xs) = map (\<lambda>s. loop_run (f s) (base_exit s)) xs" for xs
    by (induction xs) auto
  with f assms(1) show ?thesis
    by (intro exI [of _ "map f (m_bases m)"]) (auto simp: multi_loop_def multi_exit_def multi_returned_def list_all_iff)
qed

lemma multi_allocs_turn:
  assumes "m_bases m \<noteq> []" and "0 \<le> m_id m" and "m_id m + int n < 2 ^ 31"
  shows "fst (multi_allocs n m) = map (\<lambda>k. (nat (m_id m) + k) mod length (m_bases m)) [0..<n]"
  using assms
proof (induction n arbitrary: m)
  case (Suc n)
  let ?m = "m\<lparr>m_id := m_id m + 1\<rparr>"
  have "c_int (m_id m + 1) = m_id m + 1" using Suc.prems by (simp add: c_int_id)
  moreover have "nat (m_id m mod 2 ^ 64) = nat (m_id m)" using Suc.prems by simp
  ultimately have "multi_alloc m = Some (nat (m_id m) mod length (m_bases m), ?m)"
    using Suc.prems(1) by (simp add: multi_alloc_def)
  moreover have "fst (multi_allocs n ?m) = map (\<lambda>k. (nat (m_id m) + Suc k) mod length (m_bases m)) [0..<n]"
    using Suc.IH [of ?m] Suc.prems by (simp add: nat_add_distrib)
  ultimately show ?case
    using map_upt_Suc [of "\<lambda>k. (nat (m_id m) + k) mod length (m_bases m)" n] by (simp add: split_beta Let_def)
qed simp

section \<open>Properties\<close>

text \<open>
  C9: No task given to \<open>safeCall\<close> is lost, run twice or overtaken while the loop runs. In any
  interleaving of the loop thread with callers, the tasks run are the first of those the queue
  took, in the same order; and when every caller has written to the pipe and \<open>exit\<close> has not been
  called, the loop thread, woken by nothing else, comes to a state in which all have run.
\<close>

theorem safe_calls_run:
  assumes "loop_reach cap s"
  shows "e_accepted s = e_ran s @ q_items (e_tasks s) \<and>
    (e_pushed s = 0 \<and> \<not> e_exit s \<longrightarrow> (\<exists>n. e_ran (loop_run n s) = e_accepted s \<and> q_items (e_tasks (loop_run n s)) = []))"
proof -
  have ok: "loop_ok s" by (rule loop_reach_ok [OF assms])
  then show ?thesis using loop_drains [OF ok] by (auto simp: reaches_def drained_def loop_ok_def)
qed

text \<open>Some runs. \<open>loop_demo\<close>: the loop waits, two tasks are queued, one caller has written.\<close>

lemma reach_thread: "loop_reach cap s \<Longrightarrow> loop_thread s = Some s' \<Longrightarrow> loop_reach cap s'"
  by (blast intro: reach_step step_thread)

definition loop_waits :: "nat evloop" where
  "loop_waits = the (loop_thread (evloop_new 0))"

definition loop_pushed :: "nat evloop" where
  "loop_pushed = call_push 8 (call_push 7 loop_waits)"

definition loop_demo :: "nat evloop" where
  "loop_demo = call_wakeup (call_wakeup (loop_pushed\<lparr>e_pushed := 0\<rparr>))"

lemma loop_waits_eq: "loop_waits = (evloop_new 0)\<lparr>e_pc := LWait False\<rparr>"
  by (simp add: loop_waits_def thread_defs evloop_new_def)

lemma loop_waits_reach: "loop_reach 0 loop_waits"
  by (rule reach_thread [OF reach_new]) (simp add: loop_waits_def thread_defs evloop_new_def)

lemma loop_pushed_reach: "loop_reach 0 loop_pushed"
  unfolding loop_pushed_def by (rule reach_step [OF reach_step [OF loop_waits_reach step_push] step_push])

lemma loop_demo_reach: "loop_reach 0 loop_demo"
proof -
  have p: "e_pushed loop_pushed = 2" "e_pipe loop_pushed = 0"
    by (simp_all add: loop_pushed_def call_push_def loop_waits_eq evloop_new_def)
  have 1: "loop_reach 0 (call_wakeup (loop_pushed\<lparr>e_pushed := 1\<rparr>))"
    using reach_step [OF loop_pushed_reach step_pushed] p by (simp add: pipe_room_def)
  show ?thesis
    using reach_step [OF 1 step_pushed] p by (simp add: pipe_room_def call_wakeup_def loop_demo_def)
qed

theorem safe_calls_run_witness:
  "\<exists>n. e_ran (loop_run n loop_demo) = [7, 8] \<and> q_items (e_tasks (loop_run n loop_demo)) = []"
  using safe_calls_run [OF loop_demo_reach]
  by (simp add: loop_demo_def loop_pushed_def call_push_def call_wakeup_def loop_waits_eq evloop_new_def
      safeCall_def sq_push_def sq_new_def)


text \<open>A run in which a task is queued and \<open>exit\<close> is called before the loop wakes up.\<close>

definition loop_exited :: "nat evloop" where
  "loop_exited = base_exit (loop_demo\<lparr>e_exiting := 0\<rparr>)"

lemma loop_exited_reach: "loop_reach 0 loop_exited"
proof -
  have 1: "loop_reach 0 (loop_demo\<lparr>e_exit := True, e_exiting := e_exiting loop_demo + 1\<rparr>)"
    by (rule reach_step [OF loop_demo_reach step_exit])
  note 2 = reach_step [OF 1 step_exit_wakeup]
  note 3 = reach_step [OF 2 step_exit_poller]
  have "e_exiting loop_demo = 0" "e_woken loop_demo = 0" "e_pipe loop_demo = 2" "e_pexited loop_demo = False"
    by (simp_all add: loop_demo_def loop_pushed_def call_push_def call_wakeup_def loop_waits_eq evloop_new_def)
  with 3 show ?thesis
    by (simp add: pipe_room_def loop_exited_def base_exit_def loop_demo_def loop_pushed_def call_push_def call_wakeup_def
        loop_waits_eq evloop_new_def)
qed


text \<open>
  Tasks that wait when \<open>exit\<close> is called may never run, although \<open>safeCall\<close> took them: when the
  poller is told to exit before the waiting loop thread has been scheduled, it calls no handler
  any more, so the loop returns with the tasks still in the queue.
\<close>

theorem exit_drops_tasks:
  assumes "e_pc s = LWait False" and "e_pipe s > 0" and "e_exit s" and "e_pexited s"
  shows "loop_run 8 s = s\<lparr>e_cleared := True, e_pc := LDone\<rparr> \<and> loop_thread (loop_run 8 s) = None"
  using assms by (simp add: eval_nat_numeral thread_defs)

theorem exit_drops_tasks_witness:
  "e_accepted (loop_run 8 loop_exited) = [7, 8] \<and> e_ran (loop_run 8 loop_exited) = [] \<and> e_pc (loop_run 8 loop_exited) = LDone"
  using exit_drops_tasks [of loop_exited]
  by (simp add: loop_exited_def base_exit_def loop_demo_def loop_pushed_def call_push_def call_wakeup_def loop_waits_eq
      evloop_new_def safeCall_def sq_push_def sq_new_def del: loop_run.simps)

text \<open>
  \<open>MultiBase::allocBase\<close> takes the bases in turn. The counter starts at 0; for as long as it
  does not exceed an \<open>int\<close>, the \<open>k\<close>th call gives base \<open>k\<close> modulo the number of bases, and
  afterwards, when it has become negative, the index is still that of a base.
\<close>

theorem multi_alloc_turns:
  assumes "0 < sz" and "int n < 2 ^ 31"
  shows "fst (multi_allocs n (multi_new sz :: 'a multi)) = map (\<lambda>k. k mod sz) [0..<n] \<and>
    (\<forall>(m :: 'a multi) i m'. multi_alloc m = Some (i, m') \<longrightarrow> i < length (m_bases m) \<and> length (m_bases m') = length (m_bases m))"
  using multi_allocs_turn [of "multi_new sz :: 'a multi" n] assms
  by (auto simp: multi_new_def multi_alloc_def split: if_splits)

theorem multi_alloc_turns_witness: "fst (multi_allocs 5 (multi_new 3 :: nat multi)) = [0, 1, 2, 0, 1]"
  using multi_alloc_turns [where 'a = nat, of 3 5] by (simp add: upt_rec numeral_2_eq_2)

end
