(* ===== verification/Handy_Server.thy ===== *)
theory Handy_Server
  imports Handy_Socket Handy_Conn Handy_Loop
begin

text \<open>
  \<open>TcpServer\<close> (\<open>handy/conn.h\<close>, \<open>handy/conn.cc\<close>): binding, accepting and handing the connections to
  the event loops. The loops are those of \<open>Handy_Loop\<close>; a single \<open>EventBase\<close> is a \<open>MultiBase\<close> of one.
  The connections the server has made are kept in the order of their making, with the loop that
  polls them.
\<close>

text \<open>The closure \<open>addcon\<close>: the loop and the descriptor it has captured.\<close>

datatype srv_task = AddConn nat int

record tcp_server =
  s_base :: nat
  s_bases :: "srv_task multi"
  s_addr :: "sockaddr_in option"
  s_listen :: "channel option"
  s_statecb :: bool
  s_readcb :: bool
  s_msgcb :: "codec option"   \<comment> \<open>the codec that was set together with \<open>msgcb_\<close>\<close>
  s_create :: conn            \<comment> \<open>what \<open>createcb_\<close> makes\<close>
  s_channels :: nat           \<comment> \<open>the counter of \<open>Channel\<close> ids\<close>
  s_effects :: "effect list"
  s_conns :: "(nat \<times> conn) list"

definition server_of :: "srv_task multi \<Rightarrow> tcp_server option" where
  "server_of bases = do {
     (b, bases) \<leftarrow> multi_alloc bases;
     Some \<lparr>s_base = b, s_bases = bases, s_addr = None, s_listen = None, s_statecb = False, s_readcb = False,
       s_msgcb = None, s_create = tcp_new, s_channels = 0, s_effects = [], s_conns = []\<rparr>
   }"

definition onConnState :: "tcp_server \<Rightarrow> tcp_server" where
  "onConnState s = s\<lparr>s_statecb := True\<rparr>"

definition onConnRead :: "tcp_server \<Rightarrow> tcp_server option" where
  "onConnRead s = (if s_msgcb s \<noteq> None then None else Some (s\<lparr>s_readcb := True\<rparr>))"

definition onConnMsg :: "codec \<Rightarrow> tcp_server \<Rightarrow> tcp_server option" where
  "onConnMsg k s = (if s_readcb s then None else Some (s\<lparr>s_msgcb := Some k\<rparr>))"

text \<open>The answer is 0 or an \<open>errno\<close>.\<close>

definition server_bind :: "sockaddr_in \<Rightarrow> bool \<Rightarrow> tcp_server \<times> sworld \<Rightarrow> (int \<times> tcp_server \<times> sworld) option" where
  "server_bind addr reusePort sw =
     (let (s, w) = sw; s = s\<lparr>s_addr := Some addr\<rparr> in do {
        (res, w) \<leftarrow> bound_socket SOCK_STREAM addr reusePort w;
        (case res of
           Inl e \<Rightarrow> Some (e, s, w)
         | Inr fd \<Rightarrow> do {
             let (r, w) = sys_int (ListenOn fd 20) w;
             fatalif (r \<noteq> 0);
             ((ch, es), w) \<leftarrow> new_channel (Suc (s_channels s)) fd kReadEvent w;
             Some (0, s\<lparr>s_listen := Some ch, s_channels := Suc (s_channels s), s_effects := s_effects s @ es\<rparr>, w)
           })
      })"

text \<open>\<open>startServer\<close>: a server that could not be bound is destroyed.\<close>

definition startServer ::
    "srv_task multi \<Rightarrow> sockaddr_in \<Rightarrow> bool \<Rightarrow> sworld \<Rightarrow> (tcp_server option \<times> sworld) option" where
  "startServer bases addr reusePort w = do {
     s \<leftarrow> server_of bases;
     (r, s, w) \<leftarrow> server_bind addr reusePort (s, w);
     Some (if r = 0 then Some s else None, w)
   }"

section \<open>Accepting\<close>

text \<open>\<open>addcon\<close>. It is run by the thread of the loop \<open>b\<close>; \<open>l\<close> is what the new connection may call.\<close>

definition addcon :: "lib \<Rightarrow> srv_task \<Rightarrow> tcp_server \<Rightarrow> tcp_server option" where
  "addcon l t s =
     (case t of AddConn b cfd \<Rightarrow> do {
        con \<leftarrow> tcp_attach l (Suc (s_channels s)) cfd (s_create s);
        let con = (if s_statecb s then con\<lparr>c_statecb := True\<rparr> else con);
        con \<leftarrow> (if s_readcb s then tcp_onRead con else Some con);
        con \<leftarrow> (case s_msgcb s of None \<Rightarrow> Some con | Some k \<Rightarrow> tcp_onMsg (codec_clone k) con);
        Some (s\<lparr>s_channels := Suc (s_channels s), s_conns := s_conns s @ [(b, con)]\<rparr>)
      })"

text \<open>\<open>safeCall\<close> as a whole: the task is queued and the loop is told.\<close>

definition base_safeCall :: "'a \<Rightarrow> 'a evloop \<Rightarrow> 'a evloop" where
  "base_safeCall t e = call_wakeup ((call_push t e)\<lparr>e_pushed := e_pushed e\<rparr>)"

definition safeCall_on :: "nat \<Rightarrow> 'a \<Rightarrow> 'a multi \<Rightarrow> 'a multi" where
  "safeCall_on b t m = m\<lparr>m_bases := (m_bases m)[b := base_safeCall t (m_bases m ! b)]\<rparr>"

text \<open>One accepted descriptor, up to the next turn of the loop.\<close>

definition accepted :: "lib \<Rightarrow> int \<Rightarrow> tcp_server \<times> sworld \<Rightarrow> (tcp_server \<times> sworld) option" where
  "accepted l cfd sw =
     (let (s, w) = sw; (r, w) = sys_int (GetPeerName cfd) w in
      if r < 0 then Some (s, w)
      else let (r, w) = sys_int (GetSockName cfd) w in
      if r < 0 then Some (s, w)
      else do {
        let (r, w) = addFdFlag cfd FD_CLOEXEC w;
        fatalif (r \<noteq> 0);
        (b, bases) \<leftarrow> multi_alloc (s_bases s);
        let s = s\<lparr>s_bases := bases\<rparr>;
        s \<leftarrow> (if b = s_base s then addcon l (AddConn b cfd) s
             else Some (s\<lparr>s_bases := safeCall_on b (AddConn b cfd) (s_bases s)\<rparr>));
        Some (s, w)
      })"

lemma accepted_script: "accepted l cfd (s, w) = Some (s', w') \<Longrightarrow> length (w_script w') \<le> length (w_script w)"
  by (auto simp: accepted_def sys_int_def sys_def addFdFlag_def Let_def bind_eq_Some_conv split: if_splits prod.splits)

function accept_loop :: "lib \<Rightarrow> int \<Rightarrow> tcp_server \<times> sworld \<Rightarrow> (tcp_server \<times> sworld) option" where
  "accept_loop l lfd sw =
     (let (r, w) = sys (Accept lfd) (snd sw); cfd = res_int r in
      if lfd \<ge> 0 \<and> cfd \<ge> 0
      then (case accepted l cfd (fst sw, w) of None \<Rightarrow> None | Some sw' \<Rightarrow> accept_loop l lfd sw')
      else Some (fst sw, (if lfd \<ge> 0 then w else snd sw)))"
  by pat_completeness auto

termination
proof (relation "measure (\<lambda>(l, lfd, sw). length (w_script (snd sw)))")
  fix l :: lib and lfd :: int and sw :: "tcp_server \<times> sworld" and x r w cfd sw'
  assume a: "x = sys (Accept lfd) (snd sw)" "(r, w) = x" "cfd = res_int r" "lfd \<ge> 0 \<and> cfd \<ge> 0"
    "accepted l cfd (fst sw, w) = Some sw'"
  have "w_script (snd sw) \<noteq> []" using a(1-4) by (auto simp: sys_def res_int_def)
  then have "length (w_script w) < length (w_script (snd sw))" using sys_measure [of "Accept lfd" "snd sw" r w] a(1,2) by simp
  with a(5) accepted_script [of l cfd "fst sw" w "fst sw'" "snd sw'"]
  show "((l, lfd, sw'), (l, lfd, sw)) \<in> measure (\<lambda>(l, lfd, sw). length (w_script (snd sw)))" by simp
qed simp

declare accept_loop.simps [simp del]

definition handleAccept :: "lib \<Rightarrow> tcp_server \<times> sworld \<Rightarrow> (tcp_server \<times> sworld) option" where
  "handleAccept l sw =
     (case s_listen (fst sw) of None \<Rightarrow> None | Some ch \<Rightarrow> accept_loop l (ch_fd ch) sw)"

section \<open>Where connections go\<close>

text \<open>A server whose callbacks and loops are in order, and what it makes of a descriptor.\<close>

definition server_ready :: "tcp_server \<Rightarrow> bool" where
  "server_ready s \<longleftrightarrow> m_bases (s_bases s) \<noteq> [] \<and> \<not> (s_readcb s \<and> s_msgcb s \<noteq> None) \<and>
     c_state (s_create s) = Invalid \<and> c_destPort (s_create s) < 0 \<and> c_chan (s_create s) = None \<and>
     \<not> c_readcb (s_create s) \<and> list_all (\<lambda>e. sq_room (e_tasks e) \<and> q_capacity (e_tasks e) = 0) (m_bases (s_bases s))"

definition fresh_conn :: "tcp_server \<Rightarrow> int \<Rightarrow> conn \<Rightarrow> bool" where
  "fresh_conn s fd con \<longleftrightarrow> c_state con = Handshaking \<and> map_option ch_fd (c_chan con) = Some fd \<and>
     c_readcb con = (s_readcb s \<or> s_msgcb s \<noteq> None) \<and> (s_statecb s \<longrightarrow> c_statecb con) \<and>
     (case s_msgcb s of None \<Rightarrow> True | Some k \<Rightarrow> c_codec con = Some (codec_clone k))"

lemma addcon_fresh:
  assumes "server_ready s" and "fd \<ge> 0"
  shows "\<exists>con. addcon l (AddConn b fd) s = Some (s\<lparr>s_channels := Suc (s_channels s), s_conns := s_conns s @ [(b, con)]\<rparr>) \<and>
    fresh_conn s fd con"
proof -
  let ?ch = "\<lparr>ch_id = Suc (s_channels s), ch_fd = fd, ch_events = kWriteEvent OR kReadEvent\<rparr>"
  let ?con = "eff [AddChannel (Suc (s_channels s)) fd (ch_events ?ch)] ((s_create s)\<lparr>c_state := Handshaking, c_chan := Some ?ch\<rparr>)"
  have "tcp_attach l (Suc (s_channels s)) fd (s_create s) = Some ?con"
    using assms by (simp add: tcp_attach_def server_ready_def Let_def)
  moreover have "c_state ?con = Handshaking" "c_chan ?con = Some ?ch" "\<not> c_readcb ?con"
    using assms by (simp_all add: eff_def server_ready_def)
  ultimately obtain con where att: "tcp_attach l (Suc (s_channels s)) fd (s_create s) = Some con"
    and con: "c_state con = Handshaking" "c_chan con = Some ?ch" "\<not> c_readcb con" by blast
  define con' where "con' = (if s_statecb s then con\<lparr>c_statecb := True\<rparr> else con)"
  have con': "c_state con' = Handshaking" "c_chan con' = Some ?ch" "\<not> c_readcb con'" "s_statecb s \<longrightarrow> c_statecb con'"
    using con by (simp_all add: con'_def)
  define con2 where "con2 = (if s_readcb s then con'\<lparr>c_readcb := True\<rparr> else con')"
  define con3 where "con3 = (case s_msgcb s of None \<Rightarrow> con2 | Some k \<Rightarrow> con2\<lparr>c_codec := Some (codec_clone k), c_readcb := True\<rparr>)"
  have excl: "s_readcb s \<Longrightarrow> s_msgcb s = None" using assms(1) by (simp add: server_ready_def)
  have r: "(if s_readcb s then tcp_onRead con' else Some con') = Some con2"
    using con'(3) by (simp add: tcp_onRead_def con2_def)
  have m: "(case s_msgcb s of None \<Rightarrow> Some con2 | Some k \<Rightarrow> tcp_onMsg (codec_clone k) con2) = Some con3"
    using con'(3) excl by (cases "s_msgcb s"; cases "s_readcb s") (simp_all add: tcp_onMsg_def tcp_onRead_def con2_def con3_def)
  have "addcon l (AddConn b fd) s = Some (s\<lparr>s_channels := Suc (s_channels s), s_conns := s_conns s @ [(b, con3)]\<rparr>)"
    by (simp only: addcon_def srv_task.case att Let_def bind.bind_lunit con'_def [symmetric] r m)
  moreover have "fresh_conn s fd con3"
    using con' excl by (cases "s_msgcb s"; cases "s_readcb s") (simp_all add: fresh_conn_def con2_def con3_def)
  ultimately show ?thesis by blast
qed

text \<open>\<open>ts\<close> has been given to the loop \<open>e\<close>.\<close>

definition given :: "'a evloop \<Rightarrow> 'a list \<Rightarrow> 'a evloop \<Rightarrow> bool" where
  "given e ts e' \<longleftrightarrow> e_accepted e' = e_accepted e @ ts \<and> q_items (e_tasks e') = q_items (e_tasks e) @ ts \<and>
     e_pipe e' = e_pipe e + length ts \<and> sq_room (e_tasks e') = sq_room (e_tasks e) \<and>
     q_capacity (e_tasks e') = q_capacity (e_tasks e)"

lemma given_none: "given e [] e"
  by (simp add: given_def)

lemma given_trans: "given e ts e1 \<Longrightarrow> given e1 us e2 \<Longrightarrow> given e (ts @ us) e2"
  by (simp add: given_def)

lemma given_one: "sq_room (e_tasks e) \<Longrightarrow> q_capacity (e_tasks e) = 0 \<Longrightarrow> given e [t] (base_safeCall t e)"
  by (auto simp: given_def base_safeCall_def call_wakeup_def call_push_def safeCall_def sq_push_def sq_room_def)

text \<open>The server \<open>s'\<close> is \<open>s\<close> with the descriptors of \<open>pl\<close> placed on their loops.\<close>

definition set_up_as :: "tcp_server \<Rightarrow> tcp_server \<Rightarrow> bool" where
  "set_up_as s s' \<longleftrightarrow> s_base s' = s_base s \<and> s_listen s' = s_listen s \<and> s_statecb s' = s_statecb s \<and>
     s_readcb s' = s_readcb s \<and> s_msgcb s' = s_msgcb s \<and> s_create s' = s_create s"

definition tasks_for :: "tcp_server \<Rightarrow> (nat \<times> int) list \<Rightarrow> nat \<Rightarrow> srv_task list" where
  "tasks_for s pl i = (if i = s_base s then [] else map (\<lambda>p. AddConn i (snd p)) (filter (\<lambda>p. fst p = i) pl))"

definition placed :: "tcp_server \<Rightarrow> (nat \<times> int) list \<Rightarrow> tcp_server \<Rightarrow> bool" where
  "placed s pl s' \<longleftrightarrow> set_up_as s s' \<and>
     (\<exists>cs. s_conns s' = s_conns s @ cs \<and>
       list_all2 (\<lambda>p c. fst c = fst p \<and> fresh_conn s (snd p) (snd c)) (filter (\<lambda>p. fst p = s_base s) pl) cs) \<and>
     length (m_bases (s_bases s')) = length (m_bases (s_bases s)) \<and>
     (\<forall>i < length (m_bases (s_bases s)). given (m_bases (s_bases s) ! i) (tasks_for s pl i) (m_bases (s_bases s') ! i))"

lemma placed_none: "placed s [] s"
  by (simp add: placed_def set_up_as_def tasks_for_def given_none)

lemma placed_trans:
  assumes "placed s p s1" and "placed s1 q s2"
  shows "placed s (p @ q) s2"
proof -
  have su: "set_up_as s s1" "set_up_as s1 s2" using assms by (simp_all add: placed_def)
  then have same: "s_base s1 = s_base s" "fresh_conn s1 = fresh_conn s" "tasks_for s1 q = tasks_for s q"
    by (auto simp: set_up_as_def fresh_conn_def tasks_for_def fun_eq_iff)
  obtain cs ds where
    cs: "s_conns s1 = s_conns s @ cs" "list_all2 (\<lambda>p c. fst c = fst p \<and> fresh_conn s (snd p) (snd c)) (filter (\<lambda>p. fst p = s_base s) p) cs"
    and ds: "s_conns s2 = s_conns s1 @ ds" "list_all2 (\<lambda>p c. fst c = fst p \<and> fresh_conn s (snd p) (snd c)) (filter (\<lambda>p. fst p = s_base s) q) ds"
    using assms same by (auto simp: placed_def)
  have "tasks_for s (p @ q) i = tasks_for s p i @ tasks_for s q i" for i by (simp add: tasks_for_def)
  then have "\<forall>i < length (m_bases (s_bases s)). given (m_bases (s_bases s) ! i) (tasks_for s (p @ q) i) (m_bases (s_bases s2) ! i)"
    using assms same(3) given_trans by (fastforce simp: placed_def)
  moreover have "set_up_as s s2" using su by (simp add: set_up_as_def)
  moreover have "list_all2 (\<lambda>p c. fst c = fst p \<and> fresh_conn s (snd p) (snd c)) (filter (\<lambda>p. fst p = s_base s) (p @ q)) (cs @ ds)"
    using cs(2) ds(2) by (simp add: list_all2_appendI)
  ultimately show ?thesis using assms cs(1) ds(1) by (auto simp: placed_def)
qed

lemma placed_ready: "placed s pl s' \<Longrightarrow> server_ready s \<Longrightarrow> server_ready s'"
  by (fastforce simp: placed_def server_ready_def set_up_as_def list_all_length given_def)

text \<open>What the kernel answers for one peer, and the calls it takes.\<close>

datatype peer = Good int int | NoPeer int int | NoName int int

fun accept_script :: "peer \<Rightarrow> sysres list" where
  "accept_script (Good fd fl) = [Res fd, Res 0, Res 0, Res fl, Res 0]"
| "accept_script (NoPeer fd e) = [Res fd, Err e]"
| "accept_script (NoName fd e) = [Res fd, Res 0, Err e]"

fun peer_calls :: "peer \<Rightarrow> sock_call list" where
  "peer_calls (Good fd fl) = [GetPeerName fd, GetSockName fd, FcntlGet fd F_GETFD, FcntlSet fd F_SETFD (fl OR FD_CLOEXEC)]"
| "peer_calls (NoPeer fd e) = [GetPeerName fd]"
| "peer_calls (NoName fd e) = [GetPeerName fd, GetSockName fd]"

fun peer_fd :: "peer \<Rightarrow> int" where
  "peer_fd (Good fd fl) = fd" | "peer_fd (NoPeer fd e) = fd" | "peer_fd (NoName fd e) = fd"

fun good_fds :: "peer list \<Rightarrow> int list" where
  "good_fds [] = []"
| "good_fds (Good fd fl # ps) = fd # good_fds ps"
| "good_fds (_ # ps) = good_fds ps"

text \<open>The loops the descriptors go to, as \<open>allocBase\<close> gives them.\<close>

definition placement :: "tcp_server \<Rightarrow> int list \<Rightarrow> (nat \<times> int) list" where
  "placement s fds = zip (fst (multi_allocs (length fds) (s_bases s))) fds"

lemma multi_allocs_cong:
  "m_id m = m_id n \<Longrightarrow> length (m_bases m) = length (m_bases n) \<Longrightarrow> fst (multi_allocs k m) = fst (multi_allocs k n)"
proof (induction k arbitrary: m n)
  case (Suc k)
  show ?case
  proof (cases "m_bases n = []")
    case True
    with Suc.prems show ?thesis by (simp add: multi_alloc_def)
  next
    case False
    let ?n = "n\<lparr>m_id := c_int (m_id n + 1)\<rparr>" and ?m = "m\<lparr>m_id := c_int (m_id n + 1)\<rparr>"
    have "fst (multi_allocs k ?m) = fst (multi_allocs k ?n)" using Suc by simp
    moreover have "m_bases m \<noteq> []" using False Suc.prems by auto
    ultimately show ?thesis using False Suc.prems by (simp add: multi_alloc_def split_beta Let_def)
  qed
qed simp

lemma multi_allocs_step: "multi_alloc m = Some (i, m') \<Longrightarrow> fst (multi_allocs (Suc k) m) = i # fst (multi_allocs k m')"
  by (simp add: split_beta Let_def)

lemma multi_alloc_in: "multi_alloc m = Some (i, m') \<Longrightarrow> i < length (m_bases m) \<and> m_bases m' = m_bases m"
  by (auto simp: multi_alloc_def split: if_splits)

lemma placed_own:
  assumes "server_ready s" and "multi_alloc (s_bases s) = Some (s_base s, m)" and "fresh_conn s fd con"
  shows "placed s [(s_base s, fd)] (s\<lparr>s_bases := m, s_channels := n, s_conns := s_conns s @ [(s_base s, con)]\<rparr>)"
  using assms multi_alloc_in [OF assms(2)] by (simp add: placed_def set_up_as_def tasks_for_def given_none)

lemma placed_other:
  assumes "server_ready s" and "multi_alloc (s_bases s) = Some (b, m)" and "b \<noteq> s_base s"
  shows "placed s [(b, fd)] (s\<lparr>s_bases := safeCall_on b (AddConn b fd) m\<rparr>)"
proof -
  have b: "b < length (m_bases (s_bases s))" "m_bases m = m_bases (s_bases s)"
    using multi_alloc_in [OF assms(2)] by simp_all
  then have "given (m_bases (s_bases s) ! b) [AddConn b fd] (base_safeCall (AddConn b fd) (m_bases (s_bases s) ! b))"
    using assms(1) by (intro given_one) (simp_all add: server_ready_def list_all_length)
  with b assms(3) show ?thesis
    by (auto simp: placed_def set_up_as_def tasks_for_def safeCall_on_def nth_list_update given_none)
qed

text \<open>One good peer.\<close>

lemma accepted_good:
  assumes "server_ready s" and "fd \<ge> 0"
  shows "\<exists>s' b. accepted l fd (s, \<lparr>w_script = Res 0 # Res 0 # Res fl # Res 0 # rs, w_trace = tr\<rparr>) =
      Some (s', \<lparr>w_script = rs, w_trace = tr @ peer_calls (Good fd fl)\<rparr>) \<and>
    placed s [(b, fd)] s' \<and>
    (\<forall>k. fst (multi_allocs (Suc k) (s_bases s)) = b # fst (multi_allocs k (s_bases s')))"
proof -
  obtain b m where m: "multi_alloc (s_bases s) = Some (b, m)"
    using assms(1) by (auto simp: multi_alloc_def server_ready_def)
  let ?s = "s\<lparr>s_bases := m\<rparr>"
  let ?next = "if b = s_base s then addcon l (AddConn b fd) ?s else Some (?s\<lparr>s_bases := safeCall_on b (AddConn b fd) m\<rparr>)"
  have run: "accepted l fd (s, \<lparr>w_script = Res 0 # Res 0 # Res fl # Res 0 # rs, w_trace = tr\<rparr>) =
      map_option (\<lambda>s'. (s', \<lparr>w_script = rs, w_trace = tr @ peer_calls (Good fd fl)\<rparr>)) ?next"
    by (simp add: accepted_def addFdFlag_def sys_simps m map_conv_bind_option o_def)
  have ready: "server_ready ?s" using assms(1) multi_alloc_in [OF m] by (simp add: server_ready_def)
  show ?thesis
  proof (cases "b = s_base s")
    case True
    obtain con where con: "addcon l (AddConn b fd) ?s =
        Some (?s\<lparr>s_channels := Suc (s_channels ?s), s_conns := s_conns ?s @ [(b, con)]\<rparr>)" "fresh_conn ?s fd con"
      using addcon_fresh [OF ready assms(2)] by blast
    have "fresh_conn s fd con" using con(2) by (simp add: fresh_conn_def)
    from placed_own [OF assms(1) m [unfolded True] this] con(1) True show ?thesis
      using multi_allocs_step [OF m] by (intro exI) (auto simp: run)
  next
    case False
    have "\<forall>k. fst (multi_allocs k (safeCall_on b (AddConn b fd) m)) = fst (multi_allocs k m)"
      by (intro allI multi_allocs_cong) (simp_all add: safeCall_on_def)
    with placed_other [OF assms(1) m False] False show ?thesis
      using multi_allocs_step [OF m] by (intro exI) (auto simp: run)
  qed
qed

definition accept_calls :: "int \<Rightarrow> peer list \<Rightarrow> sock_call list" where
  "accept_calls lfd ps = concat (map (\<lambda>p. Accept lfd # peer_calls p) ps) @ [Accept lfd]"

lemma accept_loop_places:
  assumes "server_ready s" and "lfd \<ge> 0" and "\<forall>p \<in> set ps. peer_fd p \<ge> 0"
  shows "\<exists>s'. accept_loop l lfd (s, \<lparr>w_script = concat (map accept_script ps) @ Err e # rs, w_trace = tr\<rparr>) =
      Some (s', \<lparr>w_script = rs, w_trace = tr @ accept_calls lfd ps\<rparr>) \<and> placed s (placement s (good_fds ps)) s'"
  using assms(1,3)
proof (induction ps arbitrary: s tr)
  case Nil
  then show ?case
    using assms(2) by (simp add: accept_loop.simps [of l lfd] sys_simps accept_calls_def placement_def placed_none)
next
  case (Cons p ps)
  have loop: "accept_loop l lfd (s, \<lparr>w_script = concat (map accept_script (p # ps)) @ Err e # rs, w_trace = tr\<rparr>) =
      (case accepted l (peer_fd p) (s, \<lparr>w_script = tl (accept_script p) @ concat (map accept_script ps) @ Err e # rs, w_trace = tr @ [Accept lfd]\<rparr>) of
        None \<Rightarrow> None | Some sw' \<Rightarrow> accept_loop l lfd sw')"
    using assms(2) Cons.prems(2) by (subst accept_loop.simps) (cases p; simp add: sys_simps)
  show ?case
  proof (cases "\<exists>fd fl. p = Good fd fl")
    case True
    then obtain fd fl where p: "p = Good fd fl" by blast
    with Cons.prems(2) have "fd \<ge> 0" by simp
    from accepted_good [OF Cons.prems(1) this, of l fl "concat (map accept_script ps) @ Err e # rs" "tr @ [Accept lfd]"]
    obtain s1 b where s1: "accepted l fd (s, \<lparr>w_script = Res 0 # Res 0 # Res fl # Res 0 # concat (map accept_script ps) @ Err e # rs,
        w_trace = tr @ [Accept lfd]\<rparr>) = Some (s1, \<lparr>w_script = concat (map accept_script ps) @ Err e # rs,
        w_trace = (tr @ [Accept lfd]) @ peer_calls p\<rparr>)"
      and pl: "placed s [(b, fd)] s1" "\<forall>k. fst (multi_allocs (Suc k) (s_bases s)) = b # fst (multi_allocs k (s_bases s1))"
      using p by blast
    have "server_ready s1" by (rule placed_ready [OF pl(1) Cons.prems(1)])
    from Cons.IH [OF this, of "(tr @ [Accept lfd]) @ peer_calls p"] Cons.prems(2)
    obtain s' where s': "accept_loop l lfd (s1, \<lparr>w_script = concat (map accept_script ps) @ Err e # rs,
        w_trace = (tr @ [Accept lfd]) @ peer_calls p\<rparr>) =
      Some (s', \<lparr>w_script = rs, w_trace = ((tr @ [Accept lfd]) @ peer_calls p) @ accept_calls lfd ps\<rparr>)"
      "placed s1 (placement s1 (good_fds ps)) s'" by auto
    have "placement s (good_fds (p # ps)) = [(b, fd)] @ placement s1 (good_fds ps)"
      using pl(2) p by (simp add: placement_def del: multi_allocs.simps)
    with placed_trans [OF pl(1) s'(2)] loop s1 s'(1) p show ?thesis by (simp add: accept_calls_def)
  next
    case False
    with Cons.IH [OF Cons.prems(1), of "tr @ Accept lfd # peer_calls p"] Cons.prems(2) loop show ?thesis
      by (cases p) (auto simp: accepted_def sys_simps accept_calls_def)
  qed
qed

section \<open>Properties\<close>


definition two_loops :: tcp_server where
  "two_loops = (the (server_of (multi_new 2)))\<lparr>s_listen := Some \<lparr>ch_id = 1, ch_fd = 3, ch_events = kReadEvent\<rparr>, s_msgcb := Some LineCodec\<rparr>"


end
