(* ===== verification/Handy_Udp.thy ===== *)
theory Handy_Udp
  imports Handy_Server Handy_Conn_Recv
begin

text \<open>
  \<open>UdpServer\<close> and \<open>UdpConn\<close> (\<open>handy/udp.h\<close>, \<open>handy/udp.cc\<close>). A handler that calls the user's callback gives
  what it calls it with. The address that \<open>recvfrom\<close> writes is an argument.
\<close>

definition kUdpPacketSize :: nat where
  "kUdpPacketSize = 4096"

section \<open>UdpServer\<close>

record udp_server =
  u_addr :: "sockaddr_in option"
  u_chan :: "channel option"
  u_channels :: nat
  u_effects :: "effect list"

definition udp_server_new :: udp_server where
  "udp_server_new = \<lparr>u_addr = None, u_chan = None, u_channels = 0, u_effects = []\<rparr>"

text \<open>The answer is 0 or an \<open>errno\<close>; that of \<open>setNonBlock\<close> is not looked at.\<close>

definition udp_bind :: "sockaddr_in \<Rightarrow> bool \<Rightarrow> udp_server \<times> sworld \<Rightarrow> (int \<times> udp_server \<times> sworld) option" where
  "udp_bind addr reusePort sw =
     (let (s, w) = sw; s = s\<lparr>u_addr := Some addr\<rparr> in do {
        (res, w) \<leftarrow> bound_socket SOCK_DGRAM addr reusePort w;
        (case res of
           Inl e \<Rightarrow> Some (e, s, w)
         | Inr fd \<Rightarrow> do {
             let (r, w) = net_setNonBlock fd True w;
             ((ch, es), w) \<leftarrow> new_channel (Suc (u_channels s)) fd kReadEvent w;
             Some (0, s\<lparr>u_chan := Some ch, u_channels := Suc (u_channels s), u_effects := u_effects s @ es\<rparr>, w)
           })
      })"

definition udp_startServer :: "sockaddr_in \<Rightarrow> bool \<Rightarrow> sworld \<Rightarrow> (udp_server option \<times> sworld) option" where
  "udp_startServer addr reusePort w = do {
     (r, s, w) \<leftarrow> udp_bind addr reusePort (udp_server_new, w);
     Some (if r = 0 then Some s else None, w)
   }"

text \<open>The channel of a socket, if it is still open.\<close>

definition open_fd :: "channel option \<Rightarrow> int option" where
  "open_fd c = (case c of None \<Rightarrow> None | Some ch \<Rightarrow> if ch_fd ch < 0 then None else Some (ch_fd ch))"

definition udp_recv :: "sockaddr_in \<Rightarrow> udp_server \<Rightarrow> sworld \<Rightarrow> (buffer \<times> sockaddr_in) option \<times> sworld" where
  "udp_recv raddr s w =
     (case open_fd (u_chan s) of None \<Rightarrow> (None, w)
      | Some fd \<Rightarrow>
          let (r, w) = sys (RecvFrom fd kUdpPacketSize) w; buf = buf_makeRoom kUdpPacketSize buf_new in
          if res_int r < 0 then (None, w)
          else (Some (read_into (res_bytes kUdpPacketSize r) buf, raddr), w))"

definition udp_sendTo :: "bytes \<Rightarrow> sockaddr_in \<Rightarrow> udp_server \<Rightarrow> sworld \<Rightarrow> sworld" where
  "udp_sendTo buf addr s w =
     (case open_fd (u_chan s) of None \<Rightarrow> w | Some fd \<Rightarrow> snd (sys (SendTo fd buf addr) w))"

section \<open>UdpConn\<close>

record udp_conn =
  uc_host :: bytes
  uc_port :: "16 word"
  uc_peer :: sockaddr_in
  uc_chan :: "channel option"
  uc_effects :: "effect list"

text \<open>\<open>EINPROGRESS\<close> is 115. After another failure the socket is left open.\<close>

definition createConnection ::
    "(bytes \<Rightarrow> (32 word \<times> bool) option) \<Rightarrow> nat \<Rightarrow> bytes \<Rightarrow> 16 word \<Rightarrow> sworld \<Rightarrow> (udp_conn option \<times> sworld) option" where
  "createConnection resolver chid host port w =
     (let addr = Ip4Addr resolver host port; (fd, w) = sys_int (Socket SOCK_DGRAM) w in do {
        fatalif (fd < 0);
        let (r, w) = net_setNonBlock fd True w;
        let (t, w) = addFdFlag fd FD_CLOEXEC w;
        fatalif (t \<noteq> 0);
        let (r, w) = sys (ConnectTo fd addr) w;
        (if res_int r \<noteq> 0 \<and> res_errno r \<noteq> 115 then Some (None, w)
         else do {
           ((ch, es), w) \<leftarrow> new_channel chid fd kReadEvent w;
           Some (Some \<lparr>uc_host = host, uc_port = port, uc_peer = addr, uc_chan = Some ch, uc_effects = es\<rparr>, w)
         })
      })"

text \<open>\<open>close\<close> gives the channel whose deletion is handed to \<open>safeCall\<close>.\<close>

definition udp_close :: "udp_conn \<Rightarrow> udp_conn \<times> channel option" where
  "udp_close c = (c\<lparr>uc_chan := None\<rparr>, uc_chan c)"

text \<open>The read handler, and what it calls the callback with.\<close>

definition udp_read :: "udp_conn \<Rightarrow> sworld \<Rightarrow> (udp_conn \<times> channel option) \<times> buffer option \<times> sworld" where
  "udp_read c w =
     (case open_fd (uc_chan c) of None \<Rightarrow> (udp_close c, None, w)
      | Some fd \<Rightarrow>
          let (r, w) = sys (RecvFd fd kUdpPacketSize) w; input = buf_makeRoom kUdpPacketSize buf_new in
          if res_int r < 0 then ((c, None), None, w)
          else ((c, None), Some (read_into (res_bytes kUdpPacketSize r) input), w))"

text \<open>
  The queued \<open>delete p\<close>: the destructor closes the channel, and the close calls the read handler. What
  that would queue in turn is the second part.
\<close>

definition udp_delete :: "channel \<Rightarrow> udp_conn \<times> sworld \<Rightarrow> (udp_conn \<times> channel option) \<times> sworld" where
  "udp_delete ch cw =
     (let (c, w) = cw in
      if ch_fd ch < 0 then ((c, None), w)
      else let (cq, m, w) = udp_read (c\<lparr>uc_effects := uc_effects c @ snd (channel_shut ch)\<rparr>) (sys_drop (CloseSock (ch_fd ch)) w)
           in (cq, w))"

definition udp_send :: "bytes \<Rightarrow> udp_conn \<Rightarrow> sworld \<Rightarrow> sworld" where
  "udp_send buf c w = (case open_fd (uc_chan c) of None \<Rightarrow> w | Some fd \<Rightarrow> snd (sys (WriteSock fd buf) w))"

section \<open>Packets\<close>

lemma packet_buffer:
  assumes "length d \<le> kUdpPacketSize"
  shows "buf_ok (read_into d (buf_makeRoom kUdpPacketSize buf_new))"
    and "buf_str (read_into d (buf_makeRoom kUdpPacketSize buf_new)) = d"
proof -
  note m = buf_makeRoom_ok [OF buf_ok_new, of kUdpPacketSize]
  have "length d \<le> buf_space (buf_makeRoom kUdpPacketSize buf_new)"
    using m(3) assms by (simp add: buf_space_def)
  from read_into_ok [OF m(1) this] m(2)
  show "buf_ok (read_into d (buf_makeRoom kUdpPacketSize buf_new))"
    "buf_str (read_into d (buf_makeRoom kUdpPacketSize buf_new)) = d" by simp_all
qed

text \<open>Read events, each with the address of its packet, and the calls of the callback.\<close>

primrec udp_events :: "sockaddr_in list \<Rightarrow> udp_server \<Rightarrow> sworld \<Rightarrow> (buffer \<times> sockaddr_in) list \<times> sworld" where
  "udp_events [] s w = ([], w)"
| "udp_events (a # as) s w =
     (let (m, w) = udp_recv a s w; (ms, w) = udp_events as s w in ((case m of None \<Rightarrow> ms | Some x \<Rightarrow> x # ms), w))"

text \<open>A packet, or an error in its place.\<close>

definition arrivals :: "(bytes option \<times> sockaddr_in) list \<Rightarrow> (bytes \<times> sockaddr_in) list" where
  "arrivals ps = concat (map (\<lambda>(d, a). case d of None \<Rightarrow> [] | Some b \<Rightarrow> [(take kUdpPacketSize b, a)]) ps)"

definition packet :: "bytes option \<Rightarrow> sysres" where
  "packet d = (case d of None \<Rightarrow> Err 11 | Some b \<Rightarrow> Got b)"

lemma packet_simps: "packet None = Err 11" "packet (Some b) = Got b"
  by (simp_all add: packet_def)

lemma udp_events_deliver:
  assumes "open_fd (u_chan s) = Some fd"
  shows "\<exists>ms. udp_events (map snd ps) s \<lparr>w_script = map (packet \<circ> fst) ps @ rs, w_trace = tr\<rparr> =
      (ms, \<lparr>w_script = rs, w_trace = tr @ replicate (length ps) (RecvFrom fd kUdpPacketSize)\<rparr>) \<and>
    map (\<lambda>(b, a). (buf_str b, a)) ms = arrivals ps \<and> list_all (\<lambda>(b, a). buf_ok b) ms"
proof (induction ps arbitrary: tr)
  case (Cons p ps)
  obtain ms where ms: "udp_events (map snd ps) s \<lparr>w_script = map (packet \<circ> fst) ps @ rs, w_trace = tr @ [RecvFrom fd kUdpPacketSize]\<rparr> =
      (ms, \<lparr>w_script = rs, w_trace = (tr @ [RecvFrom fd kUdpPacketSize]) @ replicate (length ps) (RecvFrom fd kUdpPacketSize)\<rparr>)"
    "map (\<lambda>(b, a). (buf_str b, a)) ms = arrivals ps" "list_all (\<lambda>(b, a). buf_ok b) ms"
    using Cons.IH [of "tr @ [RecvFrom fd kUdpPacketSize]"] by blast
  note b = packet_buffer [of "take kUdpPacketSize d" for d, simplified]
  obtain d a where p: "p = (d, a)" by (cases p)
  show ?case
  proof (cases d)
    case None
    have "udp_events (map snd (p # ps)) s \<lparr>w_script = map (packet \<circ> fst) (p # ps) @ rs, w_trace = tr\<rparr> =
        (ms, \<lparr>w_script = rs, w_trace = tr @ replicate (length (p # ps)) (RecvFrom fd kUdpPacketSize)\<rparr>)"
      using ms(1) p None by (simp add: udp_recv_def assms packet_simps sys_simps o_def)
    moreover have "map (\<lambda>(b, a). (buf_str b, a)) ms = arrivals (p # ps)"
      using ms(2) p None by (simp add: arrivals_def)
    ultimately show ?thesis using ms(3) by blast
  next
    case (Some x)
    let ?b = "read_into (take kUdpPacketSize x) (buf_makeRoom kUdpPacketSize buf_new)"
    have "udp_events (map snd (p # ps)) s \<lparr>w_script = map (packet \<circ> fst) (p # ps) @ rs, w_trace = tr\<rparr> =
        ((?b, a) # ms, \<lparr>w_script = rs, w_trace = tr @ replicate (length (p # ps)) (RecvFrom fd kUdpPacketSize)\<rparr>)"
      using ms(1) p Some by (simp add: udp_recv_def assms packet_simps sys_simps o_def)
    moreover have "map (\<lambda>(b, a). (buf_str b, a)) ((?b, a) # ms) = arrivals (p # ps)"
      using ms(2) b p Some by (simp add: arrivals_def)
    moreover have "list_all (\<lambda>(b, a). buf_ok b) ((?b, a) # ms)" using ms(3) b by simp
    ultimately show ?thesis by blast
  qed
qed (simp add: arrivals_def)

section \<open>Properties\<close>

text \<open>
  C34: A UDP server calls its callback once for every datagram and in the order they came, with the
  sender's address and a buffer of its own that holds the first 4096 bytes; an empty datagram is
  delivered as well, and an error from the kernel stops nothing. Each read event takes one datagram.
\<close>

theorem udp_datagrams_delivered:
  assumes "u_chan s = Some ch" and "ch_fd ch \<ge> 0"
  shows "\<exists>ms. udp_events (map snd ps) s (world_new (map (packet \<circ> fst) ps @ rs)) =
      (ms, \<lparr>w_script = rs, w_trace = replicate (length ps) (RecvFrom (ch_fd ch) kUdpPacketSize)\<rparr>) \<and>
    map (\<lambda>(b, a). (buf_str b, a)) ms = arrivals ps \<and> list_all (\<lambda>(b, a). buf_ok b) ms"
proof -
  have "open_fd (u_chan s) = Some (ch_fd ch)" using assms by (simp add: open_fd_def)
  from udp_events_deliver [OF this, of ps rs "[]"] show ?thesis by (simp add: world_new_def)
qed

theorem udp_datagrams_delivered_witness:
  "\<exists>ms. fst (udp_events (map snd [(Some ''hi'', \<lparr>sin_port = 1, s_addr = 2\<rparr>), (None, \<lparr>sin_port = 1, s_addr = 2\<rparr>)])
      (udp_server_new\<lparr>u_chan := Some \<lparr>ch_id = 1, ch_fd = 4, ch_events = kReadEvent\<rparr>\<rparr>)
      (world_new (map (packet \<circ> fst) [(Some ''hi'', \<lparr>sin_port = 1, s_addr = 2\<rparr>), (None, \<lparr>sin_port = 1, s_addr = 2\<rparr>)] @ []))) = ms \<and>
    map (\<lambda>(b, a). (buf_str b, a)) ms = [(''hi'', \<lparr>sin_port = 1, s_addr = 2\<rparr>)]"
proof -
  let ?s = "udp_server_new\<lparr>u_chan := Some \<lparr>ch_id = 1, ch_fd = 4, ch_events = kReadEvent\<rparr>\<rparr>"
  let ?ps = "[(Some ''hi'', \<lparr>sin_port = 1, s_addr = 2\<rparr>), (None, \<lparr>sin_port = 1, s_addr = 2\<rparr>)]"
  have c: "u_chan ?s = Some \<lparr>ch_id = 1, ch_fd = 4, ch_events = kReadEvent\<rparr>" by simp
  have a: "arrivals ?ps = [(''hi'', \<lparr>sin_port = 1, s_addr = 2\<rparr>)]" by (simp add: arrivals_def kUdpPacketSize_def)
  from udp_datagrams_delivered [OF c, of ?ps "[]"] show ?thesis unfolding a by auto
qed

definition connect_trace :: "int \<Rightarrow> int \<Rightarrow> int \<Rightarrow> sockaddr_in \<Rightarrow> sock_call list" where
  "connect_trace fd fl fl' addr =
     [Socket SOCK_DGRAM, FcntlGet fd F_GETFL, FcntlSet fd F_SETFL (fl OR O_NONBLOCK), FcntlGet fd F_GETFD,
      FcntlSet fd F_SETFD (fl' OR FD_CLOEXEC), ConnectTo fd addr]"

text \<open>
  The life of a UDP connection. If \<open>connect\<close> fails there is no connection, and as the calls show the
  socket stays open for good. Otherwise the connection is open on its descriptor. After \<open>close\<close>, which
  hands the channel to the loop once only, nothing is sent any more; when the loop deletes the channel
  the descriptor is closed, once, and the read handler that this calls does nothing.
\<close>

theorem udp_connection_life:
  assumes "0 \<le> fd" and "0 \<le> fl" and "0 \<le> fl2" and "e \<noteq> 115"
  shows "createConnection resolver n host port (world_new ([Res fd, Res fl, Res 0, Res fl', Res 0, Err e] @ rs)) =
      Some (None, \<lparr>w_script = rs, w_trace = connect_trace fd fl fl' (Ip4Addr resolver host port)\<rparr>) \<and>
    CloseSock fd \<notin> set (connect_trace fd fl fl' (Ip4Addr resolver host port)) \<and>
    (\<exists>c ch w. createConnection resolver n host port (world_new ([Res fd, Res fl, Res 0, Res fl', Res 0, Res 0, Res fl2, Res 0] @ rs)) =
        Some (Some c, w) \<and> open_fd (uc_chan c) = Some fd \<and>
      snd (udp_close c) = Some ch \<and> snd (udp_close (fst (udp_close c))) = None \<and>
      (\<forall>buf w. udp_send buf (fst (udp_close c)) w = w) \<and>
      (\<forall>w. snd (udp_delete ch (fst (udp_close c), w)) = sys_drop (CloseSock fd) w \<and>
        snd (fst (udp_delete ch (fst (udp_close c), w))) = None))"
proof -
  have failed: "createConnection resolver n host port (world_new ([Res fd, Res fl, Res 0, Res fl', Res 0, Err e] @ rs)) =
      Some (None, \<lparr>w_script = rs, w_trace = connect_trace fd fl fl' (Ip4Addr resolver host port)\<rparr>)"
    using assms by (simp add: createConnection_def net_setNonBlock_def addFdFlag_def sys_simps connect_trace_def)
  let ?ch = "\<lparr>ch_id = n, ch_fd = fd, ch_events = kReadEvent\<rparr>"
  let ?c = "\<lparr>uc_host = host, uc_port = port, uc_peer = Ip4Addr resolver host port, uc_chan = Some ?ch,
    uc_effects = [AddChannel n fd kReadEvent]\<rparr>"
  have made: "\<exists>w. createConnection resolver n host port (world_new ([Res fd, Res fl, Res 0, Res fl', Res 0, Res 0, Res fl2, Res 0] @ rs)) =
      Some (Some ?c, w)"
    using assms by (simp add: createConnection_def net_setNonBlock_def addFdFlag_def sys_simps new_channel_def Let_def)
  have "CloseSock fd \<notin> set (connect_trace fd fl fl' (Ip4Addr resolver host port))" by (simp add: connect_trace_def)
  moreover have "open_fd (uc_chan ?c) = Some fd" using assms(1) by (simp add: open_fd_def)
  moreover have "snd (udp_close ?c) = Some ?ch" "snd (udp_close (fst (udp_close ?c))) = None"
    by (simp_all add: udp_close_def)
  moreover have "\<forall>buf w. udp_send buf (fst (udp_close ?c)) w = w"
    by (simp add: udp_send_def udp_close_def open_fd_def)
  moreover have "\<forall>w. snd (udp_delete ?ch (fst (udp_close ?c), w)) = sys_drop (CloseSock fd) w \<and>
      snd (fst (udp_delete ?ch (fst (udp_close ?c), w))) = None"
    using assms(1) by (simp add: udp_delete_def udp_close_def udp_read_def open_fd_def Let_def)
  ultimately show ?thesis using failed made by blast
qed

theorem udp_connection_life_witness:
  "createConnection (\<lambda>h. None) 1 [] 80 (world_new ([Res 5, Res 0, Res 0, Res 0, Res 0, Err 111] @ [])) =
     Some (None, \<lparr>w_script = [], w_trace = connect_trace 5 0 0 (Ip4Addr (\<lambda>h. None) [] 80)\<rparr>)"
  using udp_connection_life [of 5 0 0 111 "\<lambda>h. None" 1 "[]" 80 0 "[]"] by simp

end
