(* ===== verification/Handy_Hsha.thy ===== *)
theory Handy_Hsha
  imports Handy_Udp
begin

text \<open>
  \<open>HSHA\<close> (\<open>handy/conn.cc\<close>) and \<open>HSHAU\<close> (\<open>handy/udp.cc\<close>): a loop thread that takes messages, a thread pool
  that computes the answers and the loop again, which sends them. A job is what the pool's closure
  captures of a message: for TCP the connection and the bytes, for UDP the bytes and the address. The
  steps are those of \<open>Handy_Threads\<close> and \<open>Handy_Loop\<close>.
\<close>

section \<open>The steps\<close>

record 'j hsha =
  ha_pool :: "'j pool"
  ha_base :: "('j \<times> bytes) evloop"

definition hsha_new :: "nat \<Rightarrow> 'j hsha" where
  "hsha_new threads = \<lparr>ha_pool = pool_new threads 0, ha_base = evloop_new 0\<rparr>"

text \<open>The message callback: the job goes to the pool, whose \<open>notify_one\<close> picks a worker.\<close>

definition hsha_message :: "'j \<Rightarrow> nat \<Rightarrow> 'j hsha \<Rightarrow> 'j hsha" where
  "hsha_message j i s = s\<lparr>ha_pool := add_task j i (ha_pool s)\<rparr>"

text \<open>
  A step of worker \<open>i\<close>. One that has a job computes the answer \<open>cb\<close> gives and hands it to the loop; the
  wake-up that \<open>safeCall\<close> ends with is a step of its own.
\<close>

definition hsha_worker :: "('j \<Rightarrow> bytes) \<Rightarrow> nat \<Rightarrow> 'j hsha \<Rightarrow> 'j hsha option" where
  "hsha_worker cb i s = do {
     p \<leftarrow> worker_step i (ha_pool s);
     Some (case p_workers (ha_pool s) ! i of
             WRun j \<Rightarrow> s\<lparr>ha_pool := p, ha_base := call_push (j, cb j) (ha_base s)\<rparr>
           | _ \<Rightarrow> s\<lparr>ha_pool := p\<rparr>)
   }"

text \<open>Steps of the loop other than new tasks, which only the workers give it.\<close>

inductive hsha_step :: "('j \<Rightarrow> bytes) \<Rightarrow> 'j hsha \<Rightarrow> 'j hsha \<Rightarrow> bool" for cb where
  ha_message: "hsha_step cb s (hsha_message j i s)"
| ha_worker: "hsha_worker cb i s = Some s' \<Longrightarrow> hsha_step cb s s'"
| ha_spurious: "pool_do (Spurious i) (ha_pool s) = Some p \<Longrightarrow> hsha_step cb s (s\<lparr>ha_pool := p\<rparr>)"
| ha_exit: "pool_exit (ha_pool s) = Some p \<Longrightarrow> hsha_step cb s (s\<lparr>ha_pool := p\<rparr>)"
| ha_loop: "loop_step (ha_base s) b \<Longrightarrow> e_accepted b = e_accepted (ha_base s) \<Longrightarrow> hsha_step cb s (s\<lparr>ha_base := b\<rparr>)"

inductive hsha_reach :: "('j \<Rightarrow> bytes) \<Rightarrow> nat \<Rightarrow> 'j hsha \<Rightarrow> bool" for cb n where
  reach_hsha_new: "hsha_reach cb n (hsha_new n)"
| reach_hsha_step: "hsha_reach cb n s \<Longrightarrow> hsha_step cb s s' \<Longrightarrow> hsha_reach cb n s'"

text \<open>The task of the loop: a connection by its number, an answer that is not empty is sent.\<close>

definition send_answer :: "lib \<Rightarrow> (nat \<times> bytes) \<times> bytes \<Rightarrow> conn list \<Rightarrow> conn list option" where
  "send_answer l a cs =
     (let ((i, input), output) = a in
      if output \<noteq> [] then map_option (\<lambda>c. cs[i := c]) (sendMsg l output (cs ! i)) else Some cs)"

definition udp_answer :: "(bytes \<times> sockaddr_in) \<times> bytes \<Rightarrow> udp_server \<Rightarrow> sworld \<Rightarrow> sworld" where
  "udp_answer a s w = (let ((input, addr), output) = a in if output \<noteq> [] then udp_sendTo output addr s w else w)"

primrec send_answers :: "lib \<Rightarrow> ((nat \<times> bytes) \<times> bytes) list \<Rightarrow> conn list \<Rightarrow> conn list option" where
  "send_answers l [] cs = Some cs"
| "send_answers l (a # as) cs = do { cs \<leftarrow> send_answer l a cs; send_answers l as cs }"

text \<open>\<open>HSHA::startServer\<close> and \<open>HSHAU::startServer\<close>: without a server there is no object.\<close>

definition hsha_startServer ::
    "srv_task multi \<Rightarrow> sockaddr_in \<Rightarrow> nat \<Rightarrow> sworld \<Rightarrow> ((tcp_server \<times> (nat \<times> bytes) hsha) option \<times> sworld) option" where
  "hsha_startServer base addr threads w = do {
     (srv, w) \<leftarrow> startServer base addr False w;
     Some (map_option (\<lambda>s. (s, hsha_new threads)) srv, w)
   }"

definition hshau_startServer ::
    "sockaddr_in \<Rightarrow> nat \<Rightarrow> sworld \<Rightarrow> ((udp_server \<times> (bytes \<times> sockaddr_in) hsha) option \<times> sworld) option" where
  "hshau_startServer addr threads w = do {
     (srv, w) \<leftarrow> udp_startServer addr False w;
     Some (map_option (\<lambda>s. (s, hsha_new threads)) srv, w)
   }"

section \<open>The invariant\<close>

definition hsha_ok :: "('j \<Rightarrow> bytes) \<Rightarrow> 'j hsha \<Rightarrow> bool" where
  "hsha_ok cb s \<longleftrightarrow> pool_ok (ha_pool s) \<and> loop_ok (ha_base s) \<and>
     \<not> q_exit (e_tasks (ha_base s)) \<and> q_capacity (e_tasks (ha_base s)) = 0 \<and>
     e_accepted (ha_base s) = map (\<lambda>j. (j, cb j)) (p_finished (ha_pool s))"

lemma add_task_finished [simp]: "p_finished (add_task t i p) = p_finished p"
  by (simp add: add_task_def split_beta Let_def)

lemma worker_finished:
  "worker_step i p = Some p' \<Longrightarrow>
   p_finished p' = p_finished p @ (case p_workers p ! i of WRun j \<Rightarrow> [j] | _ \<Rightarrow> [])"
  by (auto simp: worker_step_def Let_def split: if_splits worker.splits prod.splits option.splits)

lemma loop_thread_queue:
  "loop_thread s = Some s' \<Longrightarrow> q_exit (e_tasks s') = q_exit (e_tasks s) \<and> q_capacity (e_tasks s') = q_capacity (e_tasks s)"
  by (auto simp: thread_defs sq_pop_def split: loop_pc.splits if_splits list.splits)

lemma loop_step_queue:
  "loop_step s s' \<Longrightarrow> q_exit (e_tasks s') = q_exit (e_tasks s) \<and> q_capacity (e_tasks s') = q_capacity (e_tasks s)"
  by (erule loop_stepE) (auto simp: loop_thread_queue call_push_def call_wakeup_def safeCall_def sq_push_def)

lemma call_push_open:
  "\<not> q_exit (e_tasks b) \<Longrightarrow> q_capacity (e_tasks b) = 0 \<Longrightarrow> e_accepted (call_push t b) = e_accepted b @ [t]"
  by (simp add: call_push_def sq_push_def)

lemma pool_exit_ok:
  assumes "pool_exit p = Some p'" and "pool_ok p"
  shows "pool_ok p'" and "p_finished p' = p_finished p"
proof -
  obtain p1 where p1: "pool_do SetExit p = Some p1" "pool_do NotifyExit p1 = Some p'"
    using assms(1) unfolding pool_exit_def bind_eq_Some_conv by blast
  show "pool_ok p'" by (rule pool_ok_step [OF pool_ok_step [OF assms(2) p1(1)] p1(2)])
  show "p_finished p' = p_finished p" using p1 by (auto split: if_splits)
qed

lemma hsha_ok_step: "hsha_step cb s s' \<Longrightarrow> hsha_ok cb s \<Longrightarrow> hsha_ok cb s'"
proof (induction rule: hsha_step.induct)
  case (ha_message s j i)
  then show ?case by (simp add: hsha_ok_def hsha_message_def pool_ok_add)
next
  case (ha_worker i s s')
  then obtain p where p: "worker_step i (ha_pool s) = Some p"
    and s': "s' = (case p_workers (ha_pool s) ! i of
             WRun j \<Rightarrow> s\<lparr>ha_pool := p, ha_base := call_push (j, cb j) (ha_base s)\<rparr> | _ \<Rightarrow> s\<lparr>ha_pool := p\<rparr>)"
    by (auto simp: hsha_worker_def split: bind_splits)
  have ok: "pool_ok p" using ha_worker.prems pool_ok_worker [OF _ p] by (simp add: hsha_ok_def)
  show ?case
  proof (cases "p_workers (ha_pool s) ! i")
    case (WRun j)
    let ?b = "call_push (j, cb j) (ha_base s)"
    have st: "loop_step (ha_base s) ?b" by (rule step_push)
    have "loop_ok ?b" using loop_step_ok [OF st] ha_worker.prems by (simp add: hsha_ok_def)
    then show ?thesis
      using ha_worker.prems ok worker_finished [OF p] loop_step_queue [OF st] call_push_open [of "ha_base s"]
      by (simp add: s' WRun hsha_ok_def)
  qed (use ha_worker.prems ok worker_finished [OF p] in \<open>simp_all add: s' hsha_ok_def\<close>)
next
  case (ha_spurious i s p)
  then have "pool_ok p" using pool_ok_step by (auto simp: hsha_ok_def simp del: pool_do.simps)
  with ha_spurious show ?case by (auto simp: hsha_ok_def split: if_splits)
next
  case (ha_exit s p)
  then show ?case using pool_exit_ok [OF ha_exit.hyps] by (simp add: hsha_ok_def)
next
  case (ha_loop s b)
  then show ?case using loop_step_ok loop_step_queue by (auto simp: hsha_ok_def)
qed

lemma hsha_reach_ok: "hsha_reach cb n s \<Longrightarrow> hsha_ok cb s"
proof (induction rule: hsha_reach.induct)
  case reach_hsha_new
  have "loop_ok (evloop_new 0)" by (rule loop_ok_new)
  then show ?case using pool_new_ok [of n 0] by (simp add: hsha_ok_def hsha_new_def evloop_new_def sq_new_def pool_new_def)
qed (rule hsha_ok_step)

section \<open>The answers on the connections\<close>

text \<open>The answers for connection \<open>i\<close>, as bytes of its codec.\<close>

definition answers_for :: "codec \<Rightarrow> nat \<Rightarrow> ((nat \<times> bytes) \<times> bytes) list \<Rightarrow> bytes" where
  "answers_for k i as = concat (map (\<lambda>a. codec_enc k (snd a)) (filter (\<lambda>a. fst (fst a) = i \<and> snd a \<noteq> []) as))"

definition answerable :: "codec \<Rightarrow> conn \<Rightarrow> bool" where
  "answerable k c \<longleftrightarrow> chan_open c \<and> WReset \<notin> set (c_writes c) \<and> buf_ok (c_output c) \<and> c_codec c = Some k"

lemma send_answer_sent:
  assumes "answerable k (cs ! fst (fst a))"
  shows "\<exists>c. send_answer l a cs = Some (cs[fst (fst a) := c]) \<and> answerable k c \<and>
    out_stream c = out_stream (cs ! fst (fst a)) @ (if snd a \<noteq> [] then codec_enc k (snd a) else [])"
proof (cases "snd a = []")
  case True
  with assms show ?thesis by (intro exI [of _ "cs ! fst (fst a)"]) (simp add: send_answer_def split_beta Let_def)
next
  case False
  let ?c = "cs ! fst (fst a)"
  have pre: "chan_open ?c" "WReset \<notin> set (c_writes ?c)" "buf_ok (c_output ?c)" "c_codec ?c = Some k"
    using assms by (simp_all add: answerable_def)
  obtain c where c: "sendMsg l (snd a) ?c = Some c" "out_stream c = out_stream ?c @ codec_enc k (snd a)"
    "buf_ok (c_output c)" "io_only ?c (c\<lparr>c_output := c_output ?c\<rparr>)" "set (c_writes c) \<subseteq> set (c_writes ?c)"
    using sendMsg_sent [OF pre, of l "snd a"] by metis
  have "chan_open c" using chan_open_io [OF c(4)] pre(1) by (simp add: chan_open_def)
  moreover have "c_codec c = Some k" using io_onlyD [OF c(4)] pre(4) by simp
  ultimately have "answerable k c" using c(3,5) pre(2) by (auto simp: answerable_def)
  with c False show ?thesis by (intro exI [of _ c]) (simp add: send_answer_def split_beta Let_def)
qed

lemma send_answers_sent:
  assumes "\<forall>i < length cs. answerable k (cs ! i)" and "\<forall>a \<in> set as. fst (fst a) < length cs"
  shows "\<exists>cs'. send_answers l as cs = Some cs' \<and> length cs' = length cs \<and>
    (\<forall>i < length cs. answerable k (cs' ! i) \<and> out_stream (cs' ! i) = out_stream (cs ! i) @ answers_for k i as)"
  using assms
proof (induction as arbitrary: cs)
  case (Cons a as)
  let ?i = "fst (fst a)"
  from Cons.prems have i: "?i < length cs" by simp
  obtain c where c: "send_answer l a cs = Some (cs[?i := c])" "answerable k c"
    "out_stream c = out_stream (cs ! ?i) @ (if snd a \<noteq> [] then codec_enc k (snd a) else [])"
    using send_answer_sent [of k cs a l] Cons.prems i by blast
  have "\<forall>j < length (cs[?i := c]). answerable k (cs[?i := c] ! j)" using Cons.prems(1) c(2) i by (auto simp: nth_list_update)
  from Cons.IH [OF this] Cons.prems(2) obtain cs' where cs': "send_answers l as (cs[?i := c]) = Some cs'" "length cs' = length cs"
    "\<forall>j < length cs. answerable k (cs' ! j) \<and> out_stream (cs' ! j) = out_stream (cs[?i := c] ! j) @ answers_for k j as" by auto
  have "out_stream (cs' ! j) = out_stream (cs ! j) @ answers_for k j (a # as)" if "j < length cs" for j
    using that cs'(3) c(3) i by (cases "j = ?i") (simp_all add: answers_for_def)
  with cs' c(1) show ?case by simp
qed (simp add: answers_for_def)

section \<open>Properties\<close>

text \<open>
  C25: A half-synchronous server answers every message once. In any interleaving of the loop with the
  threads of the pool each message taken is waiting, being computed or finished; the answers the
  loop has sent followed by those in its queue are the callback's results for the finished messages,
  in the order of finishing; and what the loop's tasks put on each connection is exactly the encoding
  of its answers that are not empty, with no call failing. Two messages of one connection may be
  answered in the other order, as nothing ties their threads together.
\<close>

theorem hsha_answers_each_message:
  assumes "hsha_reach cb n s" and "\<forall>i < length cs. answerable k (cs ! i)"
    and "\<forall>j \<in> set (p_accepted (ha_pool s)). fst j < length cs"
  shows "mset (p_finished (ha_pool s)) + sum_list (map running (p_workers (ha_pool s))) + mset (q_items (p_queue (ha_pool s))) =
      mset (p_accepted (ha_pool s)) \<and>
    e_ran (ha_base s) @ q_items (e_tasks (ha_base s)) = map (\<lambda>j. (j, cb j)) (p_finished (ha_pool s)) \<and>
    (\<exists>cs'. send_answers l (e_ran (ha_base s)) cs = Some cs' \<and>
      (\<forall>i < length cs. out_stream (cs' ! i) = out_stream (cs ! i) @ answers_for k i (e_ran (ha_base s))))"
proof -
  have ok: "hsha_ok cb s" by (rule hsha_reach_ok [OF assms(1)])
  then have pool: "p_started (ha_pool s) @ q_items (p_queue (ha_pool s)) = p_accepted (ha_pool s)"
    "mset (p_started (ha_pool s)) = mset (p_finished (ha_pool s)) + sum_list (map running (p_workers (ha_pool s)))"
    by (simp_all add: hsha_ok_def pool_ok_def)
  then have all: "mset (p_finished (ha_pool s)) + sum_list (map running (p_workers (ha_pool s))) + mset (q_items (p_queue (ha_pool s))) =
      mset (p_accepted (ha_pool s))" by (metis mset_append)
  have ran: "e_ran (ha_base s) @ q_items (e_tasks (ha_base s)) = map (\<lambda>j. (j, cb j)) (p_finished (ha_pool s))"
    using ok unfolding hsha_ok_def loop_ok_def by metis
  have "set (p_finished (ha_pool s)) \<subseteq> set (p_accepted (ha_pool s))"
    using arg_cong [OF all, of set_mset] by auto
  moreover have "fst a \<in> set (p_finished (ha_pool s))" if "a \<in> set (e_ran (ha_base s))" for a
  proof -
    have "a \<in> set (map (\<lambda>j. (j, cb j)) (p_finished (ha_pool s)))" using that by (simp flip: ran)
    then show ?thesis by auto
  qed
  ultimately have "\<forall>a \<in> set (e_ran (ha_base s)). fst (fst a) < length cs" using assms(3) by blast
  from send_answers_sent [OF assms(2) this, of l] all ran show ?thesis by blast
qed

text \<open>A run with two threads: the second message of a connection is answered before the first.\<close>

datatype 'j hsha_event = HMessage 'j nat | HWork nat | HWake | HLoop

fun hsha_do :: "('j \<Rightarrow> bytes) \<Rightarrow> 'j hsha_event \<Rightarrow> 'j hsha \<Rightarrow> 'j hsha option" where
  "hsha_do cb (HMessage j i) s = Some (hsha_message j i s)"
| "hsha_do cb (HWork i) s = hsha_worker cb i s"
| "hsha_do cb HWake s =
     (let b = ha_base s in
      if e_pushed b > 0 \<and> e_pipe b < pipe_room then Some (s\<lparr>ha_base := call_wakeup (b\<lparr>e_pushed := e_pushed b - 1\<rparr>)\<rparr>) else None)"
| "hsha_do cb HLoop s = map_option (\<lambda>b. s\<lparr>ha_base := b\<rparr>) (loop_thread (ha_base s))"

primrec hsha_run :: "('j \<Rightarrow> bytes) \<Rightarrow> 'j hsha_event list \<Rightarrow> 'j hsha \<Rightarrow> 'j hsha option" where
  "hsha_run cb [] s = Some s"
| "hsha_run cb (e # es) s = (case hsha_do cb e s of None \<Rightarrow> None | Some s' \<Rightarrow> hsha_run cb es s')"

lemma hsha_do_step: "hsha_do cb e s = Some s' \<Longrightarrow> hsha_step cb s s'"
proof (cases e)
  case HWake
  assume "hsha_do cb e s = Some s'"
  then have b: "e_pushed (ha_base s) > 0" "e_pipe (ha_base s) < pipe_room"
    "s' = s\<lparr>ha_base := call_wakeup ((ha_base s)\<lparr>e_pushed := e_pushed (ha_base s) - 1\<rparr>)\<rparr>"
    using HWake by (simp_all add: Let_def split: if_splits)
  have "e_accepted (call_wakeup ((ha_base s)\<lparr>e_pushed := e_pushed (ha_base s) - 1\<rparr>)) = e_accepted (ha_base s)"
    by (simp add: call_wakeup_def)
  with b(3) show ?thesis using ha_loop [OF step_pushed [OF b(1,2)]] by simp
next
  case HLoop
  assume "hsha_do cb e s = Some s'"
  with HLoop obtain b where b: "loop_thread (ha_base s) = Some b" "s' = s\<lparr>ha_base := b\<rparr>" by auto
  have "e_accepted b = e_accepted (ha_base s)"
    using b(1) by (auto simp: thread_defs split: loop_pc.splits if_splits prod.splits option.splits)
  with b show ?thesis by (auto intro: ha_loop step_thread)
qed (auto intro: ha_message ha_worker)

lemma hsha_run_reach: "hsha_reach cb n s \<Longrightarrow> hsha_run cb es s = Some s' \<Longrightarrow> hsha_reach cb n s'"
  by (induction es arbitrary: s) (auto dest!: hsha_do_step intro: reach_hsha_step split: option.splits)

definition overtaking :: "(nat \<times> bytes) hsha_event list" where
  "overtaking = [HMessage (0, ''a'') 0, HMessage (0, ''b'') 0, HWork 0, HWork 0, HWork 1, HWork 1, HWork 1, HWake, HWork 0, HWake,
     HLoop, HLoop, HLoop, HLoop, HLoop, HLoop, HLoop]"

lemma overtaking_runs:
  "map_option (\<lambda>s. (e_ran (ha_base s), p_accepted (ha_pool s))) (hsha_run snd overtaking (hsha_new 2)) =
     Some ([((0, ''b''), ''b''), ((0, ''a''), ''a'')], [(0, ''a''), (0, ''b'')])"
  by (simp add: overtaking_def hsha_new_def pool_new_def evloop_new_def sq_new_def hsha_message_def add_task_def sq_push_def
      notify_one_def hsha_worker_def worker_step_def sq_pop_def sq_ready_def call_push_def safeCall_def call_wakeup_def
      pipe_room_def thread_defs Let_def numeral_2_eq_2)

theorem hsha_answers_each_message_witness:
  "\<exists>s cs'. hsha_reach snd 2 s \<and> p_accepted (ha_pool s) = [(0, ''a''), (0, ''b'')] \<and>
     send_answers (lib_at 1 quiet_cbs) (e_ran (ha_base s)) [conn_up LineCodec [WTake 9]] = Some cs' \<and>
     out_stream (cs' ! 0) = ''b'' @ CRLF @ ''a'' @ CRLF"
proof -
  obtain s where s: "hsha_run snd overtaking (hsha_new 2) = Some s"
    "e_ran (ha_base s) = [((0, ''b''), ''b''), ((0, ''a''), ''a'')]" "p_accepted (ha_pool s) = [(0, ''a''), (0, ''b'')]"
    using overtaking_runs by (auto simp del: hsha_run.simps)
  have r: "hsha_reach snd 2 s" by (rule hsha_run_reach [OF reach_hsha_new s(1)])
  have a: "\<forall>i < length [conn_up LineCodec [WTake 9]]. answerable LineCodec ([conn_up LineCodec [WTake 9]] ! i)"
    by (simp add: answerable_def)
  have j: "\<forall>j \<in> set (p_accepted (ha_pool s)). fst j < length [conn_up LineCodec [WTake 9]]" by (simp add: s(3))
  from hsha_answers_each_message [OF r a j, of "lib_at 1 quiet_cbs"] r s(2,3) show ?thesis
    by (auto simp: answers_for_def out_stream_def)
qed

end
