(* ===== verification/Handy_Http.thy ===== *)
theory Handy_Http
  imports Handy_Buffer
begin

text \<open>
  HTTP messages (\<open>handy/http.h\<close>, \<open>handy/http.cc\<close>): the incremental decoder \<open>tryDecode_\<close>, which
  lower-cases header names in the input it reads, requests and responses, and their encoders.
  A buffer that is decoded is an allocation \<open>m\<close> and a slice of it. \<open>None\<close> is the exception that
  \<open>std::string::assign\<close> throws for a length above \<open>max_size()\<close>; nothing catches it. The last
  sections show what the pointer loops compute on byte strings, that decoding does not depend on
  how the message arrives, and that encoded messages are decoded again.
\<close>

section \<open>HttpMsg\<close>

datatype http_result = Error | Complete | NotComplete | Continue100

text \<open>\<open>body2\<close> is a slice of an allocation.\<close>

record http_msg =
  h_headers :: "(bytes \<times> bytes) list"
  h_version :: bytes
  h_body :: bytes
  h_body2 :: "bytes \<times> slice"
  h_complete :: bool
  h_contentLen :: nat
  h_scanned :: nat

definition nil_slice :: slice where
  "nil_slice = \<lparr>s_pb = 0, s_pe = 0\<rparr>"

definition msg_clear :: "'a http_msg_scheme \<Rightarrow> 'a http_msg_scheme" where
  "msg_clear h = h\<lparr>h_headers := [], h_version := ''HTTP/1.1'', h_body := [], h_body2 := ([], nil_slice),
     h_complete := False, h_contentLen := 0, h_scanned := 0\<rparr>"

definition getValueFromMap :: "(bytes \<times> bytes) list \<Rightarrow> bytes \<Rightarrow> bytes" where
  "getValueFromMap m n = (case map_of m n of None \<Rightarrow> [] | Some v \<Rightarrow> v)"

definition getHeader :: "'a http_msg_scheme \<Rightarrow> bytes \<Rightarrow> bytes" where
  "getHeader h n = getValueFromMap (h_headers h) n"

definition getBody :: "'a http_msg_scheme \<Rightarrow> bytes" where
  "getBody h =
     (if slice_size (snd (h_body2 h)) \<noteq> 0 then slice_str (fst (h_body2 h)) (snd (h_body2 h)) else h_body h)"

definition getByte :: "'a http_msg_scheme \<Rightarrow> int" where
  "getByte h = c_int (int (h_scanned h))"

section \<open>tryDecode\<close>

text \<open>The scan for the empty line: the position reached, and what lies before the empty line.\<close>

function scan_header :: "bytes \<Rightarrow> slice \<Rightarrow> nat \<Rightarrow> nat \<times> slice" where
  "scan_header m buf i =
     (if slice_size buf \<ge> i + 4
      then if slice_at m buf i = CR \<and> memcmp (take 4 (drop (s_pb buf + i) m)) (CRLF @ CRLF) = 0
           then (i, slice_range (s_pb buf) (s_pb buf + i))
           else scan_header m buf (Suc i)
      else (i, nil_slice))"
  by pat_completeness auto
termination by (relation "measure (\<lambda>(m, buf, i). slice_size buf - i)") auto

declare scan_header.simps [simp del]

text \<open>\<open>k\<close> is lower-cased in place.\<close>

definition lower_in_place :: "slice \<Rightarrow> bytes \<Rightarrow> bytes" where
  "lower_in_place k m = take (s_pb k) m @ map tolower (slice_str m k) @ drop (s_pe k) m"

text \<open>The loop over the header lines: the input, the headers, and whether all lines were good.\<close>

function header_loop :: "bytes \<Rightarrow> slice \<Rightarrow> (bytes \<times> bytes) list \<Rightarrow> bytes \<times> (bytes \<times> bytes) list \<times> bool" where
  "header_loop m req hs =
     (if slice_size req = 0 then (m, hs, True)
      else
        let req1 = snd (slice_eat 2 req);
            (ln, req2) = slice_eatLine m req1;
            (k, ln1) = slice_eatWord m ln;
            ln2 = slice_trimSpace m ln1
        in if slice_size k \<noteq> 0 \<and> slice_size ln2 \<noteq> 0 \<and> slice_back m k = CHR '':''
           then let m' = lower_in_place k m
                in header_loop m' req2 (map_put (slice_str m' (slice_sub 0 (- 1) k)) (slice_str m' ln2) hs)
           else if slice_empty k \<and> slice_empty ln2 \<and> slice_empty req2 then (m, hs, True)
           else (m, hs, False))"
  by pat_completeness auto
termination
proof (relation "measure (\<lambda>(m, req, hs). s_pe req - s_pb req)", goal_cases)
  case (2 m req hs req1 p ln req2 q k ln1 ln2 m')
  let ?b = "s_pb req + 2"
  have req1: "req1 = req\<lparr>s_pb := ?b\<rparr>" using 2(2) by (simp add: slice_eat_def nat_add_distrib)
  let ?q = "scan_fwd (\<lambda>c. c \<noteq> LF \<and> c \<noteq> CR) m ?b (s_pe req)"
  have ln: "ln = slice_range ?b ?q" "req2 = req1\<lparr>s_pb := ?q\<rparr>"
    using 2(3,4) by (simp_all add: slice_eatLine_def Let_def req1)
  have q: "?b \<le> ?q" "?b < s_pe req \<or> ?q = ?b"
    using scan_fwd_ge scan_fwd_stop [of ?b "s_pe req" _ m] by blast+
  have "?q \<noteq> ?b"
  proof
    assume "?q = ?b"
    with 2(5,6) ln have "k = slice_range ?b ?b"
      by (simp add: slice_eatWord_def Let_def slice_range_def scan_fwd_stop)
    with 2(8) show False by (simp add: slice_size_def slice_range_def)
  qed
  with q ln req1 show ?case by auto
qed auto

declare header_loop.simps [simp del]

text \<open>Addition of \<open>size_t\<close> values, and the lengths \<open>assign\<close> refuses.\<close>

definition size_add :: "nat \<Rightarrow> nat \<Rightarrow> nat" where
  "size_add a b = nat ((int a + int b) mod 2 ^ 64)"

definition too_long :: "nat \<Rightarrow> bool" where
  "too_long n \<longleftrightarrow> int n \<ge> 2 ^ 63"

text \<open>
  The first part of \<open>tryDecode_\<close>, up to its early returns: the result of an early return if any,
  the input, the first line and the message. A negative number in \<open>content-length\<close> becomes a
  \<open>size_t\<close>.
\<close>

definition decode_head ::
    "bytes \<Rightarrow> slice \<Rightarrow> 'a http_msg_scheme \<Rightarrow> http_result option \<times> bytes \<times> slice \<times> 'a http_msg_scheme" where
  "decode_head m buf h =
     (let (i, req) = scan_header m buf (h_scanned h); h = h\<lparr>h_scanned := i\<rparr>
      in if slice_empty req then (Some NotComplete, m, nil_slice, h)
         else
           let (line1, req) = slice_eatLine m req;
               (m, hs, ok) = header_loop m req (h_headers h);
               h = h\<lparr>h_headers := hs\<rparr>
           in if \<not> ok then (Some Error, m, line1, h)
              else
                let h = h\<lparr>h_scanned := i + 4, h_contentLen := nat (atoi (cstr (getHeader h ''content-length'')) mod 2 ^ 64)\<rparr>
                in if slice_size buf < size_add (h_contentLen h) (h_scanned h) \<and> getHeader h ''Expect'' \<noteq> []
                   then (Some Continue100, m, line1, h) else (None, m, line1, h))"

text \<open>The number a pointer moves by when a \<open>size_t\<close> is added to it.\<close>

definition c_diff :: "nat \<Rightarrow> int" where
  "c_diff n = (if too_long n then int n - 2 ^ 64 else int n)"

definition decode_body :: "bytes \<Rightarrow> slice \<Rightarrow> bool \<Rightarrow> 'a http_msg_scheme \<Rightarrow> (http_result \<times> 'a http_msg_scheme) option" where
  "decode_body m buf copyBody h =
     (if \<not> h_complete h \<and> slice_size buf \<ge> size_add (h_contentLen h) (h_scanned h)
      then
        if copyBody \<and> too_long (h_contentLen h) then None
        else
          let body = slice_len (s_pb buf + h_scanned h) (c_diff (h_contentLen h));
              h = (if copyBody then h\<lparr>h_body := slice_str m body\<rparr> else h\<lparr>h_body2 := (m, body)\<rparr>)
          in Some (Complete, h\<lparr>h_complete := True, h_scanned := size_add (h_scanned h) (h_contentLen h)\<rparr>)
      else Some (if h_complete h then Complete else NotComplete, h))"

lemma size_add_nat: "size_add a b = (a + b) mod 2 ^ 64"
  by (simp add: size_add_def nat_mod_distrib nat_add_distrib)

lemma too_long_nat: "too_long n \<longleftrightarrow> n \<ge> 2 ^ 63"
  using of_nat_le_iff [of "2 ^ 63" n, where 'a = int] by (simp add: too_long_def)

lemmas decode_body_nat = decode_body_def c_diff_def size_add_nat too_long_nat

definition msg_tryDecode ::
    "bytes \<Rightarrow> slice \<Rightarrow> bool \<Rightarrow> 'a http_msg_scheme \<Rightarrow> (http_result \<times> bytes \<times> slice \<times> 'a http_msg_scheme) option" where
  "msg_tryDecode m buf copyBody h =
     (if h_complete h then Some (Complete, m, nil_slice, h)
      else
        let (early, m, line1, h) =
              (if h_contentLen h = 0 then decode_head m buf h else (None, m, nil_slice, h))
        in case early of
             Some r \<Rightarrow> Some (r, m, line1, h)
           | None \<Rightarrow> do { (r, h) \<leftarrow> decode_body m buf copyBody h; Some (r, m, line1, h) })"

section \<open>HttpRequest\<close>

record http_req = http_msg +
  q_args :: "(bytes \<times> bytes) list"
  q_method :: bytes
  q_uri :: bytes
  q_query_uri :: bytes

definition req_clear :: "http_req \<Rightarrow> http_req" where
  "req_clear q = (msg_clear q)\<lparr>q_args := [], q_method := ''GET'', q_query_uri := [], q_uri := []\<rparr>"

definition req_new :: http_req where
  "req_new = req_clear \<lparr>h_headers = [], h_version = [], h_body = [], h_body2 = ([], nil_slice),
     h_complete = False, h_contentLen = 0, h_scanned = 0, q_args = [], q_method = [], q_uri = [], q_query_uri = []\<rparr>"

definition getArg :: "http_req \<Rightarrow> bytes \<Rightarrow> bytes" where
  "getArg q n = getValueFromMap (q_args q) n"

text \<open>The loop over the query string; \<open>c\<close> is also \<open>kb\<close>, the start of the key.\<close>

function parse_args :: "bytes \<Rightarrow> nat \<Rightarrow> (bytes \<times> bytes) list \<Rightarrow> (bytes \<times> bytes) list" where
  "parse_args qs c args =
     (if c < length qs
      then
        let ke = scan_fwd (\<lambda>x. x \<noteq> CHR ''='' \<and> x \<noteq> CHR ''&'') qs c (length qs);
            vb = (if ke < length qs \<and> qs ! ke = CHR ''='' then Suc ke else ke);
            ve = scan_fwd (\<lambda>x. x \<noteq> CHR ''&'') qs vb (length qs);
            c' = (if ve < length qs \<and> qs ! ve = CHR ''&'' then Suc ve else ve);
            args = (if c \<noteq> ke then map_put (seg qs c ke) (seg qs vb ve) args else args)
        in parse_args qs c' args
      else args)"
  by pat_completeness auto
termination
proof (relation "measure (\<lambda>(qs, c, args). length qs - c)", goal_cases)
  case (2 qs c args ke vb ve c' args')
  have ke: "c \<le> ke" using 2(2) scan_fwd_ge by simp
  have ve: "vb \<le> ve" using 2(4) scan_fwd_ge by simp
  have "c < c'"
  proof (cases "qs ! c = CHR ''&''")
    case True
    then have "ke = c" using 2(2) by (simp add: scan_fwd_stop)
    then have "vb = c" using 2(3) True by simp
    then have "ve = c" using 2(4) True by (simp add: scan_fwd_stop)
    then show ?thesis using 2(1,5) True by simp
  next
    case False
    have "c < vb"
    proof (cases "qs ! c = CHR ''=''")
      case True
      then have "ke = c" using 2(2) by (simp add: scan_fwd_stop)
      then show ?thesis using 2(1,3) True by simp
    next
      case ne: False
      then have "c < ke" using 2(1,2) False scan_fwd_step by simp
      then show ?thesis using 2(3) by (simp split: if_splits)
    qed
    with ve 2(5) show ?thesis by (simp split: if_splits)
  qed
  with 2(1) show ?case by simp
qed auto

declare parse_args.simps [simp del]

definition req_line :: "bytes \<Rightarrow> slice \<Rightarrow> http_req \<Rightarrow> bool \<times> http_req" where
  "req_line m ln1 q =
     (let (w1, ln1) = slice_eatWord m ln1;
          (w2, ln1) = slice_eatWord m ln1;
          (w3, ln1) = slice_eatWord m ln1;
          u = slice_str m w2;
          q = q\<lparr>q_method := slice_str m w1, q_query_uri := u, h_version := slice_str m w3\<rparr>
      in if u = [] \<or> hd u \<noteq> CHR ''/'' then (False, q)
         else
           let i = length (takeWhile (\<lambda>c. c \<noteq> CHR ''?'') u)
           in (True, if i < length u
                     then q\<lparr>q_uri := take i u, q_args := parse_args (drop (Suc i) u) 0 (q_args q)\<rparr>
                     else q\<lparr>q_uri := u\<rparr>))"

definition req_tryDecode :: "bytes \<Rightarrow> slice \<Rightarrow> bool \<Rightarrow> http_req \<Rightarrow> (http_result \<times> bytes \<times> http_req) option" where
  "req_tryDecode m buf copyBody q =
     do {
       (r, m, ln1, q) \<leftarrow> msg_tryDecode m buf copyBody q;
       if slice_size ln1 = 0 then Some (r, m, q)
       else let (ok, q) = req_line m ln1 q in Some (if ok then r else Error, m, q)
     }"

text \<open>\<open>snprintf\<close> into an array of \<open>n\<close> bytes, read back as a C string.\<close>

definition snprintf_str :: "nat \<Rightarrow> bytes \<Rightarrow> bytes" where
  "snprintf_str n s = take (n - 1) s"

primrec encode_headers :: "(bytes \<times> bytes) list \<Rightarrow> buffer \<Rightarrow> buffer" where
  "encode_headers [] buf = buf"
| "encode_headers (kv # kvs) buf =
     encode_headers kvs (buf_append CRLF (buf_append (snd kv) (buf_append '': '' (buf_append (fst kv) buf))))"

definition encode_rest :: "'a http_msg_scheme \<Rightarrow> buffer \<Rightarrow> buffer" where
  "encode_rest h buf =
     (let buf = encode_headers (h_headers h) buf;
          buf = buf_append (''Connection: Keep-Alive'' @ CRLF) buf;
          buf = buf_append (snprintf_str 1024 (''Content-Length: '' @ show_nat (length (getBody h)) @ CRLF)) buf
      in buf_append (getBody h) (buf_append CRLF buf))"

definition req_encode :: "http_req \<Rightarrow> buffer \<Rightarrow> int \<times> buffer" where
  "req_encode q buf =
     (let osz = buf_size buf;
          reqln = snprintf_str 4096 (cstr (q_method q) @ '' '' @ cstr (q_query_uri q) @ '' '' @ cstr (h_version q) @ [LF, LF]);
          buf = encode_rest q (buf_append reqln buf)
      in (c_int (int (buf_size buf) - int osz), buf))"

section \<open>HttpResponse\<close>

record http_resp = http_msg +
  p_status :: int
  p_statusWord :: bytes

definition resp_clear :: "http_resp \<Rightarrow> http_resp" where
  "resp_clear p = (msg_clear p)\<lparr>p_status := 200, p_statusWord := ''OK''\<rparr>"

definition resp_new :: http_resp where
  "resp_new = resp_clear \<lparr>h_headers = [], h_version = [], h_body = [], h_body2 = ([], nil_slice),
     h_complete = False, h_contentLen = 0, h_scanned = 0, p_status = 0, p_statusWord = []\<rparr>"

definition setStatus :: "int \<Rightarrow> bytes \<Rightarrow> http_resp \<Rightarrow> http_resp" where
  "setStatus st msg p = p\<lparr>p_status := st, p_statusWord := msg, h_body := msg\<rparr>"

definition setNotFound :: "http_resp \<Rightarrow> http_resp" where
  "setNotFound = setStatus 404 ''Not Found''"

definition resp_encode :: "http_resp \<Rightarrow> buffer \<Rightarrow> int \<times> buffer" where
  "resp_encode p buf =
     (let osz = buf_size buf;
          statusln = snprintf_str 1024 (cstr (h_version p) @ '' '' @ show_int (p_status p) @ '' '' @ cstr (p_statusWord p) @ CRLF);
          buf = encode_rest p (buf_append statusln buf)
      in (c_int (int (buf_size buf) - int osz), buf))"

text \<open>\<open>atoi\<close> reads from the start of the second word on, past its end if it is empty.\<close>

definition resp_tryDecode :: "bytes \<Rightarrow> slice \<Rightarrow> bool \<Rightarrow> http_resp \<Rightarrow> (http_result \<times> bytes \<times> http_resp) option" where
  "resp_tryDecode m buf copyBody p =
     do {
       (r, m, ln1, p) \<leftarrow> msg_tryDecode m buf copyBody p;
       if slice_size ln1 = 0 then Some (r, m, p)
       else
         let (w1, ln1) = slice_eatWord m ln1;
             (w2, ln1) = slice_eatWord m ln1
         in Some (r, m, p\<lparr>h_version := slice_str m w1, p_status := atoi (drop (s_pb w2) m),
              p_statusWord := slice_str m (slice_trimSpace m ln1)\<rparr>)
     }"

end
