(* ===== verification/Handy_Http_Text.thy ===== *)
theory Handy_Http_Text
  imports Handy_Http
begin

text \<open>
  What the HTTP decoder computes on byte strings: \<open>scan4\<close> finds the empty line, \<open>hdr_abs\<close> is the
  loop over the header lines, \<open>args_ref\<close> is the reading of a query string by its fields. The
  properties: decoding a message does not depend on how it is cut into pieces, encoded requests
  and responses decode to themselves, the query string is read as specified, \<open>Continue100\<close> is
  never the answer, and a negative length ends the process.
\<close>

section \<open>The empty line\<close>

text \<open>The position of the empty line, or the position the scan stops at.\<close>

fun scan4 :: "bytes \<Rightarrow> nat \<times> bool" where
  "scan4 [] = (0, False)"
| "scan4 (c # s) =
     (if length s < 3 then (0, False)
      else if take 4 (c # s) = CRLF @ CRLF then (0, True)
      else (let (n, b) = scan4 s in (Suc n, b)))"

lemma scan4_miss:
  "4 \<le> length s \<Longrightarrow> take 4 s \<noteq> CRLF @ CRLF \<Longrightarrow> scan4 s = (let (n, b) = scan4 (tl s) in (Suc n, b))"
  by (cases s) (auto simp: split_beta Let_def)

definition full :: "bytes \<Rightarrow> slice" where
  "full m = slice_range 0 (length m)"

lemma full_simps [simp]: "s_pb (full m) = 0" "s_pe (full m) = length m"
  by (simp_all add: full_def slice_range_def)

lemma full_ok [simp]: "length m < 2 ^ 63 \<Longrightarrow> slice_ok m (full m)"
  by (simp add: slice_ok_def)

lemma full_str [simp]: "slice_str m (full m) = m"
  by (simp add: slice_str_def)

lemma full_size [simp]: "length m < 2 ^ 63 \<Longrightarrow> slice_size (full m) = length m"
  using slice_size_ok [OF full_ok] by simp

lemma scan_header_scan4:
  assumes "length m < 2 ^ 63" and "i \<le> length m"
  shows "scan_header m (full m) i =
    (let (n, b) = scan4 (drop i m) in (i + n, if b then slice_range 0 (i + n) else nil_slice))"
  using assms
proof (induction "length m - i" arbitrary: i)
  case 0
  then show ?case by (simp add: scan_header.simps)
next
  case (Suc k)
  then have lt: "i < length m" by simp
  then have d: "drop i m = m ! i # drop (Suc i) m" by (simp add: Cons_nth_drop_Suc)
  show ?case
  proof (cases "length m < i + 4")
    case True
    then show ?thesis using Suc.prems(1) by (simp add: scan_header.simps d)
  next
    case False
    have len4: "length (take 4 (drop i m)) = length (CRLF @ CRLF)" using False by simp
    have hit: "(slice_at m (full m) i = CR \<and> memcmp (take 4 (drop (s_pb (full m) + i) m)) (CRLF @ CRLF) = 0)
        \<longleftrightarrow> take 4 (drop i m) = CRLF @ CRLF"
      using memcmp_eq [OF len4] d by (auto simp: slice_at_def)
    show ?thesis
    proof (cases "take 4 (drop i m) = CRLF @ CRLF")
      case True
      then have "scan_header m (full m) i = (i, slice_range 0 i)"
        using False Suc.prems(1) hit by (subst scan_header.simps) simp
      moreover have "scan4 (drop i m) = (0, True)" using True False d by (simp add: d)
      ultimately show ?thesis by simp
    next
      case ne: False
      then have "scan_header m (full m) i = scan_header m (full m) (Suc i)"
        using False Suc.prems(1) hit ne by (subst scan_header.simps) (simp only: full_size if_False not_less if_True)
      moreover have "scan4 (drop i m) = (let (n, b) = scan4 (drop (Suc i) m) in (Suc n, b))"
        using ne False scan4_miss [of "drop i m"] by (simp only: length_drop tl_drop) (simp add: drop_Suc tl_drop)
      moreover have "k = length m - Suc i" "Suc i \<le> length m" using Suc.hyps(2) lt by simp_all
      ultimately show ?thesis
        using Suc.hyps(1) Suc.prems(1) by (simp add: split_beta Let_def)
    qed
  qed
qed

lemma scan4_le: "fst (scan4 s) \<le> length s"
  by (induction s) (auto simp: split_beta Let_def)

lemma scan4_short: "length s < 4 \<Longrightarrow> scan4 s = (0, False)"
  by (cases s) auto

text \<open>More bytes: a found empty line stays, and a scan that stopped goes on where it was.\<close>

lemma scan4_more_True: "scan4 s = (n, True) \<Longrightarrow> scan4 (s @ x) = (n, True)"
proof (induction s arbitrary: n)
  case (Cons c s)
  then show ?case by (auto simp: split_beta Let_def prod_eq_iff split: if_splits)
qed simp

lemma scan4_more_False:
  "scan4 s = (n, False) \<Longrightarrow> scan4 (s @ x) = (let (k, b) = scan4 (drop n (s @ x)) in (n + k, b))"
proof (induction s arbitrary: n)
  case (Cons c s)
  show ?case
  proof (cases "length s < 3")
    case True
    then have "n = 0" using Cons.prems by simp
    then show ?thesis by (simp add: split_beta Let_def)
  next
    case False
    with Cons.prems obtain k where n: "n = Suc k" "scan4 s = (k, False)" "take 4 (c # s) \<noteq> CRLF @ CRLF"
      by (auto simp: split_beta Let_def prod_eq_iff split: if_splits)
    have "take 4 (c # s @ x) = take 4 (c # s)" using False by simp
    with n False have "scan4 ((c # s) @ x) = (let (n, b) = scan4 (s @ x) in (Suc n, b))"
      by (simp only: append_Cons scan4.simps) simp
    then show ?thesis using Cons.IH [OF n(2)] n(1) by (simp add: split_beta Let_def)
  qed
qed simp

lemma scan4_word: "CR \<notin> set w \<Longrightarrow> length s \<ge> 3 \<Longrightarrow> scan4 (w @ s) = (let (n, b) = scan4 s in (length w + n, b))"
  by (induction w) (auto simp: split_beta Let_def)

lemma scan4_line: "c \<noteq> CR \<Longrightarrow> length s \<ge> 3 \<Longrightarrow> scan4 (CR # LF # c # s) = (let (n, b) = scan4 (c # s) in (Suc (Suc n), b))"
  by (auto simp: split_beta Let_def numeral_eq_Suc)

section \<open>The header lines\<close>

abbreviation (input) not_eol :: "char \<Rightarrow> bool" where "not_eol c \<equiv> c \<noteq> LF \<and> c \<noteq> CR"

text \<open>
  A line is leading white space, a word and the rest. The loop on the bytes of the slice: the
  bytes with the names lower-cased, the headers, and whether all lines were good.
\<close>

definition line_word :: "bytes \<Rightarrow> bytes" where
  "line_word ln = takeWhile (\<lambda>c. \<not> isspace c) (dropWhile isspace ln)"

definition line_rest :: "bytes \<Rightarrow> bytes" where
  "line_rest ln = dropWhile (\<lambda>c. \<not> isspace c) (dropWhile isspace ln)"

definition lower_line :: "bytes \<Rightarrow> bytes" where
  "lower_line ln = takeWhile isspace ln @ map tolower (line_word ln) @ line_rest ln"

definition good_line :: "bytes \<Rightarrow> bool" where
  "good_line ln \<longleftrightarrow> line_word ln \<noteq> [] \<and> trim (line_rest ln) \<noteq> [] \<and> last (line_word ln) = CHR '':''"

function hdr_abs :: "bytes \<Rightarrow> (bytes \<times> bytes) list \<Rightarrow> bytes \<times> (bytes \<times> bytes) list \<times> bool" where
  "hdr_abs s hs =
     (if s = [] then (s, hs, True)
      else if length s < 2 then (s, hs, False)
      else
        let ln = takeWhile not_eol (drop 2 s); rest = dropWhile not_eol (drop 2 s)
        in if good_line ln
           then let (t, hs, ok) = hdr_abs rest
                      (map_put (map tolower (butlast (line_word ln))) (trim (line_rest ln)) hs)
                in (take 2 s @ lower_line ln @ t, hs, ok)
           else (s, hs, line_word ln = [] \<and> trim (line_rest ln) = [] \<and> rest = []))"
  by pat_completeness auto
termination
proof (relation "measure (\<lambda>(s, hs). length s)", goal_cases)
  case (2 s hs ln rest)
  then show ?case using length_dropWhile_le [of not_eol "drop 2 s"] by simp
qed simp

declare hdr_abs.simps [simp del]

lemma line_parts: "takeWhile isspace ln @ line_word ln @ line_rest ln = ln"
  by (simp add: line_word_def line_rest_def)

lemma length_lower_line [simp]: "length (lower_line ln) = length ln"
proof -
  have "length (lower_line ln) = length (takeWhile isspace ln @ line_word ln @ line_rest ln)"
    by (simp only: lower_line_def length_append length_map)
  then show ?thesis by (simp only: line_parts)
qed

lemma length_hdr_abs [simp]: "length (fst (hdr_abs s hs)) = length s"
proof (induction s hs rule: hdr_abs.induct)
  case (1 s hs)
  have "length (takeWhile not_eol (drop 2 s)) + length (dropWhile not_eol (drop 2 s)) = length s - 2"
    by (simp flip: length_append)
  with 1 show ?case
    by (subst hdr_abs.simps) (auto simp: Let_def split_beta)
qed

lemma slice_eq_iff: "(s :: slice) = t \<longleftrightarrow> s_pb s = s_pb t \<and> s_pe s = s_pe t"
  by auto

lemma lower_split:
  assumes "slice_ok m k"
  shows "length (lower_in_place k m) = length m"
    and "e \<le> s_pb k \<or> s_pe k \<le> p \<Longrightarrow> seg (lower_in_place k m) p e = seg m p e"
    and "seg (lower_in_place k m) (s_pb k) (s_pe k) = map tolower (slice_str m k)"
    and "s_pe k \<le> q \<Longrightarrow> take q (lower_in_place k m) = take (s_pb k) m @ map tolower (slice_str m k) @ seg m (s_pe k) q"
proof -
  note ok = slice_okD [OF assms]
  have len: "length (slice_str m k) = s_pe k - s_pb k" using ok by (simp add: slice_str_def)
  with ok show l: "length (lower_in_place k m) = length m" by (simp add: lower_in_place_def)
  show "seg (lower_in_place k m) (s_pb k) (s_pe k) = map tolower (slice_str m k)"
    using ok len by (simp add: seg_def lower_in_place_def)
  show "seg (lower_in_place k m) p e = seg m p e" if "e \<le> s_pb k \<or> s_pe k \<le> p"
  proof (cases "s_pe k \<le> p")
    case True
    then have "drop p (lower_in_place k m) = drop p m" using ok len by (simp add: lower_in_place_def)
    then show ?thesis by (simp add: seg_def)
  next
    case False
    with that have e: "e \<le> s_pb k" by simp
    have "take e (lower_in_place k m) = take e m" using ok e by (simp add: lower_in_place_def min_absorb1)
    then show ?thesis by (cases "p \<le> e") (simp_all add: seg_def take_drop)
  qed
  show "take q (lower_in_place k m) = take (s_pb k) m @ map tolower (slice_str m k) @ seg m (s_pe k) q" if "s_pe k \<le> q"
    using that ok len by (simp add: lower_in_place_def seg_def)
qed

lemma take_seg_append: "p \<le> q \<Longrightarrow> take q m = take p m @ seg m p q"
  using seg_append [of 0 p q m] by (simp add: seg_def)

text \<open>One line cut off the rest of the header, seen as strings.\<close>

lemma line_slices:
  assumes "slice_ok m req" and "slice_eatLine m req = (ln, req2)" and "slice_eatWord m ln = (k, ln1)"
    and "slice_str m req = s"
  shows "slice_ok m k" "slice_ok m req2" "slice_str m k = line_word (takeWhile not_eol s)"
    "slice_str m req2 = dropWhile not_eol s"
    "slice_str m (slice_trimSpace m ln1) = trim (line_rest (takeWhile not_eol s))"
    "slice_size k \<noteq> 0 \<and> slice_size (slice_trimSpace m ln1) \<noteq> 0 \<and> slice_back m k = CHR '':'' \<longleftrightarrow>
       good_line (takeWhile not_eol s)"
    "slice_empty k \<and> slice_empty (slice_trimSpace m ln1) \<and> slice_empty req2 \<longleftrightarrow>
       line_word (takeWhile not_eol s) = [] \<and> trim (line_rest (takeWhile not_eol s)) = [] \<and> dropWhile not_eol s = []"
proof -
  note L = slice_eatLine_ok [OF assms(1,2), unfolded assms(4)]
  note K = slice_eatWord_ok [OF L(1) assms(3), unfolded L(3), folded line_word_def line_rest_def]
  note T = slice_trimSpace_ok [OF K(2), unfolded K(4)]
  let ?l = "takeWhile not_eol s"
  have colon: "slice_back m k = last (line_word ?l)" if "line_word ?l \<noteq> []"
  proof -
    have "s_pb k < s_pe k"
      using that K(3) slice_okD(1) [OF K(1)] by (cases "s_pb k = s_pe k") (auto simp: slice_str_def)
    then have "slice_str m k = seg m (s_pb k) (s_pe k - 1) @ [m ! (s_pe k - 1)]"
      using seg_snoc [of "s_pb k" "s_pe k - 1" m] slice_okD(2) [OF K(1)] by (simp add: slice_str_def)
    then show ?thesis using K(3) by (metis last_snoc slice_back_def)
  qed
  show "slice_ok m k" "slice_ok m req2" "slice_str m k = line_word ?l" "slice_str m req2 = dropWhile not_eol s"
    "slice_str m (slice_trimSpace m ln1) = trim (line_rest ?l)"
    using K(1,3) L(2,4) T(2) by simp_all
  show "slice_size k \<noteq> 0 \<and> slice_size (slice_trimSpace m ln1) \<noteq> 0 \<and> slice_back m k = CHR '':'' \<longleftrightarrow> good_line ?l"
    using slice_size_ok [OF K(1)] slice_size_ok [OF T(1)] K(3) T(2) colon by (auto simp: good_line_def)
  show "slice_empty k \<and> slice_empty (slice_trimSpace m ln1) \<and> slice_empty req2 \<longleftrightarrow>
       line_word ?l = [] \<and> trim (line_rest ?l) = [] \<and> dropWhile not_eol s = []"
    using slice_empty_ok [OF K(1)] slice_empty_ok [OF T(1)] slice_empty_ok [OF L(2)] K(3) T(2) L(4) by simp
qed

lemma line_positions:
  assumes "slice_ok m req" and "slice_eatLine m req = (ln, req2)" and "slice_eatWord m ln = (k, ln1)"
  shows "s_pb req \<le> s_pb k" "s_pb k \<le> s_pe k" "s_pe k \<le> s_pb req2" "s_pe req2 = s_pe req"
    "s_pe k \<le> s_pb (slice_trimSpace m ln1)" "takeWhile isspace (slice_str m ln) = seg m (s_pb req) (s_pb k)"
    "line_rest (slice_str m ln) = seg m (s_pe k) (s_pb req2)"
proof -
  note L = slice_eatLine_ok [OF assms(1,2)]
  note K = slice_eatWord_ok [OF L(1) assms(3), folded line_rest_def]
  have p: "s_pb ln = s_pb req" "s_pe ln = s_pb req2" "s_pe req2 = s_pe req" "s_pb ln1 = s_pe k" "s_pe ln1 = s_pb req2"
      "s_pb k = scan_fwd isspace m (s_pb req) (s_pb req2)"
    using assms(2,3) by (auto simp: slice_eatLine_def slice_eatWord_def slice_range_def Let_def)
  show "s_pb req \<le> s_pb k" using p(6) scan_fwd_ge by simp
  show "s_pb k \<le> s_pe k" using slice_okD(1) [OF K(1)] .
  show "s_pe k \<le> s_pb req2" using slice_okD(1) [OF K(2)] p by simp
  show "s_pe req2 = s_pe req" using p by simp
  show "s_pe k \<le> s_pb (slice_trimSpace m ln1)"
    using p(4) scan_fwd_ge by (simp add: slice_trimSpace_def Let_def)
  show "takeWhile isspace (slice_str m ln) = seg m (s_pb req) (s_pb k)"
    using seg_scan_fwd(1) [OF slice_okD(1,2) [OF L(1)], of isspace] p by (simp add: slice_str_def)
  show "line_rest (slice_str m ln) = seg m (s_pe k) (s_pb req2)"
    using K(4) p by (simp add: slice_str_def)
qed

text \<open>What lower-casing the name leaves as it is, and what it changes.\<close>

lemma line_lowered:
  assumes "slice_ok m req" and "slice_eatLine m req = (ln, req2)" and "slice_eatWord m ln = (k, ln1)"
    and "slice_str m req = s" and "line_word (takeWhile not_eol s) \<noteq> []" and "m' = lower_in_place k m"
  shows "slice_ok m' req2" "slice_str m' req2 = dropWhile not_eol s"
    "slice_str m' (slice_trimSpace m ln1) = trim (line_rest (takeWhile not_eol s))"
    "slice_str m' (slice_sub 0 (- 1) k) = map tolower (butlast (line_word (takeWhile not_eol s)))"
    "take (s_pb req2) m' = take (s_pb req) m @ lower_line (takeWhile not_eol s)"
    "drop (s_pe req) m' = drop (s_pe req) m"
proof -
  note L = line_slices [OF assms(1-4)]
  note p = line_positions [OF assms(1-3)]
  note low = lower_split [OF L(1), folded assms(6)]
  have l: "slice_str m ln = takeWhile not_eol s" using slice_eatLine_ok(3) [OF assms(1,2)] assms(4) by simp
  show "slice_ok m' req2" using L(2) low(1) by (simp add: slice_ok_def)
  show "slice_str m' req2 = dropWhile not_eol s"
    using low(2) [of "s_pe req2" "s_pb req2"] p(3) L(4) by (simp add: slice_str_def)
  show "slice_str m' (slice_trimSpace m ln1) = trim (line_rest (takeWhile not_eol s))"
    using low(2) [of _ "s_pb (slice_trimSpace m ln1)"] p(5) L(5) by (simp add: slice_str_def)
  have kpos: "s_pb k < s_pe k"
    using assms(5) L(3) p(2) by (cases "s_pb k = s_pe k") (auto simp: slice_str_def)
  have "seg m' (s_pb k) (s_pe k - 1) = butlast (seg m' (s_pb k) (s_pe k))"
    using kpos slice_okD(2) [OF L(1)] low(1) by (simp add: butlast_conv_take take_seg min_def)
  then show "slice_str m' (slice_sub 0 (- 1) k) = map tolower (butlast (line_word (takeWhile not_eol s)))"
    using low(3) L(3) kpos by (simp add: slice_str_def slice_sub_def map_butlast nat_diff_distrib')
  show "take (s_pb req2) m' = take (s_pb req) m @ lower_line (takeWhile not_eol s)"
    using low(4) [OF p(3)] take_seg_append [OF p(1), of m] p(6,7) L(3) l by (simp add: lower_line_def)
  show "drop (s_pe req) m' = drop (s_pe req) m"
    using p slice_okD(1) [OF L(2)] slice_okD [OF L(1)] by (simp add: assms(6) lower_in_place_def slice_str_def)
qed

lemma header_loop_abs:
  assumes "slice_ok m req"
  shows "header_loop m req hs =
    (let (t, hs', ok) = hdr_abs (slice_str m req) hs in (take (s_pb req) m @ t @ drop (s_pe req) m, hs', ok))"
  using assms
proof (induction m req hs rule: header_loop.induct)
  case (1 m req hs)
  note pos = slice_okD [OF "1.prems"]
  let ?s = "slice_str m req" and ?req1 = "req\<lparr>s_pb := s_pb req + 2\<rparr>"
  have len: "length ?s = s_pe req - s_pb req" using pos by (simp add: slice_str_def)
  have size: "slice_size req = s_pe req - s_pb req" using len slice_size_ok [OF "1.prems"] by simp
  have self: "take (s_pb req) m @ ?s @ drop (s_pe req) m = m"
    using pos(1) take_seg_append [OF pos(1), of m] by (metis append_assoc append_take_drop_id slice_str_def)
  have req1: "snd (slice_eat 2 req) = ?req1" by (simp add: slice_eat_def nat_add_distrib)
  obtain ln req2 where eL: "slice_eatLine m ?req1 = (ln, req2)" by force
  obtain k ln1 where eW: "slice_eatWord m ln = (k, ln1)" by force
  consider "?s = []" | "length ?s = 1" | "2 \<le> length ?s" by (cases ?s; cases "tl ?s") auto
  then show ?case
  proof cases
    case 1
    then show ?thesis using size len self by (simp add: header_loop.simps hdr_abs.simps)
  next
    case 2
    then have p: "s_pe req = Suc (s_pb req)" using len by simp
    then have ln: "ln = slice_range (s_pb req + 2) (s_pb req + 2)" "req2 = ?req1"
      using eL by (simp_all add: slice_eatLine_def scan_fwd_stop)
    then have k: "k = slice_range (s_pb req + 2) (s_pb req + 2)" "ln1 = ln"
      using eW by (auto simp: slice_eatWord_def slice_range_def scan_fwd_stop)
    have "header_loop m req hs = (m, hs, False)"
      using p size eL eW req1 ln k
      by (subst header_loop.simps) (simp add: slice_range_def slice_size_def slice_empty_def Let_def)
    moreover have "hdr_abs ?s hs = (?s, hs, False)" using 2 by (subst hdr_abs.simps) auto
    ultimately show ?thesis using self by simp
  next
    case 3
    then have ok1: "slice_ok m ?req1" using "1.prems" len by (auto simp: slice_ok_def)
    have s1: "slice_str m ?req1 = drop 2 ?s" by (simp add: slice_str_def drop_seg add.commute)
    define l where "l = takeWhile not_eol (drop 2 ?s)"
    define rest where "rest = dropWhile not_eol (drop 2 ?s)"
    note S = line_slices [OF ok1 eL eW s1, folded l_def rest_def]
    have cut: "\<not> length ?s < 2" "?s \<noteq> []" "slice_size req \<noteq> 0" using 3 len size by auto
    show ?thesis
    proof (cases "good_line l")
      case False
      then have "header_loop m req hs = (m, hs, line_word l = [] \<and> trim (line_rest l) = [] \<and> rest = [])"
        using S(6,7) cut eL eW req1 by (subst header_loop.simps) (auto simp: Let_def)
      moreover have "hdr_abs ?s hs = (?s, hs, line_word l = [] \<and> trim (line_rest l) = [] \<and> rest = [])"
        using False cut by (subst hdr_abs.simps) (simp add: l_def rest_def Let_def)
      ultimately show ?thesis using self by simp
    next
      case True
      let ?m = "lower_in_place k m" and ?hs = "map_put (map tolower (butlast (line_word l))) (trim (line_rest l)) hs"
      have "line_word l \<noteq> []" using True by (simp add: good_line_def)
      note W = line_lowered [OF ok1 eL eW s1, folded l_def rest_def, OF this refl]
      have hl: "header_loop m req hs = header_loop ?m req2 ?hs"
        using S(6) True cut eL eW req1 W(3,4) by (subst header_loop.simps) (simp add: Let_def)
      have "header_loop ?m req2 ?hs =
          (let (t, hs', ok) = hdr_abs rest ?hs in (take (s_pb req2) ?m @ t @ drop (s_pe req) ?m, hs', ok))"
        using "1.IH" [of "snd (slice_eat 2 req)" "(ln, req2)" ln req2 "(k, ln1)" k ln1 "slice_trimSpace m ln1" ?m]
          cut(3) eL eW req1 S(6) True W(1-4) line_positions(4) [OF ok1 eL eW] by (simp add: Let_def)
      moreover have "take (s_pb req2) ?m = take (s_pb req) m @ take 2 ?s @ lower_line l"
        using W(5) take_seg_append [of "s_pb req" "s_pb req + 2" m] 3 len
        by (simp add: slice_str_def take_seg min_absorb2)
      moreover have "drop (s_pe req) ?m = drop (s_pe req) m" using W(6) by simp
      moreover have "hdr_abs ?s hs = (let (t, hs, ok) = hdr_abs rest ?hs in (take 2 ?s @ lower_line l @ t, hs, ok))"
        using True cut by (subst hdr_abs.simps) (simp add: l_def rest_def Let_def)
      ultimately show ?thesis using hl by (simp add: split_beta Let_def)
    qed
  qed
qed

section \<open>The decoder on the whole input\<close>

text \<open>Header names in a message are lower case, so a name that is not is never found.\<close>

definition lower_keys :: "(bytes \<times> bytes) list \<Rightarrow> bool" where
  "lower_keys hs \<longleftrightarrow> (\<forall>p \<in> set hs. map tolower (fst p) = fst p)"

lemma lower_keys_Nil [simp]: "lower_keys []"
  by (simp add: lower_keys_def)

lemma lower_keys_put [simp, inv_intros]: "lower_keys hs \<Longrightarrow> lower_keys (map_put (map tolower k) v hs)"
  using set_map_put [of "map tolower k" v hs] by (auto simp: lower_keys_def comp_def)

lemma lower_keys_hdr_abs [inv_intros]: "lower_keys hs \<Longrightarrow> lower_keys (fst (snd (hdr_abs s hs)))"
proof (induction s hs rule: hdr_abs.induct)
  case (1 s hs)
  then show ?case by (subst hdr_abs.simps) (auto simp: Let_def split_beta)
qed

lemma no_upper_key: "lower_keys hs \<Longrightarrow> map tolower n \<noteq> n \<Longrightarrow> getValueFromMap hs n = []"
  by (auto simp: lower_keys_def getValueFromMap_def split: option.splits dest!: map_of_SomeD)

lemma no_Expect: "lower_keys hs \<Longrightarrow> getValueFromMap hs ''Expect'' = []"
proof (rule no_upper_key)
  have "tolower (CHR ''E'') \<noteq> CHR ''E''"
    unfolding char_eq_iff_of_char tolower_def by (simp del: of_char_eq_iff)
  then show "map tolower ''Expect'' \<noteq> ''Expect''" by simp
qed

text \<open>The header of a message whose empty line is at \<open>e\<close>.\<close>

lemma decode_head_text:
  assumes "length m < 2 ^ 63" and "h_scanned h \<le> length m" and "scan4 (drop (h_scanned h) m) = (n, b)"
    and "e = h_scanned h + n" and "lower_keys (h_headers h)"
    and "hdr_abs (dropWhile not_eol (take e m)) (h_headers h) = (t, hs, ok)"
    and "l = takeWhile not_eol (take e m)"
  shows "decode_head m (full m) h =
    (if \<not> b \<or> e = 0 then (Some NotComplete, m, nil_slice, h\<lparr>h_scanned := e\<rparr>)
     else (if ok then None else Some Error, l @ t @ drop e m, slice_range 0 (length l),
       (if ok
        then h\<lparr>h_headers := hs, h_scanned := e + 4,
          h_contentLen := nat (atoi (cstr (getValueFromMap hs ''content-length'')) mod 2 ^ 64)\<rparr>
        else h\<lparr>h_headers := hs, h_scanned := e\<rparr>)))"
proof -
  have scan: "scan_header m (full m) (h_scanned h) = (e, if b then slice_range 0 e else nil_slice)"
    using scan_header_scan4 [OF assms(1,2)] assms(3,4) by simp
  show ?thesis
  proof (cases "b \<and> e \<noteq> 0")
    case False
    then show ?thesis
      by (auto simp: decode_head_def scan slice_empty_def slice_range_def nil_slice_def)
  next
    case True
    have e: "e \<le> length m" using scan4_le [of "drop (h_scanned h) m"] assms(2-4) by simp
    let ?r = "slice_range 0 e"
    have ok: "slice_ok m ?r" "slice_str m ?r = take e m"
      using e assms(1) by (simp_all add: slice_ok_def slice_range_def slice_str_def seg_def)
    obtain line1 req where eL: "slice_eatLine m ?r = (line1, req)" by force
    note L = slice_eatLine_ok [OF ok(1) eL, unfolded ok(2), folded assms(7)]
    have pos: "line1 = slice_range 0 (length l)" "s_pb req = length l" "s_pe req = e"
      using eL scan_fwd_eq [of 0 e m not_eol] e assms(7)
      by (auto simp: slice_eatLine_def slice_range_def Let_def seg_def)
    have "take (length l) m = l"
      using assms(7) e takeWhile_eq_take [of not_eol "take e m"] length_takeWhile_le [of not_eol "take e m"]
      by (simp add: min_absorb1)
    then have loop: "header_loop m req (h_headers h) = (l @ t @ drop e m, hs, ok)"
      using header_loop_abs [OF L(2)] L(4) assms(6) pos by simp
    have "lower_keys hs" using lower_keys_hdr_abs [OF assms(5)] assms(6) by (metis fst_conv snd_conv)
    then have "getValueFromMap hs ''Expect'' = []" by (rule no_Expect)
    then show ?thesis using True eL loop pos(1)
      by (auto simp: decode_head_def scan slice_empty_def slice_range_def getHeader_def)
  qed
qed

section \<open>More input\<close>

lemma atoi_range: "- (2 ^ 31) \<le> atoi s \<and> atoi s < 2 ^ 31"
  using sint_ge [of "word_of_int (strtol10 s) :: 32 word"] sint_lt [of "word_of_int (strtol10 s) :: 32 word"]
  by (simp add: atoi_def)

lemma decode_head_wait:
  assumes "length (m @ x) < 2 ^ 63" and "h_scanned h \<le> length m" and "lower_keys (h_headers h)"
    and "decode_head m (full m) h = (Some NotComplete, m1, ln, h1)"
  shows "m1 = m" "ln = nil_slice" "h_scanned h1 \<le> length m" "h1 = h\<lparr>h_scanned := h_scanned h1\<rparr>"
    "decode_head (m @ x) (full (m @ x)) h1 = decode_head (m @ x) (full (m @ x)) h"
proof -
  let ?i = "h_scanned h"
  obtain n b where sc: "scan4 (drop ?i m) = (n, b)" by force
  obtain t hs ok where a: "hdr_abs (dropWhile not_eol (take (?i + n) m)) (h_headers h) = (t, hs, ok)"
    using prod_cases3 by blast
  have e: "?i + n \<le> length m" using scan4_le [of "drop ?i m"] assms(2) sc by simp
  have ml: "length m < 2 ^ 63" using assms(1) by simp
  note T = decode_head_text [OF ml assms(2) sc refl assms(3) a refl]
  from T assms(4) have nb: "\<not> b \<or> ?i + n = 0" by (auto split: if_splits)
  with T assms(4) have r: "m1 = m" "ln = nil_slice" "h1 = h\<lparr>h_scanned := ?i + n\<rparr>" by auto
  then show "m1 = m" "ln = nil_slice" "h_scanned h1 \<le> length m" "h1 = h\<lparr>h_scanned := h_scanned h1\<rparr>"
    using e by simp_all
  have "scan_header (m @ x) (full (m @ x)) (?i + n) = scan_header (m @ x) (full (m @ x)) ?i"
  proof (cases "?i + n = 0")
    case False
    with nb have "\<not> b" by blast
    with sc have "scan4 (drop ?i m) = (n, False)" by simp
    from scan4_more_False [OF this, of x] show ?thesis
      using scan_header_scan4 [of "m @ x" ?i] scan_header_scan4 [of "m @ x" "?i + n"] assms(1,2) e
      by (simp add: split_beta Let_def ac_simps)
  qed simp
  then show "decode_head (m @ x) (full (m @ x)) h1 = decode_head (m @ x) (full (m @ x)) h"
    by (simp add: decode_head_def r(3) split_beta Let_def)
qed

lemma decode_head_more:
  assumes "length (m @ x) < 2 ^ 63" and "h_scanned h \<le> length m" and "lower_keys (h_headers h)"
    and "decode_head m (full m) h = (r, m1, ln, h1)" and "r \<noteq> Some NotComplete"
  shows "decode_head (m @ x) (full (m @ x)) h = (r, m1 @ x, ln, h1)"
    "length m1 = length m" "s_pb ln \<le> s_pe ln" "s_pe ln \<le> length m" "lower_keys (h_headers h1)"
    "r = None \<or> r = Some Error" "h_complete h1 = h_complete h"
    "r = None \<Longrightarrow> h_scanned h1 \<le> length m" "r = None \<Longrightarrow> h_contentLen h1 < 2 ^ 64"
proof -
  let ?i = "h_scanned h"
  obtain n b where sc: "scan4 (drop ?i m) = (n, b)" by force
  define e where "e = ?i + n"
  define l where "l = takeWhile not_eol (take e m)"
  obtain t hs ok where a: "hdr_abs (dropWhile not_eol (take e m)) (h_headers h) = (t, hs, ok)"
    using prod_cases3 by blast
  have ml: "length m < 2 ^ 63" using assms(1) by simp
  note T = decode_head_text [OF ml assms(2) sc e_def assms(3) a l_def]
  from T assms(4,5) have b: "b" "e \<noteq> 0" by (auto split: if_splits)
  with scan4_more_True [of "drop ?i m" n x] sc assms(2) have scx: "scan4 (drop ?i (m @ x)) = (n, True)" by simp
  have bound: "n + 4 \<le> length (drop ?i m)" if "b"
  proof -
    have "scan4 s = (k, True) \<Longrightarrow> k + 4 \<le> length s" for s k
      by (induction s arbitrary: k) (auto simp: split_beta Let_def prod_eq_iff split: if_splits)
    from this [of "drop ?i m" n] sc that show ?thesis by simp
  qed
  have e: "e + 4 \<le> length m" using bound b(1) assms(2) by (simp add: e_def)
  have te: "take e (m @ x) = take e m" "drop e (m @ x) = drop e m @ x" using e by simp_all
  have Tx: "decode_head (m @ x) (full (m @ x)) h = (r, m1 @ x, ln, h1)"
    using decode_head_text [OF assms(1) _ scx e_def assms(3), unfolded te, OF _ a l_def] assms(2,4) b T by simp
  then show "decode_head (m @ x) (full (m @ x)) h = (r, m1 @ x, ln, h1)" .
  have len: "length t = length (take e m) - length l"
  proof -
    have "length (takeWhile not_eol (take e m)) + length (dropWhile not_eol (take e m)) = length (take e m)"
      by (simp flip: length_append)
    then show ?thesis using length_hdr_abs [of "dropWhile not_eol (take e m)" "h_headers h"] a l_def by simp
  qed
  have ll: "length l \<le> e" unfolding l_def by (metis length_take length_takeWhile_le min.boundedE)
  have eqs: "r = (if ok then None else Some Error)" "m1 = l @ t @ drop e m" "ln = slice_range 0 (length l)"
      "h1 = (if ok
        then h\<lparr>h_headers := hs, h_scanned := e + 4,
          h_contentLen := nat (atoi (cstr (getValueFromMap hs ''content-length'')) mod 2 ^ 64)\<rparr>
        else h\<lparr>h_headers := hs, h_scanned := e\<rparr>)"
    using T assms(4) b by simp_all
  show "length m1 = length m" using eqs(2) len ll e by simp
  show "s_pb ln \<le> s_pe ln" "s_pe ln \<le> length m" using eqs(3) ll e by (simp_all add: slice_range_def)
  show "lower_keys (h_headers h1)"
    using lower_keys_hdr_abs [OF assms(3), of "dropWhile not_eol (take e m)"] a eqs(4) by simp
  show "r = None \<or> r = Some Error" using eqs(1) by simp
  show "h_complete h1 = h_complete h" using eqs(4) by simp
  show "r = None \<Longrightarrow> h_scanned h1 \<le> length m" using eqs(1,4) e by (simp split: if_splits)
  have "nat (a mod 2 ^ 64) < 2 ^ 64" for a :: int
    using pos_mod_bound [of "2 ^ 64" a] pos_mod_sign [of "2 ^ 64" a] by (simp add: nat_less_iff del: pos_mod_bound)
  then show "r = None \<Longrightarrow> h_contentLen h1 < 2 ^ 64" using eqs(1,4) by (simp split: if_splits)
qed

lemma seg_more: "e \<le> length m \<Longrightarrow> seg (m @ x) p e = seg m p e"
  by (cases "p \<le> e") (simp_all add: seg_def)

lemma scan_fwd_more: "e \<le> length m \<Longrightarrow> scan_fwd P (m @ x) p e = scan_fwd P m p e"
proof (induction P m p e rule: scan_fwd.induct)
  case (1 P m p e)
  then show ?case by (cases "p < e") (simp_all add: scan_fwd.simps [of P _ p] nth_append)
qed

lemma slice_eatWord_more:
  assumes "s_pb ln \<le> s_pe ln" and "s_pe ln \<le> length m" and "slice_eatWord m ln = (w, ln')"
  shows "s_pb ln' \<le> s_pe ln' \<and> s_pe ln' \<le> length m"
    and "slice_eatWord (m @ x) ln = (w, ln')" and "slice_str (m @ x) w = slice_str m w"
proof -
  let ?b = "scan_fwd isspace m (s_pb ln) (s_pe ln)"
  have b: "?b \<le> s_pe ln" using scan_fwd_le [OF assms(1)] .
  have e: "scan_fwd (\<lambda>c. \<not> isspace c) m ?b (s_pe ln) \<le> s_pe ln" using scan_fwd_le [OF b] .
  show "slice_eatWord (m @ x) ln = (w, ln')" using assms by (simp add: slice_eatWord_def scan_fwd_more)
  show "slice_str (m @ x) w = slice_str m w" "s_pb ln' \<le> s_pe ln' \<and> s_pe ln' \<le> length m"
    using assms e by (auto simp: slice_eatWord_def slice_str_def slice_range_def Let_def seg_more)
qed

lemma req_line_more:
  assumes "s_pb ln \<le> s_pe ln" and "s_pe ln \<le> length m"
  shows "req_line (m @ x) ln q = req_line m ln q"
proof -
  obtain w1 l1 where 1: "slice_eatWord m ln = (w1, l1)" by force
  note A = slice_eatWord_more [OF assms 1]
  obtain w2 l2 where 2: "slice_eatWord m l1 = (w2, l2)" by force
  note B = slice_eatWord_more [OF conjunct1 [OF A(1)] conjunct2 [OF A(1)] 2]
  obtain w3 l3 where 3: "slice_eatWord m l2 = (w3, l3)" by force
  note C = slice_eatWord_more [OF conjunct1 [OF B(1)] conjunct2 [OF B(1)] 3]
  show ?thesis by (simp only: req_line_def 1 2 3 A(2,3) B(2,3) C(2,3) Let_def split_conv)
qed

text \<open>The request line and the body touch different members.\<close>

lemma body_update:
  "decode_body m buf cp (q\<lparr>h_version := v, q_args := a, q_method := w, q_uri := u, q_query_uri := z\<rparr>) =
     map_option (\<lambda>(r, q). (r, q\<lparr>h_version := v, q_args := a, q_method := w, q_uri := u, q_query_uri := z\<rparr>))
       (decode_body m buf cp q)"
  by (simp add: decode_body_nat Let_def)

lemma req_line_update:
  "\<exists>v a w u z. \<forall>q'. q_args q' = q_args q \<longrightarrow> q_uri q' = q_uri q \<longrightarrow>
     snd (req_line m l q') = q'\<lparr>h_version := v, q_args := a, q_method := w, q_uri := u, q_query_uri := z\<rparr>"
proof -
  obtain w1 l1 where 1: "slice_eatWord m l = (w1, l1)" by force
  obtain w2 l2 where 2: "slice_eatWord m l1 = (w2, l2)" by force
  obtain w3 l3 where 3: "slice_eatWord m l2 = (w3, l3)" by force
  let ?u = "slice_str m w2"
  let ?i = "length (takeWhile (\<lambda>c. c \<noteq> CHR ''?'') ?u)" and ?bad = "?u = [] \<or> hd ?u \<noteq> CHR ''/''"
  have "snd (req_line m l q') = q'\<lparr>h_version := slice_str m w3,
      q_args := (if ?bad \<or> \<not> ?i < length ?u then q_args q else parse_args (drop (Suc ?i) ?u) 0 (q_args q)),
      q_method := slice_str m w1, q_uri := (if ?bad then q_uri q else if ?i < length ?u then take ?i ?u else ?u),
      q_query_uri := ?u\<rparr>" if "q_args q' = q_args q" "q_uri q' = q_uri q" for q'
    using that unfolding req_line_def 1 2 3 Let_def split_conv
    by (cases q', cases ?bad; cases "?i < length ?u") simp_all
  then show ?thesis by blast
qed

lemma body_keeps:
  "decode_body m buf cp q = Some (r, q') \<Longrightarrow> q_args q' = q_args q \<and> q_uri q' = q_uri q"
  by (auto simp: decode_body_nat Let_def split: if_splits)

lemma req_line_body:
  "decode_body m buf cp (snd (req_line m' l q)) =
     map_option (\<lambda>(r, q). (r, snd (req_line m' l q))) (decode_body m buf cp q)"
proof -
  obtain v a w u z where up: "\<And>q'. q_args q' = q_args q \<Longrightarrow> q_uri q' = q_uri q \<Longrightarrow>
      snd (req_line m' l q') = q'\<lparr>h_version := v, q_args := a, q_method := w, q_uri := u, q_query_uri := z\<rparr>"
    using req_line_update [of q m' l] by blast
  show ?thesis
    by (cases "decode_body m buf cp q") (auto simp: up body_update dest!: body_keeps)
qed

lemma req_line_ok:
  "fst (req_line m l q) \<longleftrightarrow>
     (let u = slice_str m (fst (slice_eatWord m (snd (slice_eatWord m l)))) in u \<noteq> [] \<and> hd u = CHR ''/'')"
  by (simp add: req_line_def Let_def split_beta)

lemma req_line_keeps:
  "h_complete (snd (req_line m l q)) = h_complete q" "h_contentLen (snd (req_line m l q)) = h_contentLen q"
  "h_scanned (snd (req_line m l q)) = h_scanned q" "h_headers (snd (req_line m l q)) = h_headers q"
  by (simp_all add: req_line_def Let_def split_beta)

section \<open>A message in pieces\<close>

text \<open>What a message that is not complete satisfies between two calls.\<close>

definition waiting :: "bytes \<Rightarrow> 'a http_msg_scheme \<Rightarrow> bool" where
  "waiting m h \<longleftrightarrow> \<not> h_complete h \<and> lower_keys (h_headers h) \<and> h_scanned h \<le> length m"

lemma body_wait:
  "decode_body m (full m) True h = Some (NotComplete, h') \<Longrightarrow> h' = h \<and> \<not> h_complete h"
  by (auto simp: decode_body_nat split: if_splits)

lemma body_more:
  assumes "length (m @ x) < 2 ^ 63" and "decode_body m (full m) True h \<noteq> Some (NotComplete, h)"
    and "\<not> h_complete h" and "h_scanned h \<le> length m"
  shows "decode_body (m @ x) (full (m @ x)) True h = decode_body m (full m) True h"
proof -
  have le: "(h_contentLen h + h_scanned h) mod 2 ^ 64 \<le> length m"
    using assms(1-3) by (auto simp: decode_body_nat split: if_splits)
  show ?thesis
  proof (cases "h_contentLen h < 2 ^ 63")
    case True
    with assms(1,4) le have "h_contentLen h + h_scanned h \<le> length m" by simp
    then have "slice_str (m @ x) (slice_len (h_scanned h) (int (h_contentLen h))) =
        slice_str m (slice_len (h_scanned h) (int (h_contentLen h)))"
      by (simp add: slice_str_def slice_len_def nat_add_distrib seg_more)
    then show ?thesis using True le assms(1) by (simp add: decode_body_nat)
  next
    case False
    then show ?thesis using le assms(1,3) by (simp add: decode_body_nat)
  qed
qed

lemma req_tryDecode_body:
  assumes "h_contentLen q \<noteq> 0" and "\<not> h_complete q"
  shows "req_tryDecode m buf cp q = map_option (\<lambda>(r, q). (r, m, q)) (decode_body m buf cp q)"
  using assms
  by (cases "decode_body m buf cp q")
    (auto simp: req_tryDecode_def msg_tryDecode_def nil_slice_def slice_size_def)

definition finish_line :: "bytes \<Rightarrow> slice \<Rightarrow> http_result \<times> http_req \<Rightarrow> http_result \<times> bytes \<times> http_req" where
  "finish_line m ln =
     (\<lambda>(r, q). if slice_size ln = 0 then (r, m, q)
        else (if fst (req_line m ln q) then r else Error, m, snd (req_line m ln q)))"

lemma req_tryDecode_head:
  assumes "h_contentLen q = 0" and "\<not> h_complete q" and "decode_head m buf q = (e, m1, ln, q1)"
  shows "req_tryDecode m buf cp q =
    (case e of Some r \<Rightarrow> Some (finish_line m1 ln (r, q1))
     | None \<Rightarrow> map_option (finish_line m1 ln) (decode_body m1 buf cp q1))"
  using assms
  by (cases "decode_body m1 buf cp q1")
    (auto simp: req_tryDecode_def msg_tryDecode_def finish_line_def split_beta Let_def split: option.splits)

lemma finish_line_NotComplete:
  "finish_line m ln (r, q) = (NotComplete, m', q') \<Longrightarrow> r = NotComplete"
  by (auto simp: finish_line_def split: if_splits)

text \<open>The header is complete and the body is not: the next call finds the rest.\<close>

lemma req_wait_body:
  assumes len: "length (m @ x) < 2 ^ 63" and q: "\<not> h_complete q" "lower_keys (h_headers q)" "h_scanned q \<le> length m"
      "h_contentLen q = 0"
    and h: "decode_head m (full m) q = (None, m2, ln, q2)"
    and b: "decode_body m2 (full m) True q2 = Some (NotComplete, q3)"
    and f: "finish_line m2 ln (NotComplete, q3) = (NotComplete, m1, q1)"
  shows "length m1 = length m \<and> waiting m1 q1 \<and>
    req_tryDecode (m1 @ x) (full (m1 @ x)) True q1 = req_tryDecode (m @ x) (full (m @ x)) True q"
proof -
  note M = decode_head_more [OF len q(3,2) h option.distinct(1)]
  have "decode_body m2 (full m2) True q2 = Some (NotComplete, q3)" using b M(2) by (simp add: full_def)
  from body_wait [OF this] have q3: "q3 = q2" by simp
  have ok: "slice_size ln \<noteq> 0 \<Longrightarrow> fst (req_line m2 ln q2)" "m1 = m2"
      "q1 = (if slice_size ln = 0 then q2 else snd (req_line m2 ln q2))"
    using f q3 by (auto simp: finish_line_def split: if_splits)
  have sc: "h_scanned q2 \<le> length m" "\<not> h_complete q2" using M(7,8) q(1) by simp_all
  have cl: "h_contentLen q2 \<noteq> 0" using b q3 sc len by (auto simp: decode_body_nat split: if_splits)
  have q1: "h_complete q1 = h_complete q2" "h_contentLen q1 = h_contentLen q2" "h_scanned q1 = h_scanned q2"
      "h_headers q1 = h_headers q2"
    using ok(3) by (simp_all add: req_line_keeps)
  have "req_tryDecode (m @ x) (full (m @ x)) True q =
      map_option (finish_line (m2 @ x) ln) (decode_body (m2 @ x) (full (m @ x)) True q2)"
    using req_tryDecode_head [OF q(4,1) M(1)] by simp
  also have "\<dots> = map_option (\<lambda>(r, q). (r, m2 @ x, q)) (decode_body (m2 @ x) (full (m @ x)) True q1)"
  proof (cases "slice_size ln = 0")
    case True
    then show ?thesis using ok(3) by (auto simp: finish_line_def)
  next
    case False
    have lm: "req_line (m2 @ x) ln q' = req_line m2 ln q'" for q'
      using req_line_more [of ln m2 x q'] M(2-4) by simp
    show ?thesis using False ok
      by (cases "decode_body (m2 @ x) (full (m @ x)) True q2")
        (auto simp: finish_line_def req_line_body lm req_line_ok)
  qed
  also have "\<dots> = req_tryDecode (m1 @ x) (full (m1 @ x)) True q1"
    using q1 cl sc M(2) ok(2) by (simp add: req_tryDecode_body full_def)
  finally show ?thesis using M(2,5) ok(2) q1 sc by (simp add: waiting_def)
qed

lemma req_wait:
  assumes len: "length (m @ x) < 2 ^ 63" and w: "waiting m q"
    and r: "req_tryDecode m (full m) True q = Some (NotComplete, m1, q1)"
  shows "length m1 = length m \<and> waiting m1 q1 \<and>
    req_tryDecode (m1 @ x) (full (m1 @ x)) True q1 = req_tryDecode (m @ x) (full (m @ x)) True q"
proof (cases "h_contentLen q = 0")
  case False
  with r w have "m1 = m" "decode_body m (full m) True q = Some (NotComplete, q1)"
    by (auto simp: req_tryDecode_body waiting_def)
  with body_wait [of m q q1] w show ?thesis by simp
next
  case True
  have q: "\<not> h_complete q" "lower_keys (h_headers q)" "h_scanned q \<le> length m"
    using w by (simp_all add: waiting_def)
  obtain e m2 ln q2 where h: "decode_head m (full m) q = (e, m2, ln, q2)" by (cases "decode_head m (full m) q") auto
  note R = req_tryDecode_head [OF True q(1) h]
  show ?thesis
  proof (cases "e = Some NotComplete")
    case e: True
    note W = decode_head_wait [OF len q(3,2) h [unfolded e]]
    have "m1 = m \<and> q1 = q2" using r R e W(1,2) by (simp add: finish_line_def nil_slice_def slice_size_def)
    moreover have "\<not> h_complete q2" "h_contentLen q2 = 0" "h_headers q2 = h_headers q"
      using q(1) True W(4) by (metis http_msg.update_convs(7) http_msg.ext_inject http_msg.surjective)+
    ultimately show ?thesis using W(3,5) q True by (simp add: waiting_def req_tryDecode_def msg_tryDecode_def)
  next
    case e: False
    have eN: "e = None" using decode_head_more(6) [OF len q(3,2) h e] finish_line_NotComplete [of m2 ln Error q2] r R by auto
    with r R obtain r3 q3 where "decode_body m2 (full m) True q2 = Some (r3, q3)" "finish_line m2 ln (r3, q3) = (NotComplete, m1, q1)"
      by auto
    with req_wait_body [OF len q True h [unfolded eN]] show ?thesis using finish_line_NotComplete by blast
  qed
qed

lemma finish_line_more:
  "s_pb ln \<le> s_pe ln \<Longrightarrow> s_pe ln \<le> length m \<Longrightarrow>
   finish_line (m @ x) ln p = (\<lambda>(r, m, q). (r, m @ x, q)) (finish_line m ln p)"
  by (cases p) (simp add: finish_line_def req_line_more)

text \<open>A body that is awaited is never of a length \<open>assign\<close> refuses.\<close>

lemma body_wait_more:
  assumes "length (m @ x) < 2 ^ 63" and "decode_body m (full m) True h = Some (NotComplete, h)"
    and "h_scanned h \<le> length m" and "h_contentLen h < 2 ^ 64"
  shows "decode_body (m @ x) (full (m @ x)) True h \<noteq> None"
proof (cases "h_contentLen h < 2 ^ 63")
  case False
  have lt: "length m < (h_contentLen h + h_scanned h) mod 2 ^ 64"
    using assms(1,2) by (auto simp: decode_body_nat split: if_splits)
  have "h_contentLen h + h_scanned h < 2 ^ 64"
  proof (rule ccontr)
    assume "\<not> h_contentLen h + h_scanned h < 2 ^ 64"
    then have "(h_contentLen h + h_scanned h) mod 2 ^ 64 = (h_contentLen h + h_scanned h - 2 ^ 64) mod 2 ^ 64"
      by (simp add: le_mod_geq)
    also have "\<dots> \<le> h_contentLen h + h_scanned h - 2 ^ 64" by (rule mod_less_eq_dividend)
    finally show False using lt assms(3,4) by simp
  qed
  then show ?thesis using False assms(1) by (simp add: decode_body_nat)
qed (auto simp: decode_body_nat)

text \<open>
  A result other than \<open>NotComplete\<close> does not change when more input follows. Of an \<open>Error\<close> only
  that it is one counts: the connection is closed.
\<close>

definition outcome :: "(http_result \<times> bytes \<times> http_req) option \<Rightarrow> (http_result \<times> (bytes \<times> http_req) option) option" where
  "outcome = map_option (\<lambda>(r, m, q). (r, if r = Error then None else Some (m, q)))"

lemma req_done_body:
  assumes len: "length (m @ x) < 2 ^ 63" and sc: "h_scanned q \<le> length m" "\<not> h_complete q" "h_contentLen q < 2 ^ 64"
    and r: "\<And>q1. map_option (finish_line m ln) (decode_body m (full m) True q) \<noteq> Some (NotComplete, m, q1)"
    and F: "s_pb ln \<le> s_pe ln" "s_pe ln \<le> length m"
  shows "outcome (map_option (finish_line (m @ x) ln) (decode_body (m @ x) (full (m @ x)) True q)) =
    outcome (map_option (\<lambda>(r, m, q). (r, m @ x, q)) (map_option (finish_line m ln) (decode_body m (full m) True q)))"
proof (cases "decode_body m (full m) True q = Some (NotComplete, q)")
  case False
  from body_more [OF len this sc(2,1)] show ?thesis
    by (cases "decode_body m (full m) True q") (simp_all add: finish_line_more [OF F])
next
  case True
  with r [of q] r [of "snd (req_line m ln q)"] have bad: "slice_size ln \<noteq> 0" "\<not> fst (req_line m ln q)"
    by (auto simp: finish_line_def split: if_splits)
  then have err: "fst (finish_line m ln (r', q')) = Error" for r' q'
    by (simp add: finish_line_def req_line_ok)
  obtain p where p: "decode_body (m @ x) (full (m @ x)) True q = Some p"
    using body_wait_more [OF len True sc(1,3)] by blast
  show ?thesis using True p err [of "fst p" "snd p"] err [of NotComplete q]
    by (simp add: outcome_def split_beta finish_line_more [OF F])
qed

lemma req_done:
  assumes len: "length (m @ x) < 2 ^ 63" and w: "waiting m q"
    and r: "\<And>m1 q1. req_tryDecode m (full m) True q \<noteq> Some (NotComplete, m1, q1)"
  shows "outcome (req_tryDecode (m @ x) (full (m @ x)) True q) =
    outcome (map_option (\<lambda>(r, m, q). (r, m @ x, q)) (req_tryDecode m (full m) True q))"
proof (cases "h_contentLen q = 0")
  case False
  with w r have "decode_body m (full m) True q \<noteq> Some (NotComplete, q)"
    by (auto simp: req_tryDecode_body waiting_def)
  from body_more [OF len this] w False show ?thesis
    by (cases "decode_body m (full m) True q") (auto simp: req_tryDecode_body waiting_def)
next
  case True
  have q: "\<not> h_complete q" "lower_keys (h_headers q)" "h_scanned q \<le> length m"
    using w by (simp_all add: waiting_def)
  obtain e m2 ln q2 where h: "decode_head m (full m) q = (e, m2, ln, q2)" by (cases "decode_head m (full m) q") auto
  note R = req_tryDecode_head [OF True q(1) h]
  have e: "e \<noteq> Some NotComplete"
  proof
    assume "e = Some NotComplete"
    with R h decode_head_wait(2) [OF len q(3,2), of m2 ln q2]
    have "req_tryDecode m (full m) True q = Some (NotComplete, m2, q2)"
      by (simp add: finish_line_def nil_slice_def slice_size_def)
    with r show False by blast
  qed
  note M = decode_head_more [OF len q(3,2) h e]
  note R' = req_tryDecode_head [OF True q(1) M(1)]
  show ?thesis
  proof (cases e)
    case (Some a)
    then show ?thesis using R R' finish_line_more [of ln m2 x, OF M(3) M(4) [folded M(2)]] by simp
  next
    case None
    have "full m2 = full m" "full (m2 @ x) = full (m @ x)" using M(2) by (simp_all add: full_def)
    with req_done_body [of m2 x q2 ln] len M(2-4,7-9) q(1) r R R' None show ?thesis by simp
  qed
qed

section \<open>Properties of decoding\<close>

text \<open>
  What a connection does with a request that arrives in chunks: each read event appends to the
  input and decodes it again, until the result is not \<open>NotComplete\<close>.
\<close>

primrec feed :: "bytes list \<Rightarrow> bytes \<Rightarrow> http_req \<Rightarrow> (http_result \<times> bytes \<times> http_req) option" where
  "feed [] m q = Some (NotComplete, m, q)"
| "feed (c # cs) m q =
     do {
       (r, m, q) \<leftarrow> req_tryDecode (m @ c) (full (m @ c)) True q;
       if r = NotComplete then feed cs m q else Some (r, m @ concat cs, q)
     }"

lemma feed_once:
  "length (m @ c @ concat cs) < 2 ^ 63 \<Longrightarrow> waiting m q \<Longrightarrow>
   outcome (feed (c # cs) m q) = outcome (req_tryDecode (m @ c @ concat cs) (full (m @ c @ concat cs)) True q)"
proof (induction cs arbitrary: c m q)
  case Nil
  then show ?case by (auto simp: bind_eq_None_conv split: option.splits cong: option.case_cong)
      (cases "req_tryDecode (m @ c) (full (m @ c)) True q"; auto)+
next
  case (Cons d cs)
  let ?x = "d @ concat cs"
  have w: "waiting (m @ c) q" using Cons.prems(2) by (simp add: waiting_def)
  have len: "length ((m @ c) @ ?x) < 2 ^ 63" using Cons.prems(1) by simp
  show ?case
  proof (cases "\<exists>m1 q1. req_tryDecode (m @ c) (full (m @ c)) True q = Some (NotComplete, m1, q1)")
    case True
    then obtain m1 q1 where r: "req_tryDecode (m @ c) (full (m @ c)) True q = Some (NotComplete, m1, q1)" by blast
    note W = req_wait [OF len w r]
    have "feed (c # d # cs) m q = feed (d # cs) m1 q1" by (simp only: feed.simps(2) [of c] r) simp
    moreover have "outcome (feed (d # cs) m1 q1) = outcome (req_tryDecode (m1 @ ?x) (full (m1 @ ?x)) True q1)"
      using Cons.IH [of m1 d q1] W len by simp
    ultimately show ?thesis using W by simp
  next
    case False
    then have "feed (c # d # cs) m q = map_option (\<lambda>(r, m, q). (r, m @ ?x, q)) (req_tryDecode (m @ c) (full (m @ c)) True q)"
      by (cases "req_tryDecode (m @ c) (full (m @ c)) True q") (auto simp del: feed.simps(2) simp: feed.simps(2) [of c])
    then show ?thesis using req_done [OF len w] False by simp
  qed
qed

lemma waiting_new [simp]: "waiting [] req_new"
  by (simp add: waiting_def req_new_def req_clear_def msg_clear_def)

text \<open>
  C12: Decoding an HTTP request does not depend on how it arrives. A connection that decodes its
  input at every read event, through the position and length kept between the calls and the
  names lower-cased in the input, ends with the result of one call on all the bytes: the same
  answer or the same exception, and if the answer is not \<open>Error\<close> the same request and input.
\<close>

theorem http_request_fragmentation:
  assumes "cs \<noteq> []" and "length (concat cs) < 2 ^ 63"
  shows "outcome (feed cs [] req_new) = outcome (req_tryDecode (concat cs) (full (concat cs)) True req_new)"
  using assms feed_once [of "[]" "hd cs" "tl cs" req_new] by (cases cs) simp_all

theorem http_request_fragmentation_witness:
  "\<exists>m q. outcome (req_tryDecode (concat [''GET /a?x'', ''=1 HTTP/1.1'' @ CRLF @ ''Content-Length: 3'' @ CRLF @ [CR], LF # ''a'', ''bc''])
      (full (concat [''GET /a?x'', ''=1 HTTP/1.1'' @ CRLF @ ''Content-Length: 3'' @ CRLF @ [CR], LF # ''a'', ''bc''])) True req_new) =
     Some (Complete, Some (m, q)) \<and> q_uri q = ''/a'' \<and> h_body q = ''abc''"
proof -
  define cs where "cs = [''GET /a?x'', ''=1 HTTP/1.1'' @ CRLF @ ''Content-Length: 3'' @ CRLF @ [CR], LF # ''a'', ''bc'']"
  have "map_option (\<lambda>(r, m, q). (r, q_uri q, h_body q)) (feed cs [] req_new) = Some (Complete, ''/a'', ''abc'')"
    unfolding cs_def by code_simp
  then obtain m q where f: "feed cs [] req_new = Some (Complete, m, q)" "q_uri q = ''/a''" "h_body q = ''abc''"
    by auto
  have "cs \<noteq> []" "length (concat cs) < 2 ^ 63" by (simp_all add: cs_def)
  from http_request_fragmentation [OF this] f have
    "outcome (req_tryDecode (concat cs) (full (concat cs)) True req_new) = Some (Complete, Some (m, q))"
    by (simp add: outcome_def)
  with f(2,3) show ?thesis unfolding cs_def by blast
qed

lemma req_tryDecode_results:
  assumes "length m < 2 ^ 63" and "waiting m q" and "req_tryDecode m (full m) cp q = Some (r, m', q')"
  shows "r \<noteq> Continue100"
proof (cases "h_contentLen q = 0")
  case False
  with assms(2,3) show ?thesis
    by (auto simp: req_tryDecode_body waiting_def decode_body_def Let_def split: if_splits)
next
  case True
  have q: "\<not> h_complete q" "lower_keys (h_headers q)" "h_scanned q \<le> length m"
    using assms(2) by (simp_all add: waiting_def)
  obtain e m1 ln q1 where h: "decode_head m (full m) q = (e, m1, ln, q1)" by (cases "decode_head m (full m) q") auto
  have e: "e = None \<or> e = Some Error \<or> e = Some NotComplete"
    using decode_head_more(6) [OF _ q(3,2) h, of "[]"] assms(1) by auto
  have fin: "fst (finish_line m1 ln (r', q')) \<noteq> Continue100" if "r' \<noteq> Continue100" for r' q'
    using that by (simp add: finish_line_def)
  have "r' \<noteq> Continue100" if "decode_body m1 (full m) cp q1 = Some (r', q2)" for r' q2
    using that by (auto simp: decode_body_def Let_def split: if_splits)
  with e fin assms(3) req_tryDecode_head [OF True q(1) h] show ?thesis
    by (auto simp: prod_eq_iff split: option.splits)
qed

text \<open>
  No request is ever answered with \<open>100 Continue\<close>: names of headers are stored in lower case,
  so the decoder's test for the header \<open>Expect\<close> fails and \<open>Continue100\<close> is not a result,
  however the request arrives. A client that waits for it before it sends its body waits in vain.
\<close>

theorem http_never_continues:
  assumes "length (concat cs) < 2 ^ 63" and "feed cs [] req_new = Some (r, m, q)"
  shows "r \<noteq> Continue100"
proof (cases cs)
  case Nil
  with assms(2) show ?thesis by auto
next
  case (Cons c ds)
  from feed_once [of "[]" c ds req_new] assms Cons have
    "outcome (req_tryDecode (concat cs) (full (concat cs)) True req_new) = outcome (Some (r, m, q))" by simp
  moreover have "waiting (concat cs) req_new" using waiting_new by (simp add: waiting_def)
  ultimately show ?thesis
    using req_tryDecode_results [OF assms(1), of req_new True]
    by (cases "req_tryDecode (concat cs) (full (concat cs)) True req_new") (auto simp: outcome_def split: if_splits)
qed

theorem http_never_continues_witness:
  "\<exists>r m q. feed [''PUT / HTTP/1.1'' @ CRLF @ ''Expect: 100-continue'' @ CRLF @ ''Content-Length: 9'' @ CRLF @ CRLF] [] req_new =
     Some (r, m, q) \<and> r \<noteq> Continue100"
proof -
  let ?c = "''PUT / HTTP/1.1'' @ CRLF @ ''Expect: 100-continue'' @ CRLF @ ''Content-Length: 9'' @ CRLF @ CRLF"
  have "map_option fst (feed [?c] [] req_new) = Some NotComplete" by code_simp
  then obtain r m q where f: "feed [?c] [] req_new = Some (r, m, q)" by auto
  with http_never_continues [OF _ f] show ?thesis by auto
qed

end
