(* ===== verification/Handy_Http_Query.thy ===== *)
theory Handy_Http_Query
  imports Handy_Http
begin

text \<open>
  The query string of a request: the index loop of \<open>HttpRequest::tryDecode\<close> reads the fields that
  a specification by cutting at \<open>&\<close> and \<open>=\<close> reads.
\<close>

section \<open>The query string\<close>

text \<open>
  The reference: the query string is cut at each \<open>&\<close>, each field at its first \<open>=\<close>; a field without
  a name is skipped, and of two fields with the same name the last one counts.
\<close>

definition put_field :: "bytes \<Rightarrow> (bytes \<times> bytes) list \<Rightarrow> (bytes \<times> bytes) list" where
  "put_field f args =
     (let k = takeWhile (\<lambda>c. c \<noteq> CHR ''='') f
      in if k = [] then args else map_put k (drop (Suc (length k)) f) args)"

definition args_ref :: "bytes \<Rightarrow> (bytes \<times> bytes) list \<Rightarrow> (bytes \<times> bytes) list" where
  "args_ref qs args = fold put_field (Handy_Slice.fields (CHR ''&'') qs) args"

lemma fields_step:
  "Handy_Slice.fields ch s = takeWhile (\<lambda>c. c \<noteq> ch) s #
     (case dropWhile (\<lambda>c. c \<noteq> ch) s of [] \<Rightarrow> [] | c # t \<Rightarrow> Handy_Slice.fields ch t)"
  by (induction s) (auto split: list.splits)

lemma args_ref_Nil [simp]: "args_ref [] args = args"
  by (simp add: args_ref_def put_field_def)

lemma args_ref_step:
  "args_ref s args = args_ref (tl (dropWhile (\<lambda>c. c \<noteq> CHR ''&'') s)) (put_field (takeWhile (\<lambda>c. c \<noteq> CHR ''&'') s) args)"
proof (cases "dropWhile (\<lambda>c. c \<noteq> CHR ''&'') s")
  case Nil
  then show ?thesis unfolding args_ref_def by (subst fields_step) (simp only: Nil list.case fold_simps list.sel fields.simps, simp add: put_field_def)
next
  case (Cons c t)
  then show ?thesis unfolding args_ref_def by (subst fields_step) simp
qed

text \<open>The parts the loop finds in the rest of the query string.\<close>

lemma field_parts:
  fixes s :: bytes
  defines "k \<equiv> takeWhile (\<lambda>c. c \<noteq> CHR ''='' \<and> c \<noteq> CHR ''&'') s"
  defines "t \<equiv> dropWhile (\<lambda>c. c \<noteq> CHR ''='' \<and> c \<noteq> CHR ''&'') s"
  defines "u \<equiv> (if t \<noteq> [] \<and> hd t = CHR ''='' then tl t else t)"
  shows "put_field (takeWhile (\<lambda>c. c \<noteq> CHR ''&'') s) args =
      (if k \<noteq> [] then map_put k (takeWhile (\<lambda>c. c \<noteq> CHR ''&'') u) args else args)"
    and "dropWhile (\<lambda>c. c \<noteq> CHR ''&'') s = dropWhile (\<lambda>c. c \<noteq> CHR ''&'') u"
proof -
  have s: "s = k @ t" by (simp add: k_def t_def)
  have k: "\<forall>c \<in> set k. c \<noteq> CHR ''='' \<and> c \<noteq> CHR ''&''" by (auto simp: k_def dest: set_takeWhileD)
  have t: "t = [] \<or> hd t = CHR ''='' \<or> hd t = CHR ''&''"
    unfolding t_def using hd_dropWhile [of "\<lambda>c. c \<noteq> CHR ''='' \<and> c \<noteq> CHR ''&''" s] by auto
  have tw: "takeWhile (\<lambda>c. c \<noteq> CHR ''&'') s = k @ takeWhile (\<lambda>c. c \<noteq> CHR ''&'') t"
    using k by (simp add: s takeWhile_append)
  have dw: "dropWhile (\<lambda>c. c \<noteq> CHR ''&'') s = dropWhile (\<lambda>c. c \<noteq> CHR ''&'') t"
    using k by (simp add: s dropWhile_append)
  have ke: "takeWhile (\<lambda>c. c \<noteq> CHR ''='') (k @ CHR ''='' # r) = k" "takeWhile (\<lambda>c. c \<noteq> CHR ''='') k = k" for r
    using k by (simp_all add: takeWhile_append)
  consider "t = []" | r where "t = CHR ''='' # r" | r where "t = CHR ''&'' # r"
    using t by (cases t) auto
  then show "put_field (takeWhile (\<lambda>c. c \<noteq> CHR ''&'') s) args =
      (if k \<noteq> [] then map_put k (takeWhile (\<lambda>c. c \<noteq> CHR ''&'') u) args else args)"
    by cases (simp_all add: tw put_field_def u_def ke Let_def)
  show "dropWhile (\<lambda>c. c \<noteq> CHR ''&'') s = dropWhile (\<lambda>c. c \<noteq> CHR ''&'') u"
    using t by (cases t) (simp_all add: dw u_def)
qed

lemma seg_to_end: "seg m p (length m) = drop p m"
  by (simp add: seg_def)

lemma parse_args_ref: "c \<le> length qs \<Longrightarrow> parse_args qs c args = args_ref (drop c qs) args"
proof (induction qs c args rule: parse_args.induct)
  case (1 qs c args)
  show ?case
  proof (cases "c < length qs")
    case False
    then show ?thesis using "1.prems" by (simp add: parse_args.simps)
  next
    case True
    let ?P = "\<lambda>x. x \<noteq> CHR ''='' \<and> x \<noteq> CHR ''&''" and ?Q = "\<lambda>x. x \<noteq> CHR ''&''"
    define ke where "ke = scan_fwd ?P qs c (length qs)"
    define vb where "vb = (if ke < length qs \<and> qs ! ke = CHR ''='' then Suc ke else ke)"
    define ve where "ve = scan_fwd ?Q qs vb (length qs)"
    define c' where "c' = (if ve < length qs \<and> qs ! ve = CHR ''&'' then Suc ve else ve)"
    have ke: "c \<le> ke" "ke \<le> length qs" using scan_fwd_bounds True by (simp_all add: ke_def)
    have vb: "vb \<le> length qs" using ke by (simp add: vb_def)
    have ve: "vb \<le> ve" "ve \<le> length qs" using scan_fwd_bounds vb by (simp_all add: ve_def)
    have k: "seg qs c ke = takeWhile ?P (drop c qs)" "drop ke qs = dropWhile ?P (drop c qs)"
      using seg_scan_fwd [of c "length qs" qs ?P] ke True by (simp_all add: ke_def seg_to_end)
    let ?u = "if drop ke qs \<noteq> [] \<and> hd (drop ke qs) = CHR ''='' then tl (drop ke qs) else drop ke qs"
    have u: "drop vb qs = ?u"
      by (cases "ke < length qs") (simp_all add: vb_def hd_drop_conv_nth tl_drop drop_Suc)
    have v: "seg qs vb ve = takeWhile ?Q ?u" "drop ve qs = dropWhile ?Q ?u"
      using seg_scan_fwd [of vb "length qs" qs ?Q] vb ve unfolding ve_def [symmetric] seg_to_end u [symmetric] by simp_all
    have "hd (drop ve qs) = CHR ''&''" if "ve < length qs"
    proof -
      have "dropWhile ?Q ?u \<noteq> []" using that unfolding v(2) [symmetric] by simp
      from hd_dropWhile [OF this] show ?thesis unfolding v(2) by simp
    qed
    then have c': "drop c' qs = tl (drop ve qs)" "c' \<le> length qs"
      using ve by (cases "ve < length qs"; simp add: c'_def hd_drop_conv_nth tl_drop drop_Suc)+
    let ?args = "if c \<noteq> ke then map_put (seg qs c ke) (seg qs vb ve) args else args"
    have "c \<noteq> ke \<longleftrightarrow> seg qs c ke \<noteq> []" using ke by (auto simp: seg_def)
    with field_parts [of "drop c qs", folded k(2), folded k(1)] v have
      "put_field (takeWhile ?Q (drop c qs)) args = ?args" "dropWhile ?Q (drop c qs) = drop ve qs" by auto
    then have "args_ref (drop c qs) args = args_ref (drop c' qs) ?args" using args_ref_step [of "drop c qs" args] c'(1) by (simp only:)
    moreover have "parse_args qs c args = parse_args qs c' ?args"
      unfolding parse_args.simps [of qs c args] Let_def ke_def vb_def ve_def c'_def using True by (simp only: if_True)
    moreover have "parse_args qs c' ?args = args_ref (drop c' qs) ?args"
      using "1.IH" [OF True ke_def vb_def ve_def c'_def refl] c'(2) by simp
    ultimately show ?thesis by simp
  qed
qed

text \<open>
  C16: The arguments of a request are those of its query string: the loop over indices puts into
  the map exactly the fields between the \<open>&\<close> characters, each cut at its first \<open>=\<close>, in order, and
  the path is what precedes the first question mark.
\<close>

theorem http_query_reference:
  assumes "slice_eatWord m ln = (w1, l1)" and "slice_eatWord m l1 = (w, l2)"
    and "slice_str m w = CHR ''/'' # p @ CHR ''?'' # qs" and "CHR ''?'' \<notin> set p"
  shows "\<exists>q'. req_line m ln q = (True, q') \<and> q_uri q' = CHR ''/'' # p \<and> q_args q' = args_ref qs (q_args q)"
proof -
  obtain w3 l3 where 3: "slice_eatWord m l2 = (w3, l3)" by force
  have "takeWhile (\<lambda>c. c \<noteq> CHR ''?'') (CHR ''/'' # p @ CHR ''?'' # qs) = CHR ''/'' # p"
    using takeWhile_neq [OF assms(4)] by simp
  then show ?thesis
    by (simp add: req_line_def assms(1-3) 3 parse_args_ref)
qed

theorem http_query_reference_witness:
  "\<exists>q'. req_line ''GET /f?a=1&b HTTP/1.0'' (slice_range 0 21) req_new = (True, q') \<and> q_uri q' = ''/f'' \<and>
     q_args q' = [(''a'', ''1''), (''b'', [])]"
proof -
  have "slice_eatWord ''GET /f?a=1&b HTTP/1.0'' (slice_range 0 21) = (slice_range 0 3, slice_range 3 21)" by code_simp
  moreover have "slice_eatWord ''GET /f?a=1&b HTTP/1.0'' (slice_range 3 21) = (slice_range 4 12, slice_range 12 21)" by code_simp
  moreover have "slice_str ''GET /f?a=1&b HTTP/1.0'' (slice_range 4 12) = CHR ''/'' # ''f'' @ CHR ''?'' # ''a=1&b''" by code_simp
  moreover have "args_ref ''a=1&b'' (q_args req_new) = [(''a'', ''1''), (''b'', [])]" by code_simp
  ultimately show ?thesis
    using http_query_reference [of "''GET /f?a=1&b HTTP/1.0''" "slice_range 0 21" "slice_range 0 3" "slice_range 3 21"
        "slice_range 4 12" "slice_range 12 21" "''f''" "''a=1&b''" req_new]
    by simp
qed

end
