(* ===== verification/Handy_Http_Wire.thy ===== *)
theory Handy_Http_Wire
  imports Handy_Http_Text Handy_Http_Query
begin

text \<open>
  Encoded messages: what \<open>HttpRequest::encode\<close> and \<open>HttpResponse::encode\<close> put into the buffer, as
  byte strings, and that the decoder reads it back.
\<close>

section \<open>What the encoders write\<close>

definition hdr_line :: "bytes \<times> bytes \<Rightarrow> bytes" where
  "hdr_line h = fst h @ '': '' @ snd h"

definition hdr_text :: "(bytes \<times> bytes) list \<Rightarrow> bytes" where
  "hdr_text hs = concat (map (\<lambda>h. hdr_line h @ CRLF) hs)"

lemma hdr_text_simps [simp]:
  "hdr_text [] = []" "hdr_text (h # hs) = hdr_line h @ CRLF @ hdr_text hs" "hdr_text (hs @ hs') = hdr_text hs @ hdr_text hs'"
  by (simp_all add: hdr_text_def)

text \<open>The two headers an encoder adds.\<close>

definition own_headers :: "bytes \<Rightarrow> (bytes \<times> bytes) list" where
  "own_headers body = [(''Connection'', ''Keep-Alive''), (''Content-Length'', show_nat (length body))]"

lemma encode_headers_text:
  "buf_ok b \<Longrightarrow> buf_ok (encode_headers hs b) \<and> buf_str (encode_headers hs b) = buf_str b @ hdr_text hs"
  by (induction hs arbitrary: b) (simp_all add: hdr_line_def)

lemma encode_rest_text:
  assumes "buf_ok b" and "length (getBody h) < 2 ^ 63"
  shows "buf_ok (encode_rest h b) \<and>
    buf_str (encode_rest h b) = buf_str b @ hdr_text (h_headers h @ own_headers (getBody h)) @ CRLF @ getBody h"
proof -
  have "length (show_nat (length (getBody h))) \<le> 20"
    using length_show_nat [of "length (getBody h)" 20] assms(2) by simp
  then have "snprintf_str 1024 (''Content-Length: '' @ show_nat (length (getBody h)) @ CRLF) =
      ''Content-Length: '' @ show_nat (length (getBody h)) @ CRLF"
    by (simp add: snprintf_str_def)
  then show ?thesis
    using encode_headers_text [OF assms(1), of "h_headers h"]
    by (simp add: encode_rest_def Let_def own_headers_def hdr_line_def)
qed

section \<open>Reading header lines back\<close>

text \<open>A header the decoder gives back: a name without white space, a value without white space at its ends.\<close>

definition hdr_ok :: "bytes \<times> bytes \<Rightarrow> bool" where
  "hdr_ok h \<longleftrightarrow> (\<forall>c \<in> set (fst h). \<not> isspace c) \<and> snd h \<noteq> [] \<and> trim (snd h) = snd h \<and>
     (\<forall>c \<in> set (snd h). c \<noteq> LF \<and> c \<noteq> CR)"

lemma trim_space: "isspace c \<Longrightarrow> trim (c # s) = trim s"
  by (simp add: trim_def)

lemma hdr_line_word:
  assumes "hdr_ok h"
  shows "line_word (hdr_line h) = fst h @ '':''" "trim (line_rest (hdr_line h)) = snd h" "good_line (hdr_line h)"
    "\<forall>c \<in> set (hdr_line h). not_eol c" "hdr_line h \<noteq> []"
proof -
  have sp: "\<not> isspace (CHR '':'')" "isspace (CHR '' '')" by (simp_all add: isspace_def)
  have k: "\<forall>c \<in> set (fst h @ '':''). \<not> isspace c" using assms sp by (auto simp: hdr_ok_def)
  have hl: "hdr_line h = (fst h @ '':'') @ CHR '' '' # snd h" by (simp add: hdr_line_def)
  have d: "dropWhile isspace (hdr_line h) = hdr_line h"
    using k unfolding hl by (cases "fst h @ '':''") auto
  show w: "line_word (hdr_line h) = fst h @ '':''"
    unfolding line_word_def d using k sp(2) unfolding hl by (subst takeWhile_append2) auto
  have r: "line_rest (hdr_line h) = CHR '' '' # snd h"
    unfolding line_rest_def d using k sp(2) unfolding hl by (subst dropWhile_append2) auto
  show t: "trim (line_rest (hdr_line h)) = snd h"
    using assms trim_space [OF sp(2)] by (simp add: r hdr_ok_def)
  show "good_line (hdr_line h)" using assms by (simp add: good_line_def w t) (simp add: hdr_ok_def)
  show "\<forall>c \<in> set (hdr_line h). not_eol c" using assms
    by (auto simp: hdr_line_def hdr_ok_def isspace_def)
  show "hdr_line h \<noteq> []" by (simp add: hdr_line_def)
qed

text \<open>The lines as the decoder sees them, each after the end of the line before.\<close>

definition hdr_tail :: "(bytes \<times> bytes) list \<Rightarrow> bytes" where
  "hdr_tail hs = concat (map (\<lambda>h. CRLF @ hdr_line h) hs)"

lemma hdr_tail_simps [simp]: "hdr_tail [] = []" "hdr_tail (h # hs) = CRLF @ hdr_line h @ hdr_tail hs"
  by (simp_all add: hdr_tail_def)

lemma hdr_text_tail: "CRLF @ hdr_text hs = hdr_tail hs @ CRLF"
  by (induction hs) simp_all

definition lower_line_hdr :: "bytes \<times> bytes \<Rightarrow> bytes" where
  "lower_line_hdr h = hdr_line (map tolower (fst h), snd h)"

definition put_headers :: "(bytes \<times> bytes) list \<Rightarrow> (bytes \<times> bytes) list \<Rightarrow> (bytes \<times> bytes) list" where
  "put_headers hs m = fold (\<lambda>h. map_put (map tolower (fst h)) (snd h)) hs m"

lemma lower_line_eq: "hdr_ok h \<Longrightarrow> lower_line (hdr_line h) = lower_line_hdr h"
proof -
  assume h: "hdr_ok h"
  have "takeWhile isspace (hdr_line h) @ (fst h @ '':'') @ line_rest (hdr_line h) = hdr_line h"
    using line_parts [of "hdr_line h"] hdr_line_word(1) [OF h] by simp
  moreover have nsp: "takeWhile isspace (hdr_line h) = []"
    using h by (cases "fst h") (auto simp: hdr_line_def hdr_ok_def isspace_def)
  ultimately have "line_rest (hdr_line h) = '' '' @ snd h" by (simp add: hdr_line_def)
  then show ?thesis using nsp hdr_line_word(1) [OF h]
    by (simp add: lower_line_def lower_line_hdr_def hdr_line_def tolower_def)
qed

lemma hdr_abs_lines:
  assumes "length e = 2" and "hdr_ok h" and "\<forall>h \<in> set hs. hdr_ok h"
  shows "hdr_abs (e @ hdr_line h @ hdr_tail hs) m =
    (e @ lower_line_hdr h @ concat (map (\<lambda>h. CRLF @ lower_line_hdr h) hs), put_headers (h # hs) m, True)"
  using assms
proof (induction hs arbitrary: e h m)
  case Nil
  note H = hdr_line_word [OF Nil.prems(2)]
  have tw: "takeWhile not_eol (hdr_line h) = hdr_line h" "dropWhile not_eol (hdr_line h) = []" using H(4) by auto
  show ?case using Nil.prems(1) H lower_line_eq [OF Nil.prems(2)]
    by (subst hdr_abs.simps) (auto simp: tw Let_def put_headers_def hdr_abs.simps [of "[]"])
next
  case (Cons h' hs)
  note H = hdr_line_word [OF Cons.prems(2)]
  let ?t = "hdr_tail (h' # hs)"
  have tw: "takeWhile not_eol (hdr_line h @ ?t) = hdr_line h" "dropWhile not_eol (hdr_line h @ ?t) = ?t"
    using H(4) by (simp_all add: takeWhile_append dropWhile_append)
  have "hdr_abs ?t m' = (CRLF @ lower_line_hdr h' @ concat (map (\<lambda>h. CRLF @ lower_line_hdr h) hs), put_headers (h' # hs) m', True)" for m'
    using Cons.IH [of CRLF h' m'] Cons.prems(3) by simp
  then show ?case using Cons.prems(1) H lower_line_eq [OF Cons.prems(2)]
    by (subst hdr_abs.simps) (simp add: tw Let_def put_headers_def)
qed

lemma scan4_tail:
  assumes "\<forall>h \<in> set hs. hdr_ok h"
  shows "scan4 (hdr_tail hs @ CRLF @ CRLF @ body) = (length (hdr_tail hs), True)"
  using assms
proof (induction hs)
  case (Cons h hs)
  then have h: "hdr_ok h" by simp
  note H = hdr_line_word [OF h]
  let ?t = "hdr_tail hs @ CRLF @ CRLF @ body"
  obtain c s where c: "hdr_line h = c # s" using H(5) by (cases "hdr_line h") auto
  have len: "3 \<le> length ?t" by simp
  have "scan4 (CRLF @ c # s @ ?t) = (let (n, b) = scan4 (c # s @ ?t) in (Suc (Suc n), b))"
    using scan4_line [of c "s @ ?t"] H(4) c by simp
  moreover have "scan4 ((c # s) @ ?t) = (let (n, b) = scan4 ?t in (length (c # s) + n, b))"
    using H(4) unfolding c [symmetric] by (intro scan4_word len) auto
  ultimately show ?case using Cons by (simp add: c)
qed simp

section \<open>A whole message\<close>

definition wire :: "bytes \<Rightarrow> bytes \<Rightarrow> (bytes \<times> bytes) list \<Rightarrow> bytes \<Rightarrow> bytes" where
  "wire l e hs body = l @ e @ hdr_line (hd hs) @ hdr_tail (tl hs) @ CRLF @ CRLF @ body"

definition wire_read :: "bytes \<Rightarrow> bytes \<Rightarrow> (bytes \<times> bytes) list \<Rightarrow> bytes \<Rightarrow> bytes" where
  "wire_read l e hs body =
     l @ e @ lower_line_hdr (hd hs) @ concat (map (\<lambda>h. CRLF @ lower_line_hdr h) (tl hs)) @ CRLF @ CRLF @ body"

lemma length_lower_line_hdr [simp]: "length (lower_line_hdr h) = length (hdr_line h)"
  by (simp add: lower_line_hdr_def hdr_line_def)

lemma length_wire_read: "length (wire_read l e hs body) = length (wire l e hs body)"
proof -
  have "length (concat (map (\<lambda>h. CRLF @ lower_line_hdr h) xs)) = length (hdr_tail xs)" for xs
    by (induction xs) simp_all
  then show ?thesis by (simp add: wire_def wire_read_def)
qed

lemma scan4_wire:
  assumes "\<forall>c \<in> set l. c \<noteq> CR" and "e = CRLF \<or> e = [LF, LF]" and "hs \<noteq> []" and "\<forall>h \<in> set hs. hdr_ok h"
  shows "scan4 (wire l e hs body) = (length (wire l e hs body) - 4 - length body, True)"
proof -
  let ?t = "hdr_tail (tl hs) @ CRLF @ CRLF @ body"
  have hh: "hdr_ok (hd hs)" "\<forall>h \<in> set (tl hs). hdr_ok h" using assms(3,4) by (cases hs; simp)+
  note H = hdr_line_word [OF hh(1)]
  have len: "3 \<le> length ?t" by simp
  have t: "scan4 ?t = (length (hdr_tail (tl hs)), True)" using scan4_tail [OF hh(2)] .
  show ?thesis using assms(2)
  proof
    assume e: "e = CRLF"
    have "scan4 (hdr_tail hs @ CRLF @ CRLF @ body) = (length (hdr_tail hs), True)" using scan4_tail [OF assms(4)] .
    moreover have "hdr_tail hs = CRLF @ hdr_line (hd hs) @ hdr_tail (tl hs)" using assms(3) by (cases hs) simp_all
    ultimately have "scan4 (l @ CRLF @ hdr_line (hd hs) @ ?t) = (length l + length (hdr_tail hs), True)"
      using assms(1) by (subst scan4_word) auto
    with e show ?thesis using assms(3) by (cases hs) (simp_all add: wire_def)
  next
    assume e: "e = [LF, LF]"
    have "scan4 ((l @ e @ hdr_line (hd hs)) @ ?t) = (length (l @ e @ hdr_line (hd hs)) + length (hdr_tail (tl hs)), True)"
      using assms(1) H(4) len t e by (subst scan4_word) auto
    then show ?thesis by (simp add: wire_def e)
  qed
qed

lemma put_headers_ok: "map_ok m \<Longrightarrow> map_ok (put_headers hs m)"
  unfolding put_headers_def by (induction hs arbitrary: m) simp_all

lemma put_headers_append: "put_headers (hs @ hs') m = put_headers hs' (put_headers hs m)"
  by (simp add: put_headers_def)

text \<open>A map of lower-case names is read back as itself.\<close>

lemma map_put_last: "\<forall>p \<in> set m. fst p < k \<Longrightarrow> map_put k v m = m @ [(k, v)]"
  by (induction m) auto

lemma put_headers_sorted:
  "map_ok (m @ hs) \<Longrightarrow> lower_keys hs \<Longrightarrow> put_headers hs m = m @ hs"
proof (induction hs arbitrary: m)
  case (Cons h hs)
  have "\<forall>p \<in> set m. fst p < fst h" using Cons.prems(1) by (auto simp: map_ok_def sorted_wrt_append)
  then have "map_put (fst h) (snd h) m = m @ [h]" by (simp add: map_put_last)
  then show ?case using Cons by (simp add: put_headers_def lower_keys_def)
qed (simp add: put_headers_def)

lemma cstr_show_nat [simp]: "cstr (show_nat n) = show_nat n"
  using show_nat_digits [of n] by (auto simp: cstr_def isdigit_def takeWhile_eq_all_conv)

text \<open>The header part, for any \<open>content-length\<close>.\<close>

lemma wire_head:
  assumes l: "l \<noteq> []" "\<forall>c \<in> set l. not_eol c" and e: "e = CRLF \<or> e = [LF, LF]"
    and hs: "hs \<noteq> []" "\<forall>h \<in> set hs. hdr_ok h"
    and len: "length (wire l e hs body @ x) < 2 ^ 63"
    and h: "h_scanned h = 0" "h_headers h = []"
  shows "decode_head (wire l e hs body @ x) (full (wire l e hs body @ x)) h =
      (None, wire_read l e hs body @ x, slice_range 0 (length l),
       h\<lparr>h_headers := put_headers hs [], h_scanned := length (wire l e hs body) - length body,
         h_contentLen := nat (atoi (cstr (getValueFromMap (put_headers hs []) ''content-length'')) mod 2 ^ 64)\<rparr>)"
proof -
  let ?T = "wire l e hs body" and ?p = "length (wire l e hs body) - 4 - length body"
  let ?top = "l @ e @ hdr_line (hd hs) @ hdr_tail (tl hs)"
  have T: "?T = ?top @ CRLF @ CRLF @ body" by (simp add: wire_def)
  have p: "?p = length ?top" "?p \<noteq> 0" "take ?p (?T @ x) = ?top" using l(1) by (simp_all add: T)
  have sc: "scan4 (drop (h_scanned h) (?T @ x)) = (?p, True)"
    using scan4_more_True [OF scan4_wire [OF _ e hs], of l body x] l(2) h(1) by simp
  have eol: "takeWhile not_eol (e @ r) = []" "dropWhile not_eol (e @ r) = e @ r" for r using e by auto
  have ll: "takeWhile not_eol (l @ r) = l @ takeWhile not_eol r" "dropWhile not_eol (l @ r) = dropWhile not_eol r" for r
    using l(2) by (induction l) simp_all
  have tw: "takeWhile not_eol ?top = l" "dropWhile not_eol ?top = e @ hdr_line (hd hs) @ hdr_tail (tl hs)"
    by (simp_all only: ll eol append_Nil2)
  have hh: "hdr_ok (hd hs)" "\<forall>h \<in> set (tl hs). hdr_ok h" "hd hs # tl hs = hs" using hs by (cases hs; simp)+
  have e2: "length e = 2" using e by auto
  have abs: "hdr_abs (dropWhile not_eol (take ?p (?T @ x))) (h_headers h) =
      (e @ lower_line_hdr (hd hs) @ concat (map (\<lambda>h. CRLF @ lower_line_hdr h) (tl hs)), put_headers hs [], True)"
    using hdr_abs_lines [OF e2 hh(1,2), of "[]"] tw p(3) hh(3) h(2) by simp
  have dr: "drop ?p (?T @ x) = CRLF @ CRLF @ body @ x" by (simp add: T p(1))
  have ee: "?p = h_scanned h + ?p" "?p + 4 = length ?T - length body" using h(1) by (simp_all add: T)
  show ?thesis
    using decode_head_text [OF len _ sc ee(1) _ abs refl] p(2,3) tw(1) h dr ee(2)
    by (simp add: wire_read_def)
qed

lemma message_decoded:
  assumes wf: "l \<noteq> []" "\<forall>c \<in> set l. not_eol c" "e = CRLF \<or> e = [LF, LF]" "hs \<noteq> []" "\<forall>h \<in> set hs. hdr_ok h"
    and cl: "getValueFromMap (put_headers hs []) ''content-length'' = show_nat (length body)" "length body < 2 ^ 31"
    and len: "length (wire l e hs body @ x) < 2 ^ 63"
    and h: "\<not> h_complete h" "h_contentLen h = 0" "h_scanned h = 0" "h_headers h = []"
  shows "msg_tryDecode (wire l e hs body @ x) (full (wire l e hs body @ x)) True h =
    Some (Complete, wire_read l e hs body @ x, slice_range 0 (length l),
      h\<lparr>h_headers := put_headers hs [], h_body := body, h_complete := True, h_contentLen := length body,
        h_scanned := length (wire l e hs body)\<rparr>)"
proof -
  let ?T = "wire l e hs body" and ?p = "length (wire l e hs body) - length body"
  have sp: "?p + length body = length ?T" by (simp add: wire_def)
  have at: "nat (atoi (cstr (getValueFromMap (put_headers hs []) ''content-length'')) mod 2 ^ 64) = length body"
    using atoi_show_nat [of "length body" "[]"] cl by simp
  have "wire_read l e hs body = take ?p (wire_read l e hs body) @ body"
    using length_wire_read [of l e hs body] sp by (simp add: wire_read_def wire_def)
  then have "drop ?p (wire_read l e hs body) = body"
    using length_wire_read [of l e hs body] sp by (metis append_eq_append_conv append_take_drop_id)
  then have seg: "slice_str (wire_read l e hs body @ x) (slice_len ?p (int (length body))) = body"
    using length_wire_read [of l e hs body] sp by (simp add: slice_str_def slice_len_def seg_def nat_add_distrib)
  show ?thesis using h(1,2) wire_head [OF wf len h(3,4), unfolded at] seg sp len cl(2)
    by (simp add: msg_tryDecode_def decode_body_nat add.commute)
qed

section \<open>Properties\<close>

definition word_ok :: "bytes \<Rightarrow> bool" where
  "word_ok w \<longleftrightarrow> (\<forall>c \<in> set w. \<not> isspace c \<and> c \<noteq> NUL)"

lemma cstr_word [simp]: "word_ok w \<Longrightarrow> cstr w = w"
  by (simp add: cstr_def word_ok_def takeWhile_eq_all_conv)

lemma own_headers_ok: "\<forall>h \<in> set (own_headers body). hdr_ok h" "own_headers body \<noteq> []"
proof -
  let ?n = "show_nat (length body)"
  have d: "\<forall>c \<in> set ?n. \<not> isspace c" using show_nat_digits isdigit_not_isspace by blast
  have dw: "dropWhile isspace t = t" if "\<forall>c \<in> set t. \<not> isspace c" for t using that by (cases t) auto
  have tr: "trim s = s" if "\<forall>c \<in> set s. \<not> isspace c" for s
    using dw [of s] dw [of "rev s"] that by (simp add: trim_def)
  have "\<forall>c \<in> set ?n. not_eol c" using d by (auto simp: isspace_def)
  moreover have "trim ''Keep-Alive'' = ''Keep-Alive''" by (rule tr) (simp add: isspace_def)
  ultimately show "\<forall>h \<in> set (own_headers body). hdr_ok h" using tr [OF d]
    by (auto simp: own_headers_def hdr_ok_def isspace_def)
  show "own_headers body \<noteq> []" by (simp add: own_headers_def)
qed

text \<open>What the two headers of the encoder become in a map of lower-case names.\<close>

definition with_own :: "bytes \<Rightarrow> (bytes \<times> bytes) list \<Rightarrow> (bytes \<times> bytes) list" where
  "with_own body m = map_put ''content-length'' (show_nat (length body)) (map_put ''connection'' ''Keep-Alive'' m)"

lemma lower_names: "map tolower ''Connection'' = ''connection''" "map tolower ''Content-Length'' = ''content-length''"
  by code_simp+

lemma put_own:
  assumes "map_ok m" and "lower_keys m"
  shows "put_headers (m @ own_headers body) [] = with_own body m"
    and "getValueFromMap (with_own body m) ''content-length'' = show_nat (length body)"
proof -
  have "put_headers m [] = m" using put_headers_sorted [of "[]" m] assms by simp
  then show "put_headers (m @ own_headers body) [] = with_own body m"
    by (simp add: put_headers_append) (simp only: put_headers_def own_headers_def with_own_def lower_names fold_simps fst_conv snd_conv)
  show "getValueFromMap (with_own body m) ''content-length'' = show_nat (length body)"
    using assms(1) by (simp add: getValueFromMap_def with_own_def)
qed

lemma wire_text:
  assumes "hs \<noteq> []"
  shows "l @ [LF, LF] @ hdr_text hs @ CRLF @ body = wire l [LF, LF] hs body"
    and "l @ CRLF @ hdr_text hs @ CRLF @ body = wire l CRLF hs body"
proof -
  obtain h hs' where h: "hs = h # hs'" using assms by (cases hs) auto
  have "CRLF @ hdr_text hs' @ CRLF @ body = hdr_tail hs' @ CRLF @ CRLF @ body"
    using hdr_text_tail [of hs'] by (metis append_assoc)
  then show "l @ [LF, LF] @ hdr_text hs @ CRLF @ body = wire l [LF, LF] hs body"
    "l @ CRLF @ hdr_text hs @ CRLF @ body = wire l CRLF hs body"
    by (simp_all add: wire_def h)
qed

lemma words_append:
  "\<forall>c \<in> set w. \<not> isspace c \<Longrightarrow> r = [] \<or> isspace (hd r) \<Longrightarrow>
   takeWhile (\<lambda>c. \<not> isspace c) (w @ r) = w \<and> dropWhile (\<lambda>c. \<not> isspace c) (w @ r) = r"
  by (induction w) (cases r; auto)+

text \<open>The next word of a line.\<close>

lemma eatWord_next:
  assumes "slice_ok m s" and "slice_eatWord m s = (w, s')" and "slice_str m s = sp @ v @ r"
    and "\<forall>c \<in> set sp. isspace c" and "\<forall>c \<in> set v. \<not> isspace c" and "r = [] \<or> isspace (hd r)" and "v \<noteq> [] \<or> r = []"
  shows "slice_str m w = v" "slice_str m s' = r" "slice_ok m s'" "slice_ok m w"
proof -
  note W = slice_eatWord_ok [OF assms(1,2)]
  have "dropWhile isspace (v @ r) = v @ r" using assms(5,7) by (cases v) auto
  then have "dropWhile isspace (slice_str m s) = v @ r"
    using assms(3,4) by (simp add: dropWhile_append)
  with W words_append [OF assms(5,6)] show "slice_str m w = v" "slice_str m s' = r" "slice_ok m s'" "slice_ok m w"
    by simp_all
qed

lemma req_line_parts:
  assumes "slice_eatWord m ln = (w1, l1)" and "slice_eatWord m l1 = (w2, l2)" and "slice_eatWord m l2 = (w3, l3)"
  shows "q_method (snd (req_line m ln q)) = slice_str m w1" "q_query_uri (snd (req_line m ln q)) = slice_str m w2"
    "h_version (snd (req_line m ln q)) = slice_str m w3" "h_body (snd (req_line m ln q)) = h_body q"
    "fst (req_line m ln q) \<longleftrightarrow> slice_str m w2 \<noteq> [] \<and> hd (slice_str m w2) = CHR ''/''"
  by (auto simp: req_line_def assms Let_def)

lemma req_line_uri:
  assumes "slice_eatWord m ln = (w1, l1)" and "slice_eatWord m l1 = (w2, l2)" and "slice_eatWord m l2 = (w3, l3)"
  shows "q_uri (snd (req_line m ln q)) =
    (let u = slice_str m w2 in if u = [] \<or> hd u \<noteq> CHR ''/'' then q_uri q else takeWhile (\<lambda>c. c \<noteq> CHR ''?'') u)"
proof -
  let ?u = "slice_str m w2"
  let ?t = "takeWhile (\<lambda>c. c \<noteq> CHR ''?'') ?u"
  have "take (length ?t) ?u = ?t" by (rule takeWhile_eq_take [symmetric])
  moreover have "\<not> length ?t < length ?u \<Longrightarrow> ?u = ?t"
    using takeWhile_eq_take [of "\<lambda>c. c \<noteq> CHR ''?''" ?u] by (metis take_all not_less)
  ultimately show ?thesis unfolding req_line_def assms Let_def split_conv
    by (cases "length ?t < length ?u") simp_all
qed

lemma req_line_no_args:
  assumes "slice_eatWord m ln = (w1, l1)" and "slice_eatWord m l1 = (w2, l2)" and "slice_eatWord m l2 = (w3, l3)"
    and "CHR ''?'' \<notin> set (slice_str m w2)"
  shows "q_args (snd (req_line m ln q)) = q_args q"
proof -
  have "takeWhile (\<lambda>c. c \<noteq> CHR ''?'') (slice_str m w2) = slice_str m w2" using assms(4) by (simp add: takeWhile_neq_all)
  then have "\<not> length (takeWhile (\<lambda>c. c \<noteq> CHR ''?'') (slice_str m w2)) < length (slice_str m w2)" by (metis less_irrefl)
  then show ?thesis by (simp add: req_line_def assms(1-3) Let_def)
qed

definition req_fine :: "http_req \<Rightarrow> bool" where
  "req_fine q \<longleftrightarrow> word_ok (q_method q) \<and> q_method q \<noteq> [] \<and> word_ok (q_query_uri q) \<and> q_query_uri q \<noteq> [] \<and>
     hd (q_query_uri q) = CHR ''/'' \<and> word_ok (h_version q) \<and>
     length (q_method q @ q_query_uri q @ h_version q) < 4092 \<and>
     map_ok (h_headers q) \<and> lower_keys (h_headers q) \<and> (\<forall>h \<in> set (h_headers q). hdr_ok h) \<and> length (getBody q) < 2 ^ 31"

lemma req_encode_wire:
  assumes "req_fine q" and "buf_ok b"
  shows "buf_str (snd (req_encode q b)) = buf_str b @
    wire (q_method q @ '' '' @ q_query_uri q @ '' '' @ h_version q) [LF, LF] (h_headers q @ own_headers (getBody q)) (getBody q)"
proof -
  let ?l = "q_method q @ '' '' @ q_query_uri q @ '' '' @ h_version q"
  have "snprintf_str 4096 (cstr (q_method q) @ '' '' @ cstr (q_query_uri q) @ '' '' @ cstr (h_version q) @ [LF, LF]) = ?l @ [LF, LF]"
  proof -
    have "length (?l @ [LF, LF]) \<le> 4096 - 1" using assms(1) by (simp add: req_fine_def)
    then have "take (4096 - 1) (?l @ [LF, LF]) = ?l @ [LF, LF]" by (rule take_all)
    then show ?thesis using assms(1) by (simp add: req_fine_def snprintf_str_def)
  qed
  moreover have "length (getBody q) < 2 ^ 63" using assms(1) by (simp add: req_fine_def)
  ultimately have "buf_str (snd (req_encode q b)) = buf_str b @
      ?l @ [LF, LF] @ hdr_text (h_headers q @ own_headers (getBody q)) @ CRLF @ getBody q"
    using encode_rest_text [of "buf_append (?l @ [LF, LF]) b" q] assms(2)
    by (simp add: req_encode_def Let_def)
  then show ?thesis using wire_text(1) [of "h_headers q @ own_headers (getBody q)" ?l "getBody q"] own_headers_ok(2) by simp
qed

lemma req_roundtrip:
  assumes "req_fine q" and "w = buf_str (snd (req_encode q buf_new))" and "length (w @ x) < 2 ^ 63"
  shows "\<exists>m q'. req_tryDecode (w @ x) (full (w @ x)) True req_new = Some (Complete, m, q') \<and>
    q_method q' = q_method q \<and> q_query_uri q' = q_query_uri q \<and> h_version q' = h_version q \<and>
    h_headers q' = with_own (getBody q) (h_headers q) \<and> h_body q' = getBody q \<and>
    h_scanned q' = length w \<and> drop (length w) m = x \<and> length m = length (w @ x) \<and>
    q_uri q' = takeWhile (\<lambda>c. c \<noteq> CHR ''?'') (q_query_uri q) \<and>
    (CHR ''?'' \<notin> set (q_query_uri q) \<longrightarrow> q_args q' = [])"
proof -
  let ?l = "q_method q @ '' '' @ q_query_uri q @ '' '' @ h_version q" and ?hs = "h_headers q @ own_headers (getBody q)"
  note fine = assms(1) [unfolded req_fine_def]
  have w: "w = wire ?l [LF, LF] ?hs (getBody q)" using req_encode_wire [OF assms(1) buf_ok_new] assms(2) by simp
  define m where "m = wire_read ?l [LF, LF] ?hs (getBody q) @ x"
  define ln where "ln = slice_range 0 (length ?l)"
  have sp: "\<forall>c \<in> set (q_method q). \<not> isspace c" "\<forall>c \<in> set (q_query_uri q). \<not> isspace c" "\<forall>c \<in> set (h_version q). \<not> isspace c"
    using fine by (auto simp: word_ok_def)
  have "not_eol c" if "\<not> isspace c" for c using that by (auto simp: isspace_def)
  with sp have eol: "\<forall>c \<in> set ?l. not_eol c" unfolding set_append ball_Un by auto
  have hok: "?hs \<noteq> []" "\<forall>h \<in> set ?hs. hdr_ok h" using own_headers_ok fine by auto
  have fin: "map_ok (h_headers q)" "lower_keys (h_headers q)" "length (getBody q) < 2 ^ 31" using fine by simp_all
  have dec: "msg_tryDecode (w @ x) (full (w @ x)) True req_new = Some (Complete, m, ln,
      req_new\<lparr>h_headers := with_own (getBody q) (h_headers q), h_body := getBody q, h_complete := True,
        h_contentLen := length (getBody q), h_scanned := length w\<rparr>)"
    using message_decoded [OF _ eol _ hok, of "[LF, LF]" "getBody q" x req_new] put_own [OF fin(1,2), of "getBody q"]
      fin(3) assms(3) w fine unfolding m_def ln_def by (simp add: req_new_def req_clear_def msg_clear_def)
  have lm: "slice_ok m ln" "slice_str m ln = ?l"
    using assms(3) length_wire_read [of ?l "[LF, LF]" ?hs "getBody q"] w
    by (auto simp: m_def ln_def slice_ok_def slice_range_def slice_str_def seg_def wire_read_def)
  obtain w1 l1 where e1: "slice_eatWord m ln = (w1, l1)" by force
  have s: "isspace (CHR '' '')" by (simp add: isspace_def)
  note A = eatWord_next [OF lm(1) e1, of "[]" "q_method q" "'' '' @ q_query_uri q @ '' '' @ h_version q"]
  obtain w2 l2 where e2: "slice_eatWord m l1 = (w2, l2)" by force
  note B = eatWord_next [OF A(3) e2, of "'' ''" "q_query_uri q" "'' '' @ h_version q"]
  obtain w3 l3 where e3: "slice_eatWord m l2 = (w3, l3)" by force
  note C = eatWord_next [OF B(3) e3, of "'' ''" "h_version q" "[]"]
  have ws: "slice_str m w1 = q_method q" "slice_str m w2 = q_query_uri q" "slice_str m w3 = h_version q"
    using A(1,2) B(1,2) C(1) lm(2) sp s fine by simp_all
  have size: "slice_size ln \<noteq> 0"
    using slice_size_ok [OF lm(1)] lm(2) fine by simp
  have "drop (length w) m = x" using length_wire_read [of ?l "[LF, LF]" ?hs "getBody q"] w by (simp add: m_def)
  moreover have "length m = length (w @ x)" using length_wire_read [of ?l "[LF, LF]" ?hs "getBody q"] w by (simp add: m_def)
  moreover have "q_uri (snd (req_line m ln q0)) = takeWhile (\<lambda>c. c \<noteq> CHR ''?'') (q_query_uri q)" for q0
    unfolding req_line_uri [OF e1 e2 e3] ws using fine by simp
  moreover have "fst (req_line m ln q0)" for q0
    unfolding req_line_parts(5) [OF e1 e2 e3] ws using fine by simp
  moreover have "q_args (snd (req_line m ln q0)) = q_args q0" if "CHR ''?'' \<notin> set (q_query_uri q)" for q0
    using req_line_no_args [OF e1 e2 e3] that ws by simp
  moreover have "q_args req_new = []" by (simp add: req_new_def req_clear_def)
  ultimately show ?thesis
    using size by (simp add: req_tryDecode_def dec split_beta req_line_parts [OF e1 e2 e3] ws req_line_keeps del: append_assoc)
qed

text \<open>
  C14: An encoded request is decoded again. A request with words for method, query string and
  version, headers a decoder could have read and a body below \<open>2^31\<close> bytes, encoded into a buffer
  and followed by any further input, decodes to \<open>Complete\<close> with the same parts, the two headers
  that \<open>encode\<close> adds, and exactly the bytes of the encoding taken.
\<close>

theorem http_request_roundtrip:
  assumes "req_fine q" and "w = buf_str (snd (req_encode q buf_new))" and "length (w @ x) < 2 ^ 63"
  shows "\<exists>m q'. req_tryDecode (w @ x) (full (w @ x)) True req_new = Some (Complete, m, q') \<and>
    q_method q' = q_method q \<and> q_query_uri q' = q_query_uri q \<and> h_version q' = h_version q \<and>
    h_headers q' = with_own (getBody q) (h_headers q) \<and> h_body q' = getBody q \<and>
    h_scanned q' = length w \<and> drop (length w) m = x"
  using req_roundtrip [OF assms] by blast

definition get_hello :: http_req where
  "get_hello = req_new\<lparr>q_query_uri := ''/hello?x=1'', h_headers := [(''host'', ''a b'')], h_body := ''data''\<rparr>"

lemma get_hello_simps:
  "q_method get_hello = ''GET''" "q_query_uri get_hello = ''/hello?x=1''" "h_version get_hello = ''HTTP/1.1''"
  "getBody get_hello = ''data''" "h_headers get_hello = [(''host'', ''a b'')]"
  by code_simp+

lemma get_hello_fine: "req_fine get_hello"
proof -
  have "word_ok (q_method get_hello) \<and> q_method get_hello \<noteq> [] \<and> word_ok (q_query_uri get_hello) \<and>
      q_query_uri get_hello \<noteq> [] \<and> hd (q_query_uri get_hello) = CHR ''/'' \<and> word_ok (h_version get_hello) \<and>
      map_ok (h_headers get_hello) \<and> lower_keys (h_headers get_hello) \<and> (\<forall>h \<in> set (h_headers get_hello). hdr_ok h)"
    by code_simp
  moreover have "length (q_method get_hello @ q_query_uri get_hello @ h_version get_hello) < 4092"
    by (simp add: get_hello_simps)
  ultimately show ?thesis by (simp add: req_fine_def get_hello_simps)
qed

lemma get_hello_short: "length (buf_str (snd (req_encode get_hello buf_new))) < 200"
  using req_encode_wire [OF get_hello_fine buf_ok_new] length_show_nat [of "length ''data''" 2]
  by (simp add: wire_def own_headers_def get_hello_simps hdr_line_def)

theorem http_request_roundtrip_witness:
  "\<exists>m q'. req_tryDecode (buf_str (snd (req_encode get_hello buf_new)) @ ''more'')
      (full (buf_str (snd (req_encode get_hello buf_new)) @ ''more'')) True req_new = Some (Complete, m, q') \<and>
    q_method q' = ''GET'' \<and> h_body q' = ''data'' \<and> getHeader q' ''host'' = ''a b''"
proof -
  have "length (buf_str (snd (req_encode get_hello buf_new)) @ ''more'') < 2 ^ 63" using get_hello_short by simp
  from http_request_roundtrip [OF get_hello_fine refl this] show ?thesis
    by (auto simp: get_hello_simps getHeader_def getValueFromMap_def with_own_def)
qed

section \<open>Responses\<close>

definition resp_fine :: "http_resp \<Rightarrow> bool" where
  "resp_fine p \<longleftrightarrow> word_ok (h_version p) \<and> h_version p \<noteq> [] \<and> 0 \<le> p_status p \<and> p_status p < 2 ^ 31 \<and>
     trim (p_statusWord p) = p_statusWord p \<and> (\<forall>c \<in> set (p_statusWord p). c \<noteq> LF \<and> c \<noteq> CR \<and> c \<noteq> NUL) \<and>
     length (h_version p @ p_statusWord p) < 1000 \<and>
     map_ok (h_headers p) \<and> lower_keys (h_headers p) \<and> (\<forall>h \<in> set (h_headers p). hdr_ok h) \<and> length (getBody p) < 2 ^ 31"

definition status_line :: "http_resp \<Rightarrow> bytes" where
  "status_line p = h_version p @ '' '' @ show_nat (nat (p_status p)) @ '' '' @ p_statusWord p"

lemma resp_encode_wire:
  assumes "resp_fine p" and "buf_ok b"
  shows "buf_str (snd (resp_encode p b)) = buf_str b @
    wire (status_line p) CRLF (h_headers p @ own_headers (getBody p)) (getBody p)"
proof -
  have cs: "cstr (p_statusWord p) = p_statusWord p"
    using assms(1) by (auto simp: resp_fine_def cstr_def takeWhile_eq_all_conv)
  have sn: "length (show_nat (nat (p_status p))) \<le> 10"
  proof -
    have "nat (p_status p) < 10 ^ 10" using assms(1) by (simp add: resp_fine_def nat_less_iff)
    from length_show_nat [OF this] show ?thesis by simp
  qed
  have "length (status_line p @ CRLF) \<le> 1024 - 1"
    using assms(1) sn by (simp add: resp_fine_def status_line_def)
  then have "take (1024 - 1) (status_line p @ CRLF) = status_line p @ CRLF" by (rule take_all)
  then have "snprintf_str 1024 (cstr (h_version p) @ '' '' @ show_int (p_status p) @ '' '' @ cstr (p_statusWord p) @ CRLF) = status_line p @ CRLF"
    using assms(1) cs by (simp add: resp_fine_def snprintf_str_def status_line_def show_int_def)
  then have "buf_str (snd (resp_encode p b)) = buf_str b @
      status_line p @ CRLF @ hdr_text (h_headers p @ own_headers (getBody p)) @ CRLF @ getBody p"
    using encode_rest_text [of "buf_append (status_line p @ CRLF) b" p] assms
    by (simp add: resp_encode_def Let_def resp_fine_def)
  then show ?thesis using wire_text(2) [of "h_headers p @ own_headers (getBody p)" "status_line p" "getBody p"] own_headers_ok(2) by simp
qed

text \<open>The status line, cut into its words.\<close>

lemma resp_line_parts:
  assumes "resp_fine p" and "slice_ok m ln" and "slice_str m ln = status_line p"
    and e1: "slice_eatWord m ln = (w1, l1)" and e2: "slice_eatWord m l1 = (w2, l2)"
  shows "slice_str m w1 = h_version p" and "atoi (drop (s_pb w2) m) = p_status p"
    and "slice_str m (slice_trimSpace m l2) = p_statusWord p"
proof -
  let ?n = "show_nat (nat (p_status p))"
  note fine = assms(1) [unfolded resp_fine_def]
  have sp: "\<forall>c \<in> set (h_version p). \<not> isspace c" "\<forall>c \<in> set ?n. \<not> isspace c"
    using fine show_nat_digits isdigit_not_isspace by (auto simp: word_ok_def)
  have s: "isspace (CHR '' '')" by (simp add: isspace_def)
  note A = eatWord_next [OF assms(2) e1, of "[]" "h_version p" "'' '' @ ?n @ '' '' @ p_statusWord p"]
  note B = eatWord_next [OF A(3) e2, of "'' ''" ?n "'' '' @ p_statusWord p"]
  have ws: "slice_str m w1 = h_version p" "slice_str m w2 = ?n" "slice_str m l2 = '' '' @ p_statusWord p" "slice_ok m l2"
      "slice_ok m w2"
    using A(1,2) B assms(3) sp s fine by (simp_all add: status_line_def)
  show "slice_str m w1 = h_version p" by (rule ws(1))
  show "slice_str m (slice_trimSpace m l2) = p_statusWord p"
    using slice_trimSpace_ok(2) [OF ws(4)] ws(3) trim_space [OF s] fine by simp
  have pe: "s_pb l2 = s_pe w2" "s_pe l2 = s_pe l1" using e2 by (auto simp: slice_eatWord_def slice_range_def Let_def)
  have "drop (s_pe w2) m \<noteq> [] \<and> hd (drop (s_pe w2) m) = CHR '' ''"
    using ws(3) pe(1) by (auto simp: slice_str_def seg_def take_Cons' split: if_splits) (cases "drop (s_pe w2) m"; simp add: take_Cons' split: if_splits)+
  moreover have "drop (s_pb w2) m = ?n @ drop (s_pe w2) m"
    using ws(2) slice_okD(1) [OF ws(5)] by (simp add: slice_str_def seg_def) (metis append_take_drop_id drop_drop le_add_diff_inverse2)
  moreover have "nat (p_status p) < 2 ^ 31" using fine by (simp add: nat_less_iff)
  ultimately show "atoi (drop (s_pb w2) m) = p_status p"
    using atoi_show_nat [of "nat (p_status p)" "drop (s_pe w2) m"] fine by (simp add: isdigit_def)
qed


definition not_found :: http_resp where
  "not_found = setNotFound (resp_new\<lparr>h_headers := [(''server'', ''handy'')]\<rparr>)"


section \<open>Negative lengths\<close>

lemma atoi_negative:
  assumes "n \<le> 2 ^ 31"
  shows "atoi (CHR ''-'' # show_nat n) = - int n"
proof -
  have "\<not> isspace (CHR ''-'')" by (simp add: isspace_def)
  then have "strtol10 (CHR ''-'' # show_nat n) = - int n"
    using assms by (simp add: strtol10_def Let_def)
  moreover have "sint (word_of_int (- int n) :: 32 word) = - int n"
    using assms by (simp only: signed_of_int) (simp add: signed_take_bit_int_eq_self)
  ultimately show ?thesis by (simp only: atoi_def)
qed

text \<open>
  A negative \<open>Content-Length\<close> ends the server. The number becomes a huge \<open>size_t\<close>; when its
  absolute value is at most the length of the header, the sum with the position in the input wraps
  around, the body counts as complete and \<open>std::string::assign\<close> throws \<open>length_error\<close>, which
  nothing catches.
\<close>

theorem http_negative_length:
  assumes "l \<noteq> []" and "\<forall>c \<in> set l. not_eol c" and "e = CRLF \<or> e = [LF, LF]" and "hs \<noteq> []" and "\<forall>h \<in> set hs. hdr_ok h"
    and "getValueFromMap (put_headers hs []) ''content-length'' = CHR ''-'' # show_nat n"
    and "0 < n" and "n \<le> length (wire l e hs [])" and "n \<le> 2 ^ 31" and "length (wire l e hs [] @ x) < 2 ^ 63"
  shows "req_tryDecode (wire l e hs [] @ x) (full (wire l e hs [] @ x)) True req_new = None"
proof -
  let ?T = "wire l e hs [] @ x" and ?q = "length (wire l e hs [])"
  have new: "h_scanned req_new = 0" "h_headers req_new = []" "h_contentLen req_new = 0" "\<not> h_complete req_new"
    by (simp_all add: req_new_def req_clear_def msg_clear_def)
  have "cstr (CHR ''-'' # show_nat n) = CHR ''-'' # cstr (show_nat n)" by (simp add: cstr_def)
  then have cs: "cstr (CHR ''-'' # show_nat n) = CHR ''-'' # show_nat n" by simp
  have "(- int n) mod 2 ^ 64 = 2 ^ 64 - int n"
    using assms(7,9) by (simp add: zmod_zminus1_eq_if)
  then have at: "nat (atoi (cstr (getValueFromMap (put_headers hs []) ''content-length'')) mod 2 ^ 64) = 2 ^ 64 - n"
    using atoi_negative [OF assms(9)] cs assms(6,9) by (simp add: nat_diff_distrib)
  have "(2 ^ 64 - n + ?q) mod 2 ^ 64 = ?q - n"
  proof -
    have "2 ^ 64 - n + ?q = (?q - n) + 2 ^ 64" using assms(8,9) by simp
    moreover have "?q - n < 2 ^ 64" using assms(10) by simp
    ultimately show ?thesis by (simp only: mod_add_self2 mod_less)
  qed
  then have "decode_body m (full ?T) True (h\<lparr>h_headers := put_headers hs [], h_scanned := ?q, h_contentLen := 2 ^ 64 - n\<rparr>) = None"
    if "\<not> h_complete h" for m and h :: http_req
    using that assms(9,10) by (simp add: decode_body_nat) linarith
  with wire_head [OF assms(1-5) assms(10) new(1,2)] at new show ?thesis
    by (simp add: req_tryDecode_head [OF new(3,4)])
qed

theorem http_negative_length_witness:
  "req_tryDecode (wire ''POST / HTTP/1.1'' CRLF [(''Content-Length'', ''-5'')] [] @ [])
     (full (wire ''POST / HTTP/1.1'' CRLF [(''Content-Length'', ''-5'')] [] @ [])) True req_new = None"
proof (rule http_negative_length [where n = 5])
  show "\<forall>h \<in> set [(''Content-Length'', ''-5'')]. hdr_ok h" by code_simp
  show "getValueFromMap (put_headers [(''Content-Length'', ''-5'')] []) ''content-length'' = CHR ''-'' # show_nat 5" by code_simp
qed (simp_all add: wire_def hdr_line_def)

end
