(* ===== verification/Handy_Http_Conn.thy ===== *)
theory Handy_Http_Conn
  imports Handy_Http_Wire Handy_Conn_Send
begin

text \<open>
  HTTP on a connection: \<open>HttpConnPtr\<close> and \<open>HttpServer\<close> of \<open>handy/http.h\<close> and \<open>handy/http.cc\<close>. The
  request and the response of \<open>internalCtx_\<close> are kept beside the connection; a callback works on
  both. A response that names a local string as its body keeps the bytes the string had.
\<close>

record http_ctx =
  x_req :: http_req
  x_resp :: http_resp

definition ctx_new :: http_ctx where
  "ctx_new = \<lparr>x_req = req_new, x_resp = resp_new\<rparr>"

type_synonym http_cb = "lib \<Rightarrow> conn \<times> http_ctx \<Rightarrow> (conn \<times> http_ctx) option"

section \<open>HttpConnPtr\<close>

text \<open>\<open>consume\<close> takes a \<open>size_t\<close>, \<open>getByte\<close> gives an \<open>int\<close>.\<close>

definition clearData :: "conn \<times> http_ctx \<Rightarrow> conn \<times> http_ctx" where
  "clearData cx =
     (let (c, x) = cx in
      if isClient c
      then (c\<lparr>c_input := buf_consume (nat (getByte (x_resp x) mod 2 ^ 64)) (c_input c)\<rparr>, x\<lparr>x_resp := resp_clear (x_resp x)\<rparr>)
      else (c\<lparr>c_input := buf_consume (nat (getByte (x_req x) mod 2 ^ 64)) (c_input c)\<rparr>, x\<lparr>x_req := req_clear (x_req x)\<rparr>))"

definition with_conn :: "(conn \<Rightarrow> conn option) \<Rightarrow> conn \<times> http_ctx \<Rightarrow> (conn \<times> http_ctx) option" where
  "with_conn f cx = map_option (\<lambda>c. (c, snd cx)) (f (fst cx))"

definition sendRequest :: "lib \<Rightarrow> http_req \<Rightarrow> conn \<times> http_ctx \<Rightarrow> (conn \<times> http_ctx) option" where
  "sendRequest l q cx =
     (let (c, x) = cx in with_conn (sendOutput l) (clearData (c\<lparr>c_output := snd (req_encode q (c_output c))\<rparr>, x)))"

definition sendResponse :: "lib \<Rightarrow> http_resp \<Rightarrow> conn \<times> http_ctx \<Rightarrow> (conn \<times> http_ctx) option" where
  "sendResponse l p cx =
     (let (c, x) = cx in with_conn (sendOutput l) (clearData (c\<lparr>c_output := snd (resp_encode p (c_output c))\<rparr>, x)))"

text \<open>\<open>sendResponse()\<close> and \<open>sendRequest()\<close> use the message of the context.\<close>

definition sendResponse0 :: http_cb where
  "sendResponse0 l cx = sendResponse l (x_resp (snd cx)) cx"

definition sendRequest0 :: http_cb where
  "sendRequest0 l cx = sendRequest l (x_req (snd cx)) cx"

text \<open>
  \<open>sendFile\<close>: the code, the message and the contents are what \<open>file::getContent\<close> gives. \<open>ENOENT\<close> is 2.
\<close>

definition sendFile :: "int \<times> bytes \<times> bytes \<Rightarrow> http_cb" where
  "sendFile file l cx =
     (let (code, msg, cont) = file; (c, x) = cx; p = x_resp x;
          p = (if code = 2 then setNotFound p
               else if code \<noteq> 0 then setStatus 500 msg p
               else p\<lparr>h_body2 := (cont, slice_range 0 (length cont))\<rparr>)
      in sendResponse0 l (c, x\<lparr>x_resp := p\<rparr>))"

text \<open>The input as the decoder leaves it, with the names of the headers in lower case.\<close>

definition put_input :: "bytes \<Rightarrow> conn \<Rightarrow> conn" where
  "put_input m c = c\<lparr>c_input := buf_store (bf_b (c_input c)) m (c_input c)\<rparr>"

definition http_handleRead :: "http_cb \<Rightarrow> http_cb" where
  "http_handleRead cb l cx =
     (let (c, x) = cx; m = buf_str (c_input c) in
      if \<not> isClient c
      then do {
        (r, m, q) \<leftarrow> req_tryDecode m (full m) True (x_req x);
        let c = put_input m c;
        let x = x\<lparr>x_req := q\<rparr>;
        (case r of
           Error \<Rightarrow> Some (tcp_close c, x)
         | Continue100 \<Rightarrow> with_conn (send_bytes l (''HTTP/1.1 100 Continue'' @ [LF, CR, LF])) (c, x)
         | Complete \<Rightarrow> cb l (c, x)
         | NotComplete \<Rightarrow> Some (c, x))
      }
      else do {
        (r, m, p) \<leftarrow> resp_tryDecode m (full m) True (x_resp x);
        let c = put_input m c;
        let x = x\<lparr>x_resp := p\<rparr>;
        (case r of
           Error \<Rightarrow> Some (tcp_close c, x)
         | Complete \<Rightarrow> cb l (c, x)
         | _ \<Rightarrow> Some (c, x))
      })"

section \<open>HttpServer\<close>

record http_server =
  sv_cbs :: "(bytes \<times> (bytes \<times> http_cb) list) list"
  sv_def :: http_cb

text \<open>The default callback of the constructor.\<close>

definition answer_not_found :: http_cb where
  "answer_not_found l cx =
     (let (c, x) = cx
      in sendResponse0 l (c, x\<lparr>x_resp := (x_resp x)\<lparr>p_status := 404, p_statusWord := ''Not Found'', h_body := ''Not Found''\<rparr>\<rparr>))"

definition server_new :: http_server where
  "server_new = \<lparr>sv_cbs = [], sv_def = answer_not_found\<rparr>"

definition onRequest :: "bytes \<Rightarrow> bytes \<Rightarrow> http_cb \<Rightarrow> http_server \<Rightarrow> http_server" where
  "onRequest meth uri cb s =
     s\<lparr>sv_cbs := map_put meth (map_put uri cb (case map_of (sv_cbs s) meth of None \<Rightarrow> [] | Some t \<Rightarrow> t)) (sv_cbs s)\<rparr>"

definition onGet :: "bytes \<Rightarrow> http_cb \<Rightarrow> http_server \<Rightarrow> http_server" where
  "onGet = onRequest ''GET''"

definition onDefault :: "http_cb \<Rightarrow> http_server \<Rightarrow> http_server" where
  "onDefault cb s = s\<lparr>sv_def := cb\<rparr>"

text \<open>The message callback that the constructor installs on every new connection.\<close>

definition http_dispatch :: "http_server \<Rightarrow> http_cb" where
  "http_dispatch s l cx =
     (let q = x_req (snd cx) in
      case map_of (sv_cbs s) (q_method q) of
        None \<Rightarrow> sv_def s l cx
      | Some t \<Rightarrow> (case map_of t (q_uri q) of None \<Rightarrow> sv_def s l cx | Some cb \<Rightarrow> cb l cx))"

section \<open>Routing\<close>

definition handler_of :: "http_server \<Rightarrow> bytes \<Rightarrow> bytes \<Rightarrow> http_cb option" where
  "handler_of s meth uri = (case map_of (sv_cbs s) meth of None \<Rightarrow> None | Some t \<Rightarrow> map_of t uri)"

definition server_ok :: "http_server \<Rightarrow> bool" where
  "server_ok s \<longleftrightarrow> map_ok (sv_cbs s) \<and> (\<forall>p \<in> set (sv_cbs s). map_ok (snd p))"

lemma server_ok_new [simp]: "server_ok server_new"
  by (simp add: server_ok_def server_new_def)

lemma table_ok: "server_ok s \<Longrightarrow> map_ok (case map_of (sv_cbs s) meth of None \<Rightarrow> [] | Some t \<Rightarrow> t)"
  by (fastforce simp: server_ok_def split: option.splits dest: map_of_SomeD)

lemma server_ok_onRequest [simp, inv_intros]: "server_ok s \<Longrightarrow> server_ok (onRequest meth uri cb s)"
  using table_ok [of s meth] set_map_put [of meth _ "sv_cbs s"]
  by (fastforce simp: server_ok_def onRequest_def)

lemma handler_of_onRequest:
  "server_ok s \<Longrightarrow> handler_of (onRequest meth uri cb s) m u =
    (if m = meth \<and> u = uri then Some cb else handler_of s m u)"
  using table_ok [of s meth] by (auto simp: handler_of_def onRequest_def server_ok_def split: option.splits)

lemma http_dispatch_handler:
  "http_dispatch s l (c, x) =
    (case handler_of s (q_method (x_req x)) (q_uri (x_req x)) of None \<Rightarrow> sv_def s l (c, x) | Some cb \<Rightarrow> cb l (c, x))"
  by (auto simp: http_dispatch_def handler_of_def split: option.splits)

section \<open>Answering requests\<close>

lemma buf_store_live:
  assumes "buf_ok q" and "length m = buf_size q"
  shows "buf_ok (buf_store (bf_b q) m q)" and "buf_str (buf_store (bf_b q) m q) = m"
proof -
  note ok = buf_okD [OF assms(1)]
  let ?r = "buf_store (bf_b q) m q"
  have pos: "bf_b ?r = bf_b q" "bf_e ?r = bf_e q" "bf_cap ?r = bf_cap q" by (simp_all add: buf_store_def)
  have live: "bf_live ?r = map Some m"
  proof (cases "m = []")
    case True
    then show ?thesis using assms(2) by (simp add: bf_live_def buf_store_def)
  next
    case False
    then have "bf_cells ?r = take (bf_b q) (bf_cells q) @ map Some m @ drop (bf_b q + length m) (bf_cells q)"
      by (simp add: buf_store_def bf_cells_def)
    then show ?thesis using ok assms(2) by (simp add: bf_live_def buf_size_def pos min_absorb2)
  qed
  have "length (bf_cells ?r) = bf_cap q"
    using ok assms(2) by (auto simp: buf_store_def bf_cells_def buf_size_def)
  then show "buf_ok ?r" using ok by (simp add: buf_ok_def pos live)
  show "buf_str ?r = m" by (simp add: buf_str_def live)
qed

text \<open>Encoding appends the same bytes to any buffer.\<close>

definition resp_bytes :: "http_resp \<Rightarrow> bytes" where
  "resp_bytes p = buf_str (snd (resp_encode p buf_new))"

lemma encode_rest_append:
  "buf_ok b \<Longrightarrow> buf_ok (encode_rest h b) \<and> buf_str (encode_rest h b) = buf_str b @ buf_str (encode_rest h buf_new)"
  using encode_headers_text [of b "h_headers h"] encode_headers_text [of buf_new "h_headers h"]
  by (simp add: encode_rest_def Let_def)

lemma resp_encode_append:
  assumes "buf_ok b"
  shows "buf_ok (snd (resp_encode p b))" and "buf_str (snd (resp_encode p b)) = buf_str b @ resp_bytes p"
proof -
  let ?l = "snprintf_str 1024 (cstr (h_version p) @ '' '' @ show_int (p_status p) @ '' '' @ cstr (p_statusWord p) @ CRLF)"
  have "buf_ok (encode_rest p (buf_append ?l b))"
    "buf_str (encode_rest p (buf_append ?l b)) = buf_str b @ ?l @ buf_str (encode_rest p buf_new)"
    "buf_str (encode_rest p (buf_append ?l buf_new)) = ?l @ buf_str (encode_rest p buf_new)"
    using encode_rest_append [of "buf_append ?l b" p] encode_rest_append [of "buf_append ?l buf_new" p] assms by simp_all
  then show "buf_ok (snd (resp_encode p b))" and "buf_str (snd (resp_encode p b)) = buf_str b @ resp_bytes p"
    by (simp_all add: resp_encode_def resp_bytes_def Let_def)
qed

text \<open>What a server-side \<open>sendResponse\<close> does to a connection that can send.\<close>

lemma sendResponse_sent:
  assumes "chan_open c" and "WReset \<notin> set (c_writes c)" and "buf_ok (c_output c)" and "buf_ok (c_input c)"
    and "\<not> isClient c" and "getByte (x_req x) = int n" and "n \<le> length (buf_str (c_input c))" and "n < 2 ^ 31"
  shows "\<exists>c'. sendResponse l p (c, x) = Some (c', x\<lparr>x_req := req_clear (x_req x)\<rparr>) \<and>
    out_stream c' = out_stream c @ resp_bytes p \<and> buf_str (c_input c') = drop n (buf_str (c_input c)) \<and>
    buf_ok (c_input c') \<and> buf_ok (c_output c') \<and> chan_open c' \<and> flow_ok c'"
proof -
  let ?c = "c\<lparr>c_output := snd (resp_encode p (c_output c)), c_input := buf_consume n (c_input c)\<rparr>"
  have cl: "clearData (c\<lparr>c_output := snd (resp_encode p (c_output c))\<rparr>, x) = (?c, x\<lparr>x_req := req_clear (x_req x)\<rparr>)"
    using assms(5,6,8) by (simp add: clearData_def isClient_def)
  have pre: "chan_open ?c" "WReset \<notin> set (c_writes ?c)" "buf_ok (c_output ?c)"
    using assms(1,2) resp_encode_append(1) [OF assms(3)] by (simp_all add: chan_open_def)
  obtain c' where c': "sendOutput l ?c = Some c'" "out_stream c' = out_stream ?c" "buf_ok (c_output c')" "flow_ok c'"
      "io_only ?c (c'\<lparr>c_output := c_output ?c\<rparr>)"
    using sendOutput_sent [OF pre, of l] by metis
  have "c_input c' = buf_consume n (c_input c)" using io_onlyD(2) [OF c'(5)] by simp
  moreover have "chan_open c'" using chan_open_io [OF c'(5)] pre(1) by (simp add: chan_open_def)
  ultimately show ?thesis
    using c'(1-4) cl resp_encode_append(2) [OF assms(3), of p] buf_consume_ok [OF assms(4,7)]
    by (simp add: sendResponse_def with_conn_def out_stream_def)
qed

text \<open>A whole request in the input reaches the callback, with the input as the decoder leaves it.\<close>

lemma request_dispatched_full:
  assumes "chan_open c" and "WReset \<notin> set (c_writes c)" and "buf_ok (c_output c)" and "buf_ok (c_input c)"
    and "\<not> isClient c" and "x_req x = req_new" and "req_fine q"
    and "buf_str (c_input c) = buf_str (snd (req_encode q buf_new)) @ rest" and "length (buf_str (c_input c)) < 2 ^ 31"
  obtains c1 q' n where
    "http_handleRead cb l (c, x) = cb l (c1, x\<lparr>x_req := q'\<rparr>)"
    "q_method q' = q_method q" "q_query_uri q' = q_query_uri q" "h_headers q' = with_own (getBody q) (h_headers q)"
    "h_body q' = getBody q" "q_uri q' = takeWhile (\<lambda>c. c \<noteq> CHR ''?'') (q_query_uri q)"
    "CHR ''?'' \<notin> set (q_query_uri q) \<longrightarrow> q_args q' = []"
    "chan_open c1" "WReset \<notin> set (c_writes c1)" "buf_ok (c_output c1)" "buf_ok (c_input c1)" "\<not> isClient c1"
    "out_stream c1 = out_stream c" "getByte q' = int n" "n \<le> length (buf_str (c_input c1))" "n < 2 ^ 31"
    "drop n (buf_str (c_input c1)) = rest" "h_version q' = h_version q"
proof -
  let ?w = "buf_str (snd (req_encode q buf_new))"
  have len: "length (?w @ rest) < 2 ^ 63" using assms(8,9) by simp
  obtain m q' where d: "req_tryDecode (?w @ rest) (full (?w @ rest)) True req_new = Some (Complete, m, q')"
      "q_method q' = q_method q" "q_query_uri q' = q_query_uri q" "h_headers q' = with_own (getBody q) (h_headers q)"
      "h_body q' = getBody q" "h_scanned q' = length ?w" "drop (length ?w) m = rest" "length m = length (?w @ rest)"
      "q_uri q' = takeWhile (\<lambda>c. c \<noteq> CHR ''?'') (q_query_uri q)" "CHR ''?'' \<notin> set (q_query_uri q) \<longrightarrow> q_args q' = []"
      "h_version q' = h_version q"
    using req_roundtrip [OF assms(7) refl len] by blast
  let ?c = "put_input m c"
  have st: "buf_ok (c_input ?c)" "buf_str (c_input ?c) = m"
    using buf_store_live [OF assms(4), of m] d(8) assms(8) buf_size_str [OF assms(4)] by (simp_all add: put_input_def)
  have pre: "chan_open ?c" "WReset \<notin> set (c_writes ?c)" "buf_ok (c_output ?c)" "\<not> isClient ?c" "out_stream ?c = out_stream c"
    using assms(1-3,5) by (simp_all add: put_input_def chan_open_def isClient_def out_stream_def)
  have n: "getByte q' = int (length ?w)" "length ?w \<le> length (buf_str (c_input ?c))" "length ?w < 2 ^ 31"
    using d(6,8) st(2) assms(8,9) by (simp_all add: getByte_def)
  have run: "http_handleRead cb l (c, x) = cb l (?c, x\<lparr>x_req := q'\<rparr>)"
    using assms(5,6,8) d(1) by (simp add: http_handleRead_def)
  have rest: "drop (length ?w) (buf_str (c_input ?c)) = rest" using st(2) d(7) by simp
  from that [OF run d(2-5,9,10) pre(1-3) st(1) pre(4,5) n rest d(11)] show thesis .
qed

lemma request_dispatched:
  assumes "chan_open c" and "WReset \<notin> set (c_writes c)" and "buf_ok (c_output c)" and "buf_ok (c_input c)"
    and "\<not> isClient c" and "x_req x = req_new" and "req_fine q"
    and "buf_str (c_input c) = buf_str (snd (req_encode q buf_new)) @ rest" and "length (buf_str (c_input c)) < 2 ^ 31"
  obtains c1 q' n where
    "http_handleRead cb l (c, x) = cb l (c1, x\<lparr>x_req := q'\<rparr>)"
    "q_method q' = q_method q" "q_query_uri q' = q_query_uri q" "h_headers q' = with_own (getBody q) (h_headers q)"
    "h_body q' = getBody q" "q_uri q' = takeWhile (\<lambda>c. c \<noteq> CHR ''?'') (q_query_uri q)"
    "CHR ''?'' \<notin> set (q_query_uri q) \<longrightarrow> q_args q' = []"
    "chan_open c1" "WReset \<notin> set (c_writes c1)" "buf_ok (c_output c1)" "buf_ok (c_input c1)" "\<not> isClient c1"
    "out_stream c1 = out_stream c" "getByte q' = int n" "n \<le> length (buf_str (c_input c1))" "n < 2 ^ 31"
    "drop n (buf_str (c_input c1)) = rest"
  by (rule request_dispatched_full [OF assms, of cb l]) (rule that)


text \<open>A server whose one handler sends the body of the request back.\<close>

definition hello_server :: http_server where
  "hello_server = onGet ''/hello'' (\<lambda>l cx. sendResponse l (resp_new\<lparr>h_body := h_body (x_req (snd cx))\<rparr>) cx) server_new"

definition hello_conn :: conn where
  "hello_conn = (conn_up LineCodec [WTake 20])\<lparr>c_input := buf_append (buf_str (snd (req_encode get_hello buf_new))) buf_new\<rparr>"


text \<open>
  A response that a server sends after \<open>sendFile\<close> on the same connection has the file as its
  body again, whatever its handler sets as the body: \<open>sendFile\<close> lets \<open>body2\<close> point to its local
  string, and \<open>clearData\<close> of a server connection clears the request only. In the program the
  string is gone by then.
\<close>

theorem http_file_body_stays:
  assumes "\<not> isClient c" and "cont \<noteq> []" and "length cont < 2 ^ 63"
    and "sendFile (0, msg, cont) l (c, x) = Some (c', x')"
  shows "getBody ((x_resp x')\<lparr>p_status := st, p_statusWord := sw, h_body := body\<rparr>) = cont"
proof -
  have "x_resp x' = (x_resp x)\<lparr>h_body2 := (cont, slice_range 0 (length cont))\<rparr>"
    using assms(1,4)
    by (auto simp: sendFile_def sendResponse0_def sendResponse_def with_conn_def clearData_def isClient_def Let_def)
  moreover have "slice_ok cont (slice_range 0 (length cont))" "slice_str cont (slice_range 0 (length cont)) = cont"
    using assms(3) by (simp_all add: slice_ok_def slice_range_def slice_str_def)
  ultimately show ?thesis using assms(2) by (simp add: getBody_def slice_size_ok)
qed

theorem http_file_body_stays_witness:
  "\<exists>c' x'. sendFile (0, [], ''file'') (lib_at 1 quiet_cbs) (hello_conn, ctx_new) = Some (c', x') \<and>
     getBody ((x_resp x')\<lparr>p_status := 200, p_statusWord := ''OK'', h_body := ''text''\<rparr>) = ''file''"
proof -
  have c: "chan_open hello_conn" "WReset \<notin> set (c_writes hello_conn)" "buf_ok (c_output hello_conn)" "buf_ok (c_input hello_conn)"
      "\<not> isClient hello_conn"
    by (simp_all add: hello_conn_def chan_open_def conn_up_def tcp_new_def isClient_def)
  let ?x = "ctx_new\<lparr>x_resp := (x_resp ctx_new)\<lparr>h_body2 := (''file'', slice_range 0 (length ''file''))\<rparr>\<rparr>"
  have "getByte (x_req ?x) = int 0" by (simp add: ctx_new_def req_new_def req_clear_def msg_clear_def getByte_def)
  from sendResponse_sent [OF c this, of "lib_at 1 quiet_cbs" "x_resp ?x"]
  obtain c' x' where s: "sendFile (0, [], ''file'') (lib_at 1 quiet_cbs) (hello_conn, ctx_new) = Some (c', x')"
    by (auto simp: sendFile_def sendResponse0_def)
  have "''file'' \<noteq> []" "length ''file'' < 2 ^ 63" by simp_all
  from http_file_body_stays [OF c(5) this s] s show ?thesis by blast
qed

end
