(* ===== verification/Handy_File.thy ===== *)
theory Handy_File
  imports Handy_Sys Handy_Http_Conn
begin

text \<open>
  The file helpers (\<open>handy/file.cc\<close>) over scripted system calls, and the file that \<open>HttpConnPtr\<close>
  sends (\<open>sendFile\<close> of \<open>handy/http.cc\<close>). A path is passed as \<open>c_str()\<close>, so it ends at its first zero
  byte.
\<close>

datatype file_call =
    OpenRead bytes | OpenWrite bytes | ReadFd int nat | WriteFd int bytes | CloseFd int
  | Unlink bytes | Rename bytes bytes | MkDir bytes int | RmDir bytes | StatPath bytes
  | OpenDir bytes | ReadDir int | CloseDir int | AccessPath bytes

type_synonym fworld = "file_call world"
type_synonym errtext = "int \<Rightarrow> bytes"

text \<open>\<open>Status::ioError\<close> with the \<open>errno\<close> of a failed call.\<close>

definition io_error :: "errtext \<Rightarrow> bytes \<Rightarrow> bytes \<Rightarrow> sysres \<Rightarrow> status" where
  "io_error strerror oper name r = status_ioError strerror (res_errno r) oper name"

section \<open>Reading and writing whole files\<close>

text \<open>The \<open>for (;;)\<close> of \<open>getContent\<close>.\<close>

function read_content :: "errtext \<Rightarrow> bytes \<Rightarrow> int \<Rightarrow> bytes \<Rightarrow> fworld \<Rightarrow> status \<times> bytes \<times> fworld" where
  "read_content strerror name fd cont w =
     (let (r, w') = sys (ReadFd fd 4096) w in
      if res_int r < 0 then (io_error strerror ''read'' name r, cont, w')
      else if res_bytes 4096 r = [] then (status_ok0, cont, w')
      else read_content strerror name fd (cont @ res_bytes 4096 r) w')"
  by pat_completeness auto

termination
proof (relation "measure (\<lambda>(strerror, name, fd, cont, w). length (w_script w))")
  fix strerror name fd cont and w :: fworld and x r w'
  assume x: "x = sys (ReadFd fd 4096) w" "(r, w') = x" and r: "res_bytes 4096 r \<noteq> []"
  have "w_script w \<noteq> []" using x r by (auto simp: sys_def res_bytes_def)
  with x show "((strerror, name, fd, cont @ res_bytes 4096 r, w'), (strerror, name, fd, cont, w))
      \<in> measure (\<lambda>(strerror, name, fd, cont, w). length (w_script w))"
    using sys_measure [of "ReadFd fd 4096" w r w'] by simp
qed simp

declare read_content.simps [simp del]

text \<open>\<open>ExitCaller\<close> closes the descriptor when the function returns.\<close>

definition getContent :: "errtext \<Rightarrow> bytes \<Rightarrow> bytes \<Rightarrow> fworld \<Rightarrow> status \<times> bytes \<times> fworld" where
  "getContent strerror name cont w =
     (let (r, w) = sys (OpenRead (cstr name)) w; fd = res_int r in
      if fd < 0 then (io_error strerror ''open'' name r, cont, w)
      else let (s, cont, w) = read_content strerror name fd cont w in (s, cont, sys_drop (CloseFd fd) w))"

definition writeContent :: "errtext \<Rightarrow> bytes \<Rightarrow> bytes \<Rightarrow> fworld \<Rightarrow> status \<times> fworld" where
  "writeContent strerror name cont w =
     (let (r, w) = sys (OpenWrite (cstr name)) w; fd = res_int r in
      if fd < 0 then (io_error strerror ''open'' name r, w)
      else let (r, w) = sys (WriteFd fd cont) w;
               s = (if res_int r < 0 then io_error strerror ''write'' name r else status_ok0)
           in (s, sys_drop (CloseFd fd) w))"

definition renameFile :: "errtext \<Rightarrow> bytes \<Rightarrow> bytes \<Rightarrow> fworld \<Rightarrow> status \<times> fworld" where
  "renameFile strerror src target w =
     (let (r, w) = sys (Rename (cstr src) (cstr target)) w
      in (if res_int r \<noteq> 0 then io_error strerror ''rename'' (src @ '' '' @ target) r else status_ok0, w))"

definition renameSave :: "errtext \<Rightarrow> bytes \<Rightarrow> bytes \<Rightarrow> bytes \<Rightarrow> fworld \<Rightarrow> status \<times> fworld" where
  "renameSave strerror name tmpName cont w =
     (let (s, w) = writeContent strerror tmpName cont w in
      if status_ok s then renameFile strerror tmpName name (snd (sys (Unlink (cstr name)) w)) else (s, w))"

section \<open>The other helpers\<close>

definition status_of_call :: "errtext \<Rightarrow> bytes \<Rightarrow> bytes \<Rightarrow> sysres \<times> fworld \<Rightarrow> status \<times> fworld" where
  "status_of_call strerror oper name rw =
     (if res_int (fst rw) \<noteq> 0 then io_error strerror oper name (fst rw) else status_ok0, snd rw)"

definition deleteFile :: "errtext \<Rightarrow> bytes \<Rightarrow> fworld \<Rightarrow> status \<times> fworld" where
  "deleteFile strerror fname w = status_of_call strerror ''unlink'' fname (sys (Unlink (cstr fname)) w)"

text \<open>The access rights are 0755.\<close>

definition createDir :: "errtext \<Rightarrow> bytes \<Rightarrow> fworld \<Rightarrow> status \<times> fworld" where
  "createDir strerror name w = status_of_call strerror ''mkdir'' name (sys (MkDir (cstr name) 493) w)"

definition deleteDir :: "errtext \<Rightarrow> bytes \<Rightarrow> fworld \<Rightarrow> status \<times> fworld" where
  "deleteDir strerror name w = status_of_call strerror ''rmdir'' name (sys (RmDir (cstr name)) w)"

text \<open>\<open>stat\<close> gives the size in \<open>Res\<close>. The size is the second part of the result.\<close>

definition getFileSize :: "errtext \<Rightarrow> bytes \<Rightarrow> fworld \<Rightarrow> status \<times> nat \<times> fworld" where
  "getFileSize strerror fname w =
     (let (r, w) = sys (StatPath (cstr fname)) w in
      case r of Err _ \<Rightarrow> (io_error strerror ''stat'' fname r, 0, w) | _ \<Rightarrow> (status_ok0, nat (res_int r mod 2 ^ 64), w))"

definition fileExists :: "bytes \<Rightarrow> fworld \<Rightarrow> bool \<times> fworld" where
  "fileExists fname w = (let (r, w) = sys (AccessPath (cstr fname)) w in (res_int r = 0, w))"

text \<open>\<open>readdir\<close> gives a name in \<open>Got\<close>, or a null pointer.\<close>

function read_dir :: "int \<Rightarrow> bytes list \<Rightarrow> fworld \<Rightarrow> bytes list \<times> fworld" where
  "read_dir d names w =
     (let (r, w') = sys (ReadDir d) w in
      case r of Got name \<Rightarrow> read_dir d (names @ [name]) w' | _ \<Rightarrow> (names, w'))"
  by pat_completeness auto

termination
proof (relation "measure (\<lambda>(d, names, w). length (w_script w))")
  fix d names and w :: fworld and x r w' name
  assume x: "x = sys (ReadDir d) w" "(r, w') = x" "r = Got name"
  then have "w_script w \<noteq> []" by (auto simp: sys_def)
  with x show "((d, names @ [name], w'), (d, names, w)) \<in> measure (\<lambda>(d, names, w). length (w_script w))"
    using sys_measure [of "ReadDir d" w r w'] by simp
qed simp

declare read_dir.simps [simp del]

definition getChildren :: "errtext \<Rightarrow> bytes \<Rightarrow> fworld \<Rightarrow> status \<times> bytes list \<times> fworld" where
  "getChildren strerror dir w =
     (let (r, w) = sys (OpenDir (cstr dir)) w in
      case r of Err _ \<Rightarrow> (io_error strerror ''opendir'' dir r, [], w)
      | _ \<Rightarrow> (let (names, w) = read_dir (res_int r) [] w in (status_ok0, names, sys_drop (CloseDir (res_int r)) w)))"

section \<open>HttpConnPtr::sendFile\<close>

text \<open>\<open>setStatus\<close> builds its string from the C string of the status.\<close>

definition sendFileOf :: "errtext \<Rightarrow> bytes \<Rightarrow> fworld \<Rightarrow> lib \<Rightarrow> conn \<times> http_ctx \<Rightarrow> ((conn \<times> http_ctx) \<times> fworld) option" where
  "sendFileOf strerror filename w l cx =
     (let (st, cont, w) = getContent strerror filename [] w in do {
        msg \<leftarrow> status_msg st;
        cx \<leftarrow> sendFile (status_code st, msg, cont) l cx;
        Some (cx, w)
      })"

section \<open>Reading in pieces\<close>

text \<open>What ends a file: the empty read or an error.\<close>

definition file_end :: "int option \<Rightarrow> sysres" where
  "file_end e = (case e of None \<Rightarrow> Got [] | Some n \<Rightarrow> Err n)"

definition read_trace :: "bytes \<Rightarrow> int \<Rightarrow> nat \<Rightarrow> file_call list" where
  "read_trace name fd n = OpenRead (cstr name) # replicate n (ReadFd fd 4096) @ [CloseFd fd]"

lemma read_content_pieces:
  "\<forall>b \<in> set bs. b \<noteq> [] \<and> length b \<le> 4096 \<Longrightarrow>
   read_content strerror name fd cont \<lparr>w_script = map Got bs @ file_end e # rs, w_trace = tr\<rparr> =
     ((case e of None \<Rightarrow> status_ok0 | Some n \<Rightarrow> status_ioError strerror n ''read'' name), cont @ concat bs,
      \<lparr>w_script = rs, w_trace = tr @ replicate (Suc (length bs)) (ReadFd fd 4096)\<rparr>)"
proof (induction bs arbitrary: cont tr)
  case Nil
  show ?case
    by (cases e) (simp_all add: read_content.simps [of strerror name fd cont] file_end_def sys_simps io_error_def)
next
  case (Cons b bs)
  then have "b \<noteq> []" "take 4096 b = b" by simp_all
  with Cons show ?case
    by (subst read_content.simps) (simp add: sys_simps replicate_append_same [symmetric])
qed

lemma getContent_pieces:
  assumes "0 \<le> fd" and "\<forall>b \<in> set bs. b \<noteq> [] \<and> length b \<le> 4096"
  shows "getContent strerror name cont (world_new (Res fd # map Got bs @ file_end e # rs)) =
    ((case e of None \<Rightarrow> status_ok0 | Some n \<Rightarrow> status_ioError strerror n ''read'' name), cont @ concat bs,
     \<lparr>w_script = rs, w_trace = read_trace name fd (Suc (length bs))\<rparr>)"
  using assms by (simp add: getContent_def sys_simps read_content_pieces read_trace_def)

text \<open>A status of \<open>ioError\<close> gives back the number and the text.\<close>

definition io_text :: "errtext \<Rightarrow> int \<Rightarrow> bytes \<Rightarrow> bytes \<Rightarrow> bytes" where
  "io_text strerror e oper name = cstr oper @ '' '' @ cstr name @ '' '' @ strerror e"

lemma cstr_NUL [simp]: "NUL \<notin> set (cstr s)"
  by (auto simp: cstr_def dest: set_takeWhileD)

lemma ioError_read:
  assumes "0 < e" and "e < 2 ^ 31" and "NUL \<notin> set (strerror e)" and "int (length (io_text strerror e oper name)) < 2 ^ 31"
  shows "status_code (status_ioError strerror e oper name) = e"
    and "status_msg (status_ioError strerror e oper name) = Some (io_text strerror e oper name)"
    and "\<not> status_ok (status_ioError strerror e oper name)"
proof -
  have "NUL \<notin> set (io_text strerror e oper name)" using assms(3) by (simp add: io_text_def)
  note r = status_format_read [OF _ assms(2) assms(4) this]
  show "status_code (status_ioError strerror e oper name) = e"
    "status_msg (status_ioError strerror e oper name) = Some (io_text strerror e oper name)"
    using r assms(1) by (simp_all add: status_ioError_def io_text_def)
  then show "\<not> status_ok (status_ioError strerror e oper name)" using assms(1) by (simp add: status_ok_def)
qed

section \<open>Properties\<close>

text \<open>What the response of the context becomes when reading the file has ended with \<open>e\<close>.\<close>

definition file_answer :: "errtext \<Rightarrow> bytes \<Rightarrow> bytes \<Rightarrow> int option \<Rightarrow> http_resp \<Rightarrow> http_resp" where
  "file_answer strerror name cont e p =
     (case e of None \<Rightarrow> p\<lparr>h_body2 := (cont, slice_range 0 (length cont))\<rparr>
      | Some n \<Rightarrow> if n = 2 then setNotFound p else setStatus 500 (io_text strerror n ''read'' name) p)"

lemma sendFileOf_answer:
  assumes "0 \<le> fd" and "\<forall>b \<in> set bs. b \<noteq> [] \<and> length b \<le> 4096"
    and "\<forall>n. e = Some n \<longrightarrow> 0 < n \<and> n < 2 ^ 31 \<and> NUL \<notin> set (strerror n) \<and>
      int (length (io_text strerror n ''read'' name)) < 2 ^ 31"
  shows "sendFileOf strerror name (world_new (Res fd # map Got bs @ file_end e # rs)) l (c, x) =
    map_option (\<lambda>cx. (cx, \<lparr>w_script = rs, w_trace = read_trace name fd (Suc (length bs))\<rparr>))
      (sendResponse l (file_answer strerror name (concat bs) e (x_resp x))
        (c, x\<lparr>x_resp := file_answer strerror name (concat bs) e (x_resp x)\<rparr>))"
proof (cases e)
  case None
  then show ?thesis
    using getContent_pieces [OF assms(1,2), of strerror name "[]" None rs]
    by (simp add: sendFileOf_def sendFile_def sendResponse0_def file_answer_def status_ok0_def status_code_def status_msg_def
        map_conv_bind_option o_def Let_def)
next
  case (Some n)
  with assms(3) have n: "0 < n" "n < 2 ^ 31" "NUL \<notin> set (strerror n)" "int (length (io_text strerror n ''read'' name)) < 2 ^ 31"
    by simp_all
  show ?thesis
    using getContent_pieces [OF assms(1,2), of strerror name "[]" e rs] ioError_read(1,2) [of n strerror "''read''" name, OF n] n(1)
    by (simp add: Some sendFileOf_def sendFile_def sendResponse0_def file_answer_def map_conv_bind_option o_def Let_def)
qed

text \<open>
  C27: A server connection answers with a file that the kernel gives in pieces of any size: all of
  its bytes, if any, are the body of the response. If reading fails on the way the response has no part of
  the file but the status 404 for \<open>ENOENT\<close> and else 500 with the text of the error. In both cases the
  response follows what was sent before, the request is consumed, and the file is opened once,
  read until its end or the error, and closed.
\<close>

theorem http_sends_file:
  assumes "chan_open c" and "WReset \<notin> set (c_writes c)" and "buf_ok (c_output c)" and "buf_ok (c_input c)"
    and "\<not> isClient c" and "getByte (x_req x) = int n" and "n \<le> length (buf_str (c_input c))" and "n < 2 ^ 31"
    and "0 \<le> fd" and "\<forall>b \<in> set bs. b \<noteq> [] \<and> length b \<le> 4096"
    and "\<forall>m. e = Some m \<longrightarrow> 0 < m \<and> m < 2 ^ 31 \<and> NUL \<notin> set (strerror m) \<and>
      int (length (io_text strerror m ''read'' name)) < 2 ^ 31"
  shows "\<exists>c' x'. sendFileOf strerror name (world_new (Res fd # map Got bs @ file_end e # rs)) l (c, x) =
      Some ((c', x'), \<lparr>w_script = rs, w_trace = read_trace name fd (Suc (length bs))\<rparr>) \<and>
    out_stream c' = out_stream c @ resp_bytes (file_answer strerror name (concat bs) e (x_resp x)) \<and>
    buf_str (c_input c') = drop n (buf_str (c_input c)) \<and> chan_open c' \<and> flow_ok c'"
proof -
  let ?p = "file_answer strerror name (concat bs) e (x_resp x)"
  have "getByte (x_req (x\<lparr>x_resp := ?p\<rparr>)) = int n" using assms(6) by simp
  from sendResponse_sent [OF assms(1-5) this assms(7,8), of l ?p]
  show ?thesis using sendFileOf_answer [OF assms(9-11), of rs l c x] by auto
qed

theorem http_sends_file_witness:
  "\<exists>c' x'. sendFileOf (\<lambda>n. ''bad'') ''f'' (world_new (Res 3 # map Got [''fi'', ''le''] @ file_end None # [])) (lib_at 1 quiet_cbs)
      (hello_conn, ctx_new) = Some ((c', x'), \<lparr>w_script = [], w_trace = read_trace ''f'' 3 3\<rparr>)"
proof -
  have c: "chan_open hello_conn" "WReset \<notin> set (c_writes hello_conn)" "buf_ok (c_output hello_conn)" "buf_ok (c_input hello_conn)"
      "\<not> isClient hello_conn"
    by (simp_all add: hello_conn_def chan_open_def conn_up_def tcp_new_def isClient_def)
  have x: "getByte (x_req ctx_new) = int 0" by (simp add: ctx_new_def req_new_def req_clear_def msg_clear_def getByte_def)
  have "\<forall>b \<in> set [''fi'', ''le'']. b \<noteq> [] \<and> length b \<le> 4096" by simp
  from http_sends_file [OF c x _ _ _ this, of 3 None "\<lambda>n. ''bad''" "''f''" "[]" "lib_at 1 quiet_cbs"]
  show ?thesis by (simp add: numeral_3_eq_3) blast
qed

definition save_trace :: "int \<Rightarrow> bytes \<Rightarrow> bytes \<Rightarrow> file_call list" where
  "save_trace fd tmp cont = [OpenWrite (cstr tmp), WriteFd fd cont, CloseFd fd]"

definition rename_trace :: "bytes \<Rightarrow> bytes \<Rightarrow> file_call list" where
  "rename_trace tmp name = [Unlink (cstr name), Rename (cstr tmp) (cstr name)]"



end
