(* ===== verification/Handy_Stat.thy ===== *)
theory Handy_Stat
  imports Handy_File
begin

text \<open>
  \<open>StatServer\<close> (\<open>handy/stat-svr.h\<close>, \<open>handy/stat-svr.cc\<close>): pages about a program's state, served by an
  \<open>HttpServer\<close> whose default handler looks the page up. A callback is a function of the request and the
  response of the connection; one that reads a file does so with the answers the kernel then gives.
  The text of the index page is built as a string of bytes.
\<close>

type_synonym stat_cb = "http_req \<Rightarrow> http_resp \<Rightarrow> http_resp"

datatype StatType = STATE | PAGE | CMD

record stat_server =
  st_state :: "(bytes \<times> (bytes \<times> stat_cb)) list"
  st_page :: "(bytes \<times> (bytes \<times> stat_cb)) list"
  st_cmd :: "(bytes \<times> (bytes \<times> stat_cb)) list"
  st_all :: "(bytes \<times> stat_cb) list"

definition stat_new :: stat_server where
  "stat_new = \<lparr>st_state = [], st_page = [], st_cmd = [], st_all = []\<rparr>"

section \<open>Registration\<close>

definition stat_onRequest :: "StatType \<Rightarrow> bytes \<Rightarrow> bytes \<Rightarrow> stat_cb \<Rightarrow> stat_server \<Rightarrow> stat_server" where
  "stat_onRequest ty key desc cb s =
     (let s = (case ty of
                 STATE \<Rightarrow> s\<lparr>st_state := map_put key (desc, cb) (st_state s)\<rparr>
               | PAGE \<Rightarrow> s\<lparr>st_page := map_put key (desc, cb) (st_page s)\<rparr>
               | CMD \<Rightarrow> s\<lparr>st_cmd := map_put key (desc, cb) (st_cmd s)\<rparr>)
      in s\<lparr>st_all := map_put key cb (st_all s)\<rparr>)"

text \<open>The callbacks made from an \<open>InfoCallBack\<close> and from an \<open>IntCallBack\<close>.\<close>

definition info_cb :: "bytes \<Rightarrow> stat_cb" where
  "info_cb text q p = p\<lparr>h_body := text\<rparr>"

definition int_cb :: "int \<Rightarrow> stat_cb" where
  "int_cb n = info_cb (util_format (show_int n))"

definition onState :: "bytes \<Rightarrow> bytes \<Rightarrow> bytes \<Rightarrow> stat_server \<Rightarrow> stat_server" where
  "onState state desc text = stat_onRequest STATE state desc (info_cb text)"

definition onPage :: "bytes \<Rightarrow> bytes \<Rightarrow> bytes \<Rightarrow> stat_server \<Rightarrow> stat_server" where
  "onPage page desc text = stat_onRequest PAGE page desc (info_cb text)"

definition onCmd :: "bytes \<Rightarrow> bytes \<Rightarrow> bytes \<Rightarrow> stat_server \<Rightarrow> stat_server" where
  "onCmd cmd desc text = stat_onRequest CMD cmd desc (info_cb text)"

text \<open>The callback of \<open>onPageFile\<close>: the file is appended to the body of the response.\<close>

definition page_file_cb :: "errtext \<Rightarrow> bytes \<Rightarrow> fworld \<Rightarrow> stat_cb" where
  "page_file_cb strerror file w q p =
     (let (st, cont, w) = getContent strerror file (h_body p) w; p = p\<lparr>h_body := cont\<rparr>
      in if \<not> status_ok st then setNotFound p
         else p\<lparr>h_headers := map_put ''Content-Type'' ''text/plain; charset=utf-8'' (h_headers p)\<rparr>)"

definition onPageFile :: "errtext \<Rightarrow> bytes \<Rightarrow> bytes \<Rightarrow> bytes \<Rightarrow> fworld \<Rightarrow> stat_server \<Rightarrow> stat_server" where
  "onPageFile strerror page desc file w = stat_onRequest PAGE page desc (page_file_cb strerror file w)"

section \<open>The index page\<close>

definition query_link :: "bytes \<Rightarrow> bytes" where
  "query_link path = util_format (''<a href='' @ [DQ] @ ''/?stat='' @ cstr path @ [DQ] @ ''>'' @ cstr path @ ''</a>'')"

definition page_link :: "bytes \<Rightarrow> bytes" where
  "page_link path = util_format (''<a href='' @ [DQ] @ ''/'' @ cstr path @ [DQ] @ ''>'' @ cstr path @ ''</a>'')"

text \<open>The rows of the states; each callback is called with the \<open>uri\<close> of the request set to its key.\<close>

fun state_rows :: "(bytes \<times> (bytes \<times> stat_cb)) list \<Rightarrow> http_req \<Rightarrow> bytes \<times> http_req" where
  "state_rows [] q = ([], q)"
| "state_rows ((key, desc, cb) # ss) q =
     (let q = q\<lparr>q_uri := key\<rparr>; r = cb q resp_new; (rows, q') = state_rows ss q
      in (''<tr><td>'' @ page_link key @ ''</td><td>'' @ desc @ ''</td><td>'' @ h_body r @ ''</td></tr>'' @ [LF] @ rows, q'))"

definition link_rows :: "(bytes \<Rightarrow> bytes) \<Rightarrow> (bytes \<times> (bytes \<times> stat_cb)) list \<Rightarrow> bytes" where
  "link_rows link ss =
     concat (map (\<lambda>(key, desc, cb). ''<tr><td>'' @ link key @ ''</td><td>'' @ desc @ ''</td></tr>'' @ [LF]) ss)"

definition stat_index :: "stat_server \<Rightarrow> bytes \<Rightarrow> http_req \<Rightarrow> http_resp \<Rightarrow> bytes \<times> http_req" where
  "stat_index s query q p =
     (let (rows, q) = state_rows (st_state s) q
      in (''<a href='' @ [DQ] @ ''/'' @ [DQ] @ ''>refresh</a><br/>'' @ [LF] @ ''<table>'' @ [LF] @
          ''<tr><td>Stat</td><td>Desc</td><td>Value</td></tr>'' @ [LF] @ rows @
          ''</table>'' @ [LF] @ ''<br/>'' @ [LF] @ ''<table>'' @ [LF] @ ''<tr><td>Page</td><td>Desc</td>'' @ [LF] @
          link_rows page_link (st_page s) @
          ''</table>'' @ [LF] @ ''<br/>'' @ [LF] @ ''<table>'' @ [LF] @ ''<tr><td>Cmd</td><td>Desc</td>'' @ [LF] @
          link_rows query_link (st_cmd s) @ ''</table>'' @ [LF] @
          (if h_body p \<noteq> [] then util_format (''<br/>SubQuery '' @ cstr query @ '':<br/> '' @ cstr (h_body p)) else []),
          q))"

section \<open>The default handler\<close>

text \<open>\<open>assign(uri.data() + 1, uri.size() - 1)\<close> with an empty \<open>uri\<close> throws \<open>length_error\<close>.\<close>

definition stat_query :: "http_req \<Rightarrow> bytes option" where
  "stat_query q =
     (let query = getArg q ''stat'' in
      if query = [] then (if q_uri q = [] then None else Some (tl (q_uri q))) else Some query)"

definition stat_answer :: "stat_server \<Rightarrow> http_req \<Rightarrow> http_resp \<Rightarrow> (http_req \<times> http_resp) option" where
  "stat_answer s q p = do {
     query \<leftarrow> stat_query q;
     let p = (if query \<noteq> [] then (case map_of (st_all s) query of Some cb \<Rightarrow> cb q p | None \<Rightarrow> setNotFound p) else p);
     Some (if q_uri q = ''/'' then let (page, q) = stat_index s query q p in (q, p\<lparr>h_body := page\<rparr>) else (q, p))
   }"

definition stat_default :: "stat_server \<Rightarrow> http_cb" where
  "stat_default s l cx =
     (let (c, x) = cx in do {
        (q, p) \<leftarrow> stat_answer s (x_req x) (x_resp x);
        sendResponse0 l (c, x\<lparr>x_req := q, x_resp := p\<rparr>)
      })"

definition stat_http :: "stat_server \<Rightarrow> http_server" where
  "stat_http s = onDefault (stat_default s) server_new"

section \<open>What is registered\<close>

text \<open>A registration: its type, key, description and callback.\<close>

type_synonym stat_reg = "StatType \<times> bytes \<times> bytes \<times> stat_cb"

definition stat_of :: "stat_reg list \<Rightarrow> stat_server" where
  "stat_of rs = fold (\<lambda>(ty, key, desc, cb). stat_onRequest ty key desc cb) rs stat_new"

definition last_for :: "bytes \<Rightarrow> stat_reg list \<Rightarrow> stat_cb option" where
  "last_for key rs = map_of (rev (map (\<lambda>(ty, k, desc, cb). (k, cb)) rs)) key"

lemma stat_onRequest_all [simp]: "st_all (stat_onRequest ty key desc cb s) = map_put key cb (st_all s)"
  by (cases ty) (simp_all add: stat_onRequest_def)

lemma stat_of_snoc: "stat_of (rs @ [(ty, key, desc, cb)]) = stat_onRequest ty key desc cb (stat_of rs)"
  by (simp add: stat_of_def)

lemma stat_of_all: "map_ok (st_all (stat_of rs)) \<and> map_of (st_all (stat_of rs)) key = last_for key rs"
proof (induction rs rule: rev_induct)
  case Nil
  show ?case by (simp add: stat_of_def stat_new_def last_for_def)
next
  case (snoc r rs)
  then show ?case by (cases r) (simp add: stat_of_snoc last_for_def)
qed

section \<open>Answers on a connection\<close>

lemma stat_rows_uri: "\<exists>u. snd (state_rows ss q) = q\<lparr>q_uri := u\<rparr>"
proof (induction ss arbitrary: q)
  case Nil
  show ?case by (intro exI [of _ "q_uri q"]) simp
next
  case (Cons e ss)
  obtain key desc cb where e: "e = (key, desc, cb)" by (cases e)
  obtain u where "snd (state_rows ss (q\<lparr>q_uri := key\<rparr>)) = q\<lparr>q_uri := key\<rparr>\<lparr>q_uri := u\<rparr>" using Cons.IH by blast
  then show ?case by (auto simp: e split_beta Let_def)
qed

lemma stat_answer_byte: "stat_answer s q p = Some (q', p') \<Longrightarrow> getByte q' = getByte q"
  using stat_rows_uri [of "st_state s" q]
  by (auto simp: stat_answer_def stat_index_def Let_def split_beta getByte_def bind_eq_Some_conv split: if_splits)

lemma stat_default_sent:
  assumes "chan_open c" and "WReset \<notin> set (c_writes c)" and "buf_ok (c_output c)" and "buf_ok (c_input c)"
    and "\<not> isClient c" and "getByte (x_req x) = int n" and "n \<le> length (buf_str (c_input c))" and "n < 2 ^ 31"
    and "stat_answer s (x_req x) (x_resp x) = Some (q', p')"
  shows "\<exists>c'. stat_default s l (c, x) = Some (c', x\<lparr>x_req := req_clear q', x_resp := p'\<rparr>) \<and>
    out_stream c' = out_stream c @ resp_bytes p' \<and> buf_str (c_input c') = drop n (buf_str (c_input c)) \<and>
    buf_ok (c_input c') \<and> buf_ok (c_output c') \<and> chan_open c' \<and> flow_ok c'"
proof -
  have "getByte (x_req (x\<lparr>x_req := q', x_resp := p'\<rparr>)) = int n"
    using stat_answer_byte [OF assms(9)] assms(6) by simp
  from sendResponse_sent [OF assms(1-5) this assms(7,8), of l p']
  show ?thesis using assms(9) by (auto simp: stat_default_def sendResponse0_def)
qed

lemma stat_dispatch: "http_dispatch (stat_http s) l cx = stat_default s l cx"
  by (simp add: http_dispatch_def stat_http_def onDefault_def server_new_def)

text \<open>A request for a page other than the index.\<close>

lemma stat_answer_page:
  assumes "getArg q ''stat'' = []" and "q_uri q = CHR ''/'' # key" and "key \<noteq> []"
  shows "stat_answer s q p = Some (q, (case map_of (st_all s) key of Some cb \<Rightarrow> cb q p | None \<Rightarrow> setNotFound p))"
  using assms by (simp add: stat_answer_def stat_query_def Let_def split: option.splits)

section \<open>Properties\<close>

text \<open>
  C29: A stat server serves its pages. After any registrations, a request that has arrived for a path
  of one key is answered by the callback registered last under this key, of whatever type it was,
  and without one by \<open>404\<close>; the callback works on the response the connection had before. The
  answer follows what was sent before and the input keeps what follows the request.
\<close>

theorem stat_pages_served:
  assumes "chan_open c" and "WReset \<notin> set (c_writes c)" and "buf_ok (c_output c)" and "buf_ok (c_input c)"
    and "\<not> isClient c" and "x_req x = req_new" and "req_fine q"
    and "buf_str (c_input c) = buf_str (snd (req_encode q buf_new)) @ rest" and "length (buf_str (c_input c)) < 2 ^ 31"
    and "q_query_uri q = CHR ''/'' # key" and "key \<noteq> []" and "CHR ''?'' \<notin> set key"
  shows "\<exists>c' q'. q_query_uri q' = q_query_uri q \<and> h_body q' = getBody q \<and>
    (let p = (case last_for key rs of Some cb \<Rightarrow> cb q' (x_resp x) | None \<Rightarrow> setNotFound (x_resp x)) in
      http_handleRead (http_dispatch (stat_http (stat_of rs))) l (c, x) = Some (c', x\<lparr>x_req := req_clear q', x_resp := p\<rparr>) \<and>
      out_stream c' = out_stream c @ resp_bytes p \<and> buf_str (c_input c') = rest \<and> flow_ok c')"
proof -
  let ?s = "stat_of rs"
  obtain c1 q' n where run: "http_handleRead (http_dispatch (stat_http ?s)) l (c, x) = http_dispatch (stat_http ?s) l (c1, x\<lparr>x_req := q'\<rparr>)"
    and d: "q_query_uri q' = q_query_uri q" "h_body q' = getBody q" "q_uri q' = takeWhile (\<lambda>c. c \<noteq> CHR ''?'') (q_query_uri q)"
      "CHR ''?'' \<notin> set (q_query_uri q) \<longrightarrow> q_args q' = []"
    and pre: "chan_open c1" "WReset \<notin> set (c_writes c1)" "buf_ok (c_output c1)" "buf_ok (c_input c1)" "\<not> isClient c1"
    and out: "out_stream c1 = out_stream c" and n: "getByte q' = int n" "n \<le> length (buf_str (c_input c1))" "n < 2 ^ 31"
    and rest: "drop n (buf_str (c_input c1)) = rest"
    by (rule request_dispatched [OF assms(1-9), of "http_dispatch (stat_http ?s)" l])
  have u: "q_uri q' = CHR ''/'' # key" using d(3) assms(10,12) by (simp add: takeWhile_neq_all)
  have a: "getArg q' ''stat'' = []" using d(4) assms(10,12) by (simp add: getArg_def getValueFromMap_def)
  let ?p = "case last_for key rs of Some cb \<Rightarrow> cb q' (x_resp x) | None \<Rightarrow> setNotFound (x_resp x)"
  have "stat_answer ?s (x_req (x\<lparr>x_req := q'\<rparr>)) (x_resp (x\<lparr>x_req := q'\<rparr>)) = Some (q', ?p)"
    using stat_answer_page [OF a u assms(11)] stat_of_all [of rs key] by simp
  moreover have "getByte (x_req (x\<lparr>x_req := q'\<rparr>)) = int n" using n(1) by simp
  ultimately obtain c' where "stat_default ?s l (c1, x\<lparr>x_req := q'\<rparr>) = Some (c', x\<lparr>x_req := req_clear q', x_resp := ?p\<rparr>)"
      "out_stream c' = out_stream c1 @ resp_bytes ?p" "buf_str (c_input c') = drop n (buf_str (c_input c1))" "flow_ok c'"
    using stat_default_sent [OF pre _ n(2,3), of "x\<lparr>x_req := q'\<rparr>" ?s q' ?p l] by auto
  then show ?thesis using d(1,2) out rest by (intro exI [of _ c'] exI [of _ q']) (simp add: run stat_dispatch Let_def)
qed

definition get_load :: http_req where
  "get_load = get_hello\<lparr>q_query_uri := ''/load''\<rparr>"

lemma get_load_simps:
  "q_method get_load = ''GET''" "q_query_uri get_load = ''/load''" "h_version get_load = ''HTTP/1.1''"
  "getBody get_load = ''data''" "h_headers get_load = [(''host'', ''a b'')]"
  by code_simp+

lemma get_load_fine: "req_fine get_load"
proof -
  have "word_ok (q_method get_load) \<and> q_method get_load \<noteq> [] \<and> word_ok (q_query_uri get_load) \<and>
      q_query_uri get_load \<noteq> [] \<and> hd (q_query_uri get_load) = CHR ''/'' \<and> word_ok (h_version get_load) \<and>
      map_ok (h_headers get_load) \<and> lower_keys (h_headers get_load) \<and> (\<forall>h \<in> set (h_headers get_load). hdr_ok h)"
    by code_simp
  moreover have "length (q_method get_load @ q_query_uri get_load @ h_version get_load) < 4092"
    by (simp add: get_load_simps)
  ultimately show ?thesis by (simp add: req_fine_def get_load_simps)
qed

lemma get_load_short: "length (buf_str (snd (req_encode get_load buf_new))) < 200"
  using req_encode_wire [OF get_load_fine buf_ok_new] length_show_nat [of "length ''data''" 2]
  by (simp add: wire_def own_headers_def get_load_simps hdr_line_def)

theorem stat_pages_served_witness:
  "\<exists>c' x'. http_handleRead (http_dispatch (stat_http (stat_of [(STATE, ''load'', ''the load'', info_cb ''1''), (CMD, ''load'', ''again'', info_cb ''2'')])))
      (lib_at 1 quiet_cbs) ((conn_up LineCodec [WTake 20])\<lparr>c_input := buf_append (buf_str (snd (req_encode get_load buf_new))) buf_new\<rparr>, ctx_new) =
        Some (c', x') \<and> out_stream c' = resp_bytes (info_cb ''2'' req_new resp_new) \<and> buf_str (c_input c') = []"
proof -
  let ?c = "(conn_up LineCodec [WTake 20])\<lparr>c_input := buf_append (buf_str (snd (req_encode get_load buf_new))) buf_new\<rparr>"
  let ?rs = "[(STATE, ''load'', ''the load'', info_cb ''1''), (CMD, ''load'', ''again'', info_cb ''2'')]"
  have c: "chan_open ?c" "WReset \<notin> set (c_writes ?c)" "buf_ok (c_output ?c)" "buf_ok (c_input ?c)" "\<not> isClient ?c"
      "buf_str (c_input ?c) = buf_str (snd (req_encode get_load buf_new)) @ []" "out_stream ?c = []"
    by (simp_all add: chan_open_def conn_up_def tcp_new_def isClient_def out_stream_def)
  have x: "x_req ctx_new = req_new" "x_resp ctx_new = resp_new" by (simp_all add: ctx_new_def)
  have n: "length (buf_str (c_input ?c)) < 2 ^ 31" using c(6) get_load_short by simp
  have k: "q_query_uri get_load = CHR ''/'' # ''load''" "''load'' \<noteq> []" "CHR ''?'' \<notin> set ''load''" by (simp_all add: get_load_def)
  have l: "last_for ''load'' ?rs = Some (info_cb ''2'')" by (simp add: last_for_def)
  have i: "info_cb ''2'' q resp_new = info_cb ''2'' req_new resp_new" for q by (simp add: info_cb_def)
  note served = stat_pages_served [OF c(1-5) x(1) get_load_fine c(6) n k, of ?rs "lib_at 1 quiet_cbs", unfolded l x(2) Let_def option.case]
  then obtain c' q' where "http_handleRead (http_dispatch (stat_http (stat_of ?rs))) (lib_at 1 quiet_cbs) (?c, ctx_new) =
      Some (c', ctx_new\<lparr>x_req := req_clear q', x_resp := info_cb ''2'' q' resp_new\<rparr>)"
      "out_stream c' = out_stream ?c @ resp_bytes (info_cb ''2'' q' resp_new)" "buf_str (c_input c') = []" by blast
  with c(7) show ?thesis using i [of q'] by simp
qed

text \<open>
  A request with an empty first line ends the process. The decoder skips the check of the path then
  and calls the message complete, its \<open>uri\<close> is empty, and the default handler of every stat server passes
  \<open>size() - 1\<close> of it to \<open>assign\<close>, which throws \<open>length_error\<close> and nobody catches it.
\<close>

theorem stat_server_crashes:
  assumes "\<not> isClient c" and "buf_str (c_input c) = CRLF @ ''A: b'' @ CRLF @ CRLF"
  shows "http_handleRead (http_dispatch (stat_http s)) l (c, \<lparr>x_req = req_new, x_resp = p\<rparr>) = None"
proof -
  let ?m = "CRLF @ ''A: b'' @ CRLF @ CRLF"
  have "map_option (\<lambda>(r, m, q). (r, q_uri q, q_args q)) (req_tryDecode ?m (full ?m) True req_new) = Some (Complete, [], [])"
    by code_simp
  then obtain m q where d: "req_tryDecode ?m (full ?m) True req_new = Some (Complete, m, q)" "q_uri q = []" "q_args q = []"
    by auto
  then have "stat_query q = None" by (simp add: stat_query_def getArg_def getValueFromMap_def)
  with d assms show ?thesis
    by (simp add: http_handleRead_def stat_dispatch stat_default_def stat_answer_def put_input_def)
qed

theorem stat_server_crashes_witness:
  "http_handleRead (http_dispatch (stat_http stat_new)) (lib_at 1 quiet_cbs)
     ((conn_up LineCodec [])\<lparr>c_input := buf_append (CRLF @ ''A: b'' @ CRLF @ CRLF) buf_new\<rparr>, \<lparr>x_req = req_new, x_resp = resp_new\<rparr>) = None"
proof -
  let ?c = "(conn_up LineCodec [])\<lparr>c_input := buf_append (CRLF @ ''A: b'' @ CRLF @ CRLF) buf_new\<rparr>"
  have "\<not> isClient ?c" by (simp add: conn_up_def tcp_new_def isClient_def)
  moreover have "buf_str (c_input ?c) = CRLF @ ''A: b'' @ CRLF @ CRLF" using buf_append_ok(2) [OF buf_ok_new] by simp
  ultimately show ?thesis by (rule stat_server_crashes)
qed

text \<open>
  The response of a connection is never cleared by the server, so answers leak into later ones:
  after an unknown page every page on the connection comes with the status 404, and the index page
  asked for a second time contains the first one, as much of it as \<open>format\<close> takes, as its sub-query.
\<close>

theorem stat_answers_stick:
  assumes "chan_open c" and "WReset \<notin> set (c_writes c)" and "buf_ok (c_output c)" and "buf_ok (c_input c)"
    and "\<not> isClient c" and "getByte (x_req x) = int n" and "n \<le> length (buf_str (c_input c))" and "n < 2 ^ 31"
    and "getArg (x_req x) ''stat'' = []" and "q_uri (x_req x) = CHR ''/'' # unknown" and "unknown \<noteq> []"
    and "last_for unknown rs = None"
    and "getArg q ''stat'' = []" and "q_uri q = CHR ''/'' # key" and "key \<noteq> []" and "last_for key rs = Some (info_cb text)"
    and "getArg r ''stat'' = []" and "q_uri r = ''/''"
  shows "(\<exists>c' p1 p2. stat_default (stat_of rs) l (c, x) = Some (c', x\<lparr>x_req := req_clear (x_req x), x_resp := p1\<rparr>) \<and>
      stat_answer (stat_of rs) q p1 = Some (q, p2) \<and> h_body p2 = text \<and> p_status p2 = 404) \<and>
    (\<exists>r1 r2 p1 p2 page. stat_answer (stat_of rs) r p = Some (r1, p1) \<and> stat_answer (stat_of rs) r p1 = Some (r2, p2) \<and>
      h_body p2 = page @ util_format (''<br/>SubQuery :<br/> '' @ cstr (h_body p1)))"
proof -
  let ?s = "stat_of rs"
  have a1: "stat_answer ?s (x_req x) (x_resp x) = Some (x_req x, setNotFound (x_resp x))"
    using stat_answer_page [OF assms(9-11)] stat_of_all [of rs unknown] assms(12) by simp
  from stat_default_sent [OF assms(1-8) a1, of l]
  obtain c' where c': "stat_default ?s l (c, x) = Some (c', x\<lparr>x_req := req_clear (x_req x), x_resp := setNotFound (x_resp x)\<rparr>)" by blast
  have a2: "stat_answer ?s q (setNotFound (x_resp x)) = Some (q, info_cb text q (setNotFound (x_resp x)))"
    using stat_answer_page [OF assms(13-15)] stat_of_all [of rs key] assms(16) by simp
  have sticky: "h_body (info_cb text q (setNotFound (x_resp x))) = text" "p_status (info_cb text q (setNotFound (x_resp x))) = 404"
    by (simp_all add: info_cb_def setNotFound_def setStatus_def)
  have idx: "\<exists>page r' p'. stat_answer ?s r p = Some (r', p') \<and> page \<noteq> [] \<and>
      h_body p' = page @ (if h_body p \<noteq> [] then util_format (''<br/>SubQuery :<br/> '' @ cstr (h_body p)) else [])" for p
    using assms(17,18) by (auto simp: stat_answer_def stat_query_def stat_index_def split_beta Let_def cstr_def)
  obtain page1 r1 p1 where i1: "stat_answer ?s r p = Some (r1, p1)" "page1 \<noteq> []"
    "h_body p1 = page1 @ (if h_body p \<noteq> [] then util_format (''<br/>SubQuery :<br/> '' @ cstr (h_body p)) else [])"
    using idx [of p] by blast
  obtain page2 r2 p2 where i2: "stat_answer ?s r p1 = Some (r2, p2)"
    "h_body p2 = page2 @ (if h_body p1 \<noteq> [] then util_format (''<br/>SubQuery :<br/> '' @ cstr (h_body p1)) else [])"
    using idx [of p1] by blast
  from c' a2 sticky i1(1) i2(1) i2(2) i1(2,3) show ?thesis by (intro conjI) (blast, auto)
qed

theorem stat_answers_stick_witness:
  "\<exists>p1 p2. stat_answer (stat_of [(STATE, ''load'', [], info_cb ''1'')]) (req_new\<lparr>q_uri := ''/load''\<rparr>) p1 =
       Some (req_new\<lparr>q_uri := ''/load''\<rparr>, p2) \<and> h_body p2 = ''1'' \<and> p_status p2 = 404"
proof -
  let ?x = "\<lparr>x_req = req_new\<lparr>q_uri := ''/none''\<rparr>, x_resp = resp_new\<rparr>"
  let ?rs = "[(STATE, ''load'', [], info_cb ''1'')]"
  have c: "chan_open (conn_up LineCodec [])" "WReset \<notin> set (c_writes (conn_up LineCodec []))"
    "buf_ok (c_output (conn_up LineCodec []))" "buf_ok (c_input (conn_up LineCodec []))" "\<not> isClient (conn_up LineCodec [])"
    by (simp_all add: conn_up_def tcp_new_def isClient_def chan_open_def)
  have q: "getByte (x_req ?x) = int 0" "(0::nat) \<le> length (buf_str (c_input (conn_up LineCodec [])))" "(0::nat) < 2 ^ 31"
    "getArg (x_req ?x) ''stat'' = []" "q_uri (x_req ?x) = CHR ''/'' # ''none''" "''none'' \<noteq> []"
    "last_for ''none'' ?rs = None" "getArg (req_new\<lparr>q_uri := ''/load''\<rparr>) ''stat'' = []"
    "q_uri (req_new\<lparr>q_uri := ''/load''\<rparr>) = CHR ''/'' # ''load''" "''load'' \<noteq> []" "last_for ''load'' ?rs = Some (info_cb ''1'')"
    "getArg (req_new\<lparr>q_uri := ''/''\<rparr>) ''stat'' = []" "q_uri (req_new\<lparr>q_uri := ''/''\<rparr>) = ''/''"
    by (simp_all add: getByte_def req_new_def req_clear_def msg_clear_def getArg_def getValueFromMap_def last_for_def)
  from stat_answers_stick [OF c q, of "lib_at 1 quiet_cbs" resp_new] show ?thesis by blast
qed

end
