(* ===== verification/Handy_Logger.thy ===== *)
theory Handy_Logger
  imports Handy_Sys "HOL-Library.Signed_Division"
begin

text \<open>
  \<open>Logger\<close> (\<open>handy/logging.h\<close>, \<open>handy/logging.cc\<close>) over scripted system calls. What the formats of a
  message expand to, the time and the time zone are arguments. \<open>None\<close> is a division by zero or an
  access outside the buffer of a line.
\<close>

datatype log_call =
    LOpen bytes | LDup2 int int | LClose int | LRename bytes bytes | LWrite int bytes
  | LSyslog bytes | LStdout bytes | LStderr bytes

type_synonym lworld = "log_call world"

section \<open>Levels\<close>

definition LNULL :: int where "LNULL = 0"
definition LFATAL :: int where "LFATAL = 1"
definition LERROR :: int where "LERROR = 2"
definition LINFO :: int where "LINFO = 5"
definition LALL :: int where "LALL = 8"

definition levelStrs :: "bytes list" where
  "levelStrs = [''NULL'', ''FATAL'', ''ERROR'', ''UERR'', ''WARN'', ''INFO'', ''DEBUG'', ''TRACE'', ''ALL'']"

record logger =
  lg_fd :: int
  lg_level :: int
  lg_last :: int        \<comment> \<open>\<open>lastRotate_\<close>\<close>
  lg_real :: int        \<comment> \<open>\<open>realRotate_\<close>\<close>
  lg_interval :: int
  lg_filename :: bytes

definition logger_new :: "int \<Rightarrow> logger" where
  "logger_new now = \<lparr>lg_fd = - 1, lg_level = LINFO, lg_last = now, lg_real = now, lg_interval = 86400, lg_filename = []\<rparr>"

text \<open>An enumeration without negative values is an unsigned number of 32 bits.\<close>

definition setLogLevel :: "int \<Rightarrow> logger \<Rightarrow> logger" where
  "setLogLevel level g = g\<lparr>lg_level := min LALL (max LFATAL (level mod 2 ^ 32))\<rparr>"

definition adjustLogLevel :: "int \<Rightarrow> logger \<Rightarrow> logger" where
  "adjustLogLevel adjust g = setLogLevel (lg_level g + adjust) g"

definition same_name :: "bytes \<Rightarrow> bytes \<Rightarrow> bool" where
  "same_name a b \<longleftrightarrow> map tolower a = map tolower (cstr b)"

definition setLogLevelName :: "bytes \<Rightarrow> logger \<Rightarrow> logger" where
  "setLogLevelName level g =
     (let i = length (takeWhile (\<lambda>n. \<not> same_name n level) levelStrs)
      in setLogLevel (if i < length levelStrs then int i else LINFO) g)"

definition getLogLevelStr :: "logger \<Rightarrow> bytes" where
  "getLogLevelStr g = levelStrs ! nat (lg_level g)"

definition setRotateInterval :: "int \<Rightarrow> logger \<Rightarrow> logger" where
  "setRotateInterval n g = g\<lparr>lg_interval := n\<rparr>"

section \<open>The file\<close>

text \<open>A second name takes the place of the first on the same descriptor. A failed \<open>dup2\<close> is fatal.\<close>

definition setFileName :: "bytes \<Rightarrow> logger \<times> lworld \<Rightarrow> (logger \<times> lworld) option" where
  "setFileName filename gw =
     (let (g, w) = gw; (r, w) = sys (LOpen (cstr filename)) w; fd = res_int r in
      if fd < 0 then Some (g, w)
      else let g = g\<lparr>lg_filename := filename\<rparr> in
      if lg_fd g = - 1 then Some (g\<lparr>lg_fd := fd\<rparr>, w)
      else let (r, w) = sys (LDup2 fd (lg_fd g)) w in
      if res_int r < 0 then None else Some (g, sys_drop (LClose fd) w))"

text \<open>The interval a time falls into.\<close>

definition slot :: "int \<Rightarrow> int \<Rightarrow> int \<Rightarrow> int" where
  "slot tz interval t = (t - tz) sdiv interval"

definition backup_name :: "bytes \<Rightarrow> bytes" where
  "backup_name f = take 4095 (cstr f @ ''.backup'')"

text \<open>What a rotation does to the files.\<close>

definition rotate_file :: "logger \<times> lworld \<Rightarrow> logger \<times> lworld" where
  "rotate_file gw =
     (let (g, w) = gw; (r, w) = sys (LRename (cstr (lg_filename g)) (backup_name (lg_filename g))) w in
      if res_int r \<noteq> 0 then (g, w)
      else let (r, w) = sys (LOpen (cstr (lg_filename g))) w in
      if res_int r < 0 then (g, w)
      else let (r', w) = sys (LDup2 (res_int r) (lg_fd g)) w in (g, sys_drop (LClose (res_int r)) w))"

definition maybeRotate :: "int \<Rightarrow> int \<Rightarrow> logger \<times> lworld \<Rightarrow> (logger \<times> lworld) option" where
  "maybeRotate tz now gw =
     (let (g, w) = gw in
      if lg_filename g = [] then Some (g, w)
      else if lg_interval g = 0 then None
      else if slot tz (lg_interval g) now = slot tz (lg_interval g) (lg_last g) then Some (g, w)
      else let g = g\<lparr>lg_last := now\<rparr>; old = lg_real g; g = g\<lparr>lg_real := now\<rparr> in
      if slot tz (lg_interval g) old = slot tz (lg_interval g) (lg_last g) then Some (g, w)
      else Some (rotate_file (g, w)))"

section \<open>A line\<close>

text \<open>
  The head and the message in a buffer of 4096 bytes. A head longer than that moves the end of the
  buffer behind its limit, and the room for the message wraps around.
\<close>

definition strip_lf :: "bytes \<Rightarrow> bytes" where
  "strip_lf t = rev (dropWhile (\<lambda>c. c = LF) (rev t))"

definition log_line :: "bytes \<Rightarrow> bytes \<Rightarrow> bytes option" where
  "log_line hdr msg =
     (if length hdr > 4096 then None
      else let t = strip_lf (take 4094 (hdr @ msg)) in if t = [] then None else Some (t @ [LF]))"

text \<open>The first part of the answer is whether the failed assertion of a fatal message has stopped the process.\<close>

definition logv :: "int \<Rightarrow> bytes \<Rightarrow> bytes \<Rightarrow> int \<Rightarrow> int \<Rightarrow> logger \<times> lworld \<Rightarrow> (bool \<times> logger \<times> lworld) option" where
  "logv level hdr msg tz now gw =
     (if level > lg_level (fst gw) then Some (False, gw)
      else do {
        (g, w) \<leftarrow> maybeRotate tz now gw;
        line \<leftarrow> log_line hdr msg;
        let fd = (if lg_fd g = - 1 then 1 else lg_fd g);
        let (err, w) = sys (LWrite fd line) w;
        let w = (if res_int err \<noteq> int (length line) then sys_drop (LStderr (cstr (lg_filename g))) w else w);
        let w = (if level \<le> LERROR then sys_drop (LSyslog (drop 27 line)) w else w);
        Some (if level = LFATAL then (True, g, sys_drop (LStderr line) w)
              else (False, g, if fd \<noteq> 1 then sys_drop (LStdout line) w else w))
      })"

section \<open>Properties of levels and lines\<close>

lemma setLogLevel_range: "LFATAL \<le> lg_level (setLogLevel n g) \<and> lg_level (setLogLevel n g) \<le> LALL"
  by (simp add: setLogLevel_def LALL_def LFATAL_def)

datatype level_op = SetLevel int | AdjustLevel int | NameLevel bytes

fun level_do :: "level_op \<Rightarrow> logger \<Rightarrow> logger" where
  "level_do (SetLevel n) g = setLogLevel n g"
| "level_do (AdjustLevel n) g = adjustLogLevel n g"
| "level_do (NameLevel s) g = setLogLevelName s g"

definition level_ok :: "logger \<Rightarrow> bool" where
  "level_ok g \<longleftrightarrow> LFATAL \<le> lg_level g \<and> lg_level g \<le> LALL"

lemma level_do_ok: "level_ok (level_do e g)"
  using setLogLevel_range by (cases e) (simp_all add: level_ok_def adjustLogLevel_def setLogLevelName_def Let_def)

lemma levels_ok: "level_ok g \<Longrightarrow> level_ok (fold level_do es g)"
  by (induction es arbitrary: g) (simp_all add: level_do_ok)

lemma logger_new_ok: "level_ok (logger_new now)"
  by (simp add: level_ok_def logger_new_def LFATAL_def LINFO_def LALL_def)

lemma name_index: "i < length levelStrs \<Longrightarrow> length (takeWhile (\<lambda>n. \<not> same_name n (levelStrs ! i)) levelStrs) = i"
proof -
  assume "i < length levelStrs"
  then have "i \<in> set [0..<9]" by (simp add: levelStrs_def)
  moreover have "list_all (\<lambda>i. length (takeWhile (\<lambda>n. \<not> same_name n (levelStrs ! i)) levelStrs) = i) [0..<9]"
    by code_simp
  ultimately show ?thesis by (simp add: list_all_iff)
qed

lemma level_do_rest: "lg_interval (level_do e g) = lg_interval g \<and> lg_filename (level_do e g) = lg_filename g"
  by (cases e) (simp_all add: adjustLogLevel_def setLogLevelName_def setLogLevel_def Let_def)

lemma levels_rest: "lg_interval (fold level_do es g) = lg_interval g"
  by (induction es arbitrary: g) (simp_all add: level_do_rest)

lemma own_name: "level_ok g \<Longrightarrow> setLogLevelName (getLogLevelStr g) g = g"
proof -
  assume ok: "level_ok g"
  then have "nat (lg_level g) < 9" unfolding level_ok_def LALL_def LFATAL_def by linarith
  moreover have "length levelStrs = 9" by (simp add: levelStrs_def)
  ultimately have "nat (lg_level g) < length levelStrs" by simp
  from name_index [OF this] this ok show ?thesis
    by (simp add: setLogLevelName_def getLogLevelStr_def setLogLevel_def level_ok_def LALL_def LFATAL_def Let_def)
qed

lemma adjust_wraps: "- (2 ^ 31) \<le> adj \<Longrightarrow> level_ok g \<Longrightarrow> lg_level g + adj < 0 \<Longrightarrow> lg_level (adjustLogLevel adj g) = LALL"
proof -
  assume a: "- (2 ^ 31) \<le> adj" "level_ok g" "lg_level g + adj < 0"
  then have "(lg_level g + adj + 2 ^ 32) mod 2 ^ 32 = lg_level g + adj + 2 ^ 32"
    by (intro mod_pos_pos_trivial) (simp_all add: level_ok_def LFATAL_def)
  then have "(lg_level g + adj) mod 2 ^ 32 = lg_level g + adj + 2 ^ 32" by simp
  with a show ?thesis by (simp add: adjustLogLevel_def setLogLevel_def level_ok_def LFATAL_def LALL_def)
qed

lemma strip_lf_append: "c \<noteq> LF \<Longrightarrow> strip_lf (a @ [c] @ replicate n LF) = a @ [c]"
  by (simp add: strip_lf_def dropWhile_append3)

lemma strip_lf_some: "c \<in> set t \<Longrightarrow> c \<noteq> LF \<Longrightarrow> strip_lf t \<noteq> []"
  by (auto simp: strip_lf_def)

lemma maybeRotate_runs: "lg_interval (fst gw) \<noteq> 0 \<Longrightarrow> \<exists>g' w'. maybeRotate tz now gw = Some (g', w')"
  by (auto simp: maybeRotate_def Let_def split_beta)

lemma log_line_runs:
  assumes "hdr \<noteq> []" and "LF \<notin> set hdr" and "length hdr \<le> 4000"
  shows "\<exists>line. log_line hdr msg = Some line"
proof -
  obtain c h where hdr: "hdr = c # h" using assms(1) by (cases hdr) auto
  have "c \<in> set (take 4094 (hdr @ msg))" "c \<noteq> LF" using hdr assms(2) by auto
  from strip_lf_some [OF this] show ?thesis using assms(3) by (simp add: log_line_def Let_def)
qed

text \<open>
  C31: The level of the logger stays between \<open>LFATAL\<close> and \<open>LALL\<close> whatever it is set to, by number, by
  name or by adjustment; its own name sets it again. So a fatal message is never filtered out: it is
  written and the process ends, which is what \<open>fatalif\<close> relies on. An adjustment below zero is not
  clamped to \<open>LFATAL\<close> but wraps around to \<open>LALL\<close>.
\<close>

theorem log_level_valid:
  assumes "g = fold level_do es (logger_new t)" and "length hdr \<le> 4000" and "hdr \<noteq> []" and "LF \<notin> set hdr"
  shows "LFATAL \<le> lg_level g \<and> lg_level g \<le> LALL \<and> setLogLevelName (getLogLevelStr g) g = g \<and>
    (- (2 ^ 31) \<le> adj \<and> lg_level g + adj < 0 \<longrightarrow> lg_level (adjustLogLevel adj g) = LALL) \<and>
    (\<exists>g' w' line. logv LFATAL hdr msg tz now (g, w) = Some (True, g', w') \<and> log_line hdr msg = Some line \<and>
      LStderr line \<in> set (w_trace w'))"
proof -
  have ok: "level_ok g" unfolding assms(1) by (rule levels_ok) (rule logger_new_ok)
  have "lg_interval g \<noteq> 0" by (simp add: assms(1) levels_rest logger_new_def)
  then obtain g' w' where r: "maybeRotate tz now (g, w) = Some (g', w')" using maybeRotate_runs [of "(g, w)" tz now] by auto
  obtain line where l: "log_line hdr msg = Some line" using log_line_runs [OF assms(3,4,2)] by blast
  have "\<not> LFATAL > lg_level g" using ok by (simp add: level_ok_def)
  then have "\<exists>g' w'. logv LFATAL hdr msg tz now (g, w) = Some (True, g', w') \<and> LStderr line \<in> set (w_trace w')"
    by (simp add: logv_def r l Let_def split_beta sys_drop_def)
  with l ok own_name [OF ok] adjust_wraps [OF _ ok] show ?thesis by (auto simp: level_ok_def)
qed

theorem log_level_valid_witness:
  "lg_level (adjustLogLevel (- 9) (fold level_do [NameLevel ''debug'', AdjustLevel 1, SetLevel 0] (logger_new 100))) = LALL"
proof -
  have l: "lg_level (fold level_do [NameLevel ''debug'', AdjustLevel 1, SetLevel 0] (logger_new 100)) = 1"
    by (simp add: setLogLevel_def LALL_def LFATAL_def)
  show ?thesis
    using log_level_valid [OF refl, of "''12:00 ''" "[NameLevel ''debug'', AdjustLevel 1, SetLevel 0]" 100 "- 9" "[]" 0 0 "world_new []"] l
    by simp
qed

text \<open>
  One message is one line. The line that is written, to the file or else to the standard output, is
  the head and the message without the line feeds at its end, as much of it as fits in 4094 bytes, and
  one line feed. With a file the line also goes to the standard output, and an error or worse goes
  to the system log without the 27 bytes of the time. A message above the level is dropped.
\<close>

theorem log_line_written:
  assumes "hdr \<noteq> []" and "LF \<notin> set hdr" and "length (hdr @ msg) < 4094" and "msg = text @ replicate n LF"
    and "text \<noteq> [] \<longrightarrow> last text \<noteq> LF" and "lg_filename g = []" and "LERROR < level" and "res_int r = int (length (hdr @ text @ [LF]))"
  shows "logv level hdr msg tz now (g, \<lparr>w_script = r # rs, w_trace = tr\<rparr>) = Some (False, g,
    if level > lg_level g then \<lparr>w_script = r # rs, w_trace = tr\<rparr>
    else \<lparr>w_script = rs, w_trace = tr @ LWrite (if lg_fd g = - 1 then 1 else lg_fd g) (hdr @ text @ [LF]) #
      (if lg_fd g \<in> {- 1, 1} then [] else [LStdout (hdr @ text @ [LF])])\<rparr>)"
proof -
  have "last hdr \<noteq> LF" using assms(1,2) last_in_set [of hdr] by metis
  then have "hdr @ text \<noteq> []" "last (hdr @ text) \<noteq> LF" using assms(1,5) by (simp_all add: last_append)
  then obtain a c where ac: "hdr @ text = a @ [c]" "c \<noteq> LF" by (metis append_butlast_last_id)
  have "take 4094 (hdr @ msg) = hdr @ msg" using assms(3) by simp
  moreover have "hdr @ msg = a @ [c] @ replicate n LF" using ac(1) assms(4) by (simp flip: append_assoc)
  ultimately have "strip_lf (take 4094 (hdr @ msg)) = hdr @ text" using strip_lf_append [OF ac(2), of a n] ac(1) by simp
  then have l: "log_line hdr msg = Some (hdr @ text @ [LF])"
    using assms(1,3) by (simp add: log_line_def Let_def)
  have "maybeRotate tz now (g, w) = Some (g, w)" for w using assms(6) by (simp add: maybeRotate_def)
  with l assms(7,8) show ?thesis by (simp add: logv_def sys_simps Let_def LERROR_def LFATAL_def)
qed

theorem log_line_written_witness:
  "logv 5 ''12:00 '' (''hello'' @ replicate 2 LF) 0 0 ((logger_new 0)\<lparr>lg_fd := 3\<rparr>, \<lparr>w_script = [Res 12], w_trace = []\<rparr>) =
     Some (False, (logger_new 0)\<lparr>lg_fd := 3\<rparr>, \<lparr>w_script = [], w_trace = [LWrite 3 (''12:00 hello'' @ [LF]), LStdout (''12:00 hello'' @ [LF])]\<rparr>)"
  using log_line_written [of "''12:00 ''" "''hello'' @ replicate 2 LF" "''hello''" 2 "(logger_new 0)\<lparr>lg_fd := 3\<rparr>" 5 "Res 12" 0 0 "[]" "[]"]
  by (simp add: logger_new_def LERROR_def LINFO_def sys_simps)

section \<open>Threads that rotate\<close>

text \<open>
  \<open>maybeRotate\<close> in several threads. A thread with its time looks at \<open>lastRotate_\<close>, writes it, exchanges
  \<open>realRotate_\<close> and looks at \<open>lastRotate_\<close> again; these are steps, only the exchange is atomic. \<open>ro_count\<close>
  counts the rotations.
\<close>

datatype rot_pc = RStart int | RSet int | RExchange int | RCheck int | RRotate | RDone

record rotation =
  ro_last :: int
  ro_real :: int
  ro_threads :: "rot_pc list"
  ro_count :: nat

definition rot_step :: "(int \<Rightarrow> int) \<Rightarrow> nat \<Rightarrow> rotation \<Rightarrow> rotation option" where
  "rot_step sl i s =
     (if i < length (ro_threads s)
      then
        let goto = (\<lambda>pc. (ro_threads s)[i := pc]) in
        case ro_threads s ! i of
          RStart now \<Rightarrow> Some (s\<lparr>ro_threads := goto (if sl now = sl (ro_last s) then RDone else RSet now)\<rparr>)
        | RSet now \<Rightarrow> Some (s\<lparr>ro_last := now, ro_threads := goto (RExchange now)\<rparr>)
        | RExchange now \<Rightarrow> Some (s\<lparr>ro_real := now, ro_threads := goto (RCheck (ro_real s))\<rparr>)
        | RCheck old \<Rightarrow> Some (s\<lparr>ro_threads := goto (if sl old = sl (ro_last s) then RDone else RRotate)\<rparr>)
        | RRotate \<Rightarrow> Some (s\<lparr>ro_count := ro_count s + 1, ro_threads := goto RDone\<rparr>)
        | RDone \<Rightarrow> None
      else None)"

definition rot_new :: "int \<Rightarrow> int list \<Rightarrow> rotation" where
  "rot_new t nows = \<lparr>ro_last = t, ro_real = t, ro_threads = map RStart nows, ro_count = 0\<rparr>"

primrec rot_run :: "(int \<Rightarrow> int) \<Rightarrow> nat list \<Rightarrow> rotation \<Rightarrow> rotation option" where
  "rot_run sl [] s = Some s"
| "rot_run sl (i # is) s = (case rot_step sl i s of None \<Rightarrow> None | Some s' \<Rightarrow> rot_run sl is s')"

text \<open>Threads whose times are all in one interval. \<open>winner\<close>: has the thread got the old value and not yet rotated?\<close>

definition winner :: "(int \<Rightarrow> int) \<Rightarrow> int \<Rightarrow> rot_pc \<Rightarrow> bool" where
  "winner sl k pc = (case pc of RCheck old \<Rightarrow> sl old \<noteq> k | RRotate \<Rightarrow> True | _ \<Rightarrow> False)"

definition pc_ok :: "(int \<Rightarrow> int) \<Rightarrow> int \<Rightarrow> rotation \<Rightarrow> rot_pc \<Rightarrow> bool" where
  "pc_ok sl k s pc =
     (case pc of RStart now \<Rightarrow> sl now = k | RSet now \<Rightarrow> sl now = k | RExchange now \<Rightarrow> sl now = k \<and> sl (ro_last s) = k
      | RCheck old \<Rightarrow> sl (ro_last s) = k \<and> sl (ro_real s) = k | RRotate \<Rightarrow> sl (ro_last s) = k \<and> sl (ro_real s) = k
      | RDone \<Rightarrow> sl (ro_last s) = k)"

definition rot_ok :: "(int \<Rightarrow> int) \<Rightarrow> int \<Rightarrow> rotation \<Rightarrow> bool" where
  "rot_ok sl k s \<longleftrightarrow> list_all (pc_ok sl k s) (ro_threads s) \<and>
     ro_count s + length (filter (winner sl k) (ro_threads s)) = (if sl (ro_real s) = k then 1 else 0) \<and>
     (sl (ro_last s) = k \<longrightarrow> sl (ro_real s) = k \<or> (\<exists>now. RExchange now \<in> set (ro_threads s)))"

lemma winner_update:
  "i < length ts \<Longrightarrow> length (filter P (ts[i := pc])) + (if P (ts ! i) then 1 else 0) = length (filter P ts) + (if P pc then 1 else 0)"
proof (induction ts arbitrary: i)
  case (Cons t ts)
  then show ?case by (cases i) auto
qed simp

lemma pc_ok_mono:
  "pc_ok sl k s pc \<Longrightarrow> (sl (ro_last s) = k \<longrightarrow> sl (ro_last s') = k) \<Longrightarrow> (sl (ro_real s) = k \<longrightarrow> sl (ro_real s') = k) \<Longrightarrow>
   pc_ok sl k s' pc"
  by (cases pc) (auto simp: pc_ok_def)

lemma rot_ok_put:
  assumes "rot_ok sl k s" and "i < length (ro_threads s)" and "ro_threads s' = (ro_threads s)[i := pc]"
    and "sl (ro_last s) = k \<longrightarrow> sl (ro_last s') = k" and "sl (ro_real s) = k \<longrightarrow> sl (ro_real s') = k" and "pc_ok sl k s' pc"
    and "ro_count s' + (if winner sl k pc then 1 else 0) + (if sl (ro_real s) = k then 1 else 0) =
      ro_count s + (if winner sl k (ro_threads s ! i) then 1 else 0) + (if sl (ro_real s') = k then 1 else 0)"
    and "sl (ro_last s') = k \<longrightarrow> sl (ro_real s') = k \<or> (\<exists>now. RExchange now \<in> set ((ro_threads s)[i := pc]))"
  shows "rot_ok sl k s'"
proof -
  have all: "\<forall>t \<in> set (ro_threads s). pc_ok sl k s' t"
    using assms(1) pc_ok_mono [OF _ assms(4,5)] by (auto simp: rot_ok_def list_all_iff)
  have "list_all (pc_ok sl k s') (ro_threads s')"
    using all assms(6) set_update_subset_insert [of "ro_threads s" i pc] by (auto simp: assms(3) list_all_iff)
  moreover have "ro_count s' + length (filter (winner sl k) (ro_threads s')) = (if sl (ro_real s') = k then 1 else 0)"
    using assms(1,7) winner_update [OF assms(2), of "winner sl k" pc] by (auto simp: assms(3) rot_ok_def split: if_splits)
  ultimately show ?thesis using assms(3,8) by (simp add: rot_ok_def)
qed

lemma rot_step_ok:
  assumes "rot_ok sl k s" and "rot_step sl i s = Some s'"
  shows "rot_ok sl k s'"
proof -
  have i: "i < length (ro_threads s)" using assms(2) by (auto simp: rot_step_def split: if_splits)
  let ?pc = "ro_threads s ! i"
  have pc: "pc_ok sl k s ?pc" using assms(1) i by (simp add: rot_ok_def list_all_length)
  have ex: "sl (ro_last s) = k \<longrightarrow> sl (ro_real s) = k \<or> (\<exists>now. RExchange now \<in> set (ro_threads s))" using assms(1) by (simp add: rot_ok_def)
  have keep: "RExchange now \<in> set ((ro_threads s)[i := x])" if "RExchange now \<in> set (ro_threads s)" "\<And>n. ?pc \<noteq> RExchange n" for now x
    using that by (metis in_set_conv_nth length_list_update nth_list_update_neq)
  note put = rot_ok_put [OF assms(1) i]
  show ?thesis
  proof (cases ?pc)
    case (RStart now)
    let ?n = "if sl now = sl (ro_last s) then RDone else RSet now"
    have s': "s' = s\<lparr>ro_threads := (ro_threads s)[i := ?n]\<rparr>"
      using assms(2) i RStart by (simp add: rot_step_def Let_def)
    show ?thesis
      by (rule put [of s' ?n]) (use pc ex keep RStart in \<open>auto simp: s' pc_ok_def winner_def\<close>)
  next
    case (RSet now)
    have s': "s' = s\<lparr>ro_last := now, ro_threads := (ro_threads s)[i := RExchange now]\<rparr>"
      using assms(2) i RSet by (simp add: rot_step_def Let_def)
    have "RExchange now \<in> set ((ro_threads s)[i := RExchange now])" using i by (rule set_update_memI)
    then show ?thesis
      by (intro put [of s' "RExchange now"]) (use pc RSet in \<open>auto simp: s' pc_ok_def winner_def\<close>)
  next
    case (RExchange now)
    have s': "s' = s\<lparr>ro_real := now, ro_threads := (ro_threads s)[i := RCheck (ro_real s)]\<rparr>"
      using assms(2) i RExchange by (simp add: rot_step_def Let_def)
    show ?thesis
      by (rule put [of s' "RCheck (ro_real s)"]) (use pc RExchange in \<open>auto simp: s' pc_ok_def winner_def\<close>)
  next
    case (RCheck old)
    let ?n = "if sl old = sl (ro_last s) then RDone else RRotate"
    have s': "s' = s\<lparr>ro_threads := (ro_threads s)[i := ?n]\<rparr>"
      using assms(2) i RCheck by (simp add: rot_step_def Let_def)
    show ?thesis
      by (rule put [of s' ?n]) (use pc ex keep RCheck in \<open>auto simp: s' pc_ok_def winner_def\<close>)
  next
    case RRotate
    have s': "s' = s\<lparr>ro_count := ro_count s + 1, ro_threads := (ro_threads s)[i := RDone]\<rparr>"
      using assms(2) i RRotate by (simp add: rot_step_def Let_def)
    show ?thesis
      by (rule put [of s' RDone]) (use pc ex keep RRotate in \<open>auto simp: s' pc_ok_def winner_def\<close>)
  qed (use assms(2) i in \<open>simp add: rot_step_def Let_def\<close>)
qed

lemma rot_run_ok: "rot_run sl is s = Some s' \<Longrightarrow> rot_ok sl k s \<Longrightarrow> rot_ok sl k s'"
  by (induction "is" arbitrary: s) (auto split: option.splits dest: rot_step_ok)

text \<open>
  C32: Threads that log at the same time rotate the file once. If the times of any number of threads fall
  into one interval, later than that of the last rotation, then in every interleaving at most one of
  them rotates, and when all have come through exactly one has. Threads with times of two intervals
  may rotate twice, the second time away from the file just made.
\<close>

theorem log_rotates_once:
  assumes "\<forall>now \<in> set nows. slot tz interval now = k" and "slot tz interval t \<noteq> k"
    and "rot_run (slot tz interval) is (rot_new t nows) = Some s"
  shows "ro_count s \<le> 1 \<and> (nows \<noteq> [] \<and> list_all (\<lambda>pc. pc = RDone) (ro_threads s) \<longrightarrow> ro_count s = 1)"
proof -
  let ?sl = "slot tz interval"
  have "rot_ok ?sl k (rot_new t nows)"
    using assms(1,2) by (auto simp: rot_ok_def rot_new_def list_all_iff pc_ok_def winner_def filter_map o_def)
  from rot_run_ok [OF assms(3) this] have ok: "rot_ok ?sl k s" .
  have len: "length (ro_threads s) = length nows"
  proof -
    have "length (ro_threads s') = length (ro_threads s)" if "rot_step sl i s = Some s'" for sl i s s'
      using that by (auto simp: rot_step_def Let_def split: if_splits rot_pc.splits)
    then have "length (ro_threads s') = length (ro_threads s)" if "rot_run sl is s = Some s'" for sl "is" s s'
      using that by (induction "is" arbitrary: s) (auto split: option.splits)
    from this [OF assms(3)] show ?thesis by (simp add: rot_new_def)
  qed
  have "ro_count s = 1" if "nows \<noteq> []" "list_all (\<lambda>pc. pc = RDone) (ro_threads s)"
  proof -
    have d: "\<forall>pc \<in> set (ro_threads s). pc = RDone" "ro_threads s \<noteq> []" using that len by (auto simp: list_all_iff)
    then obtain pc where "pc \<in> set (ro_threads s)" "pc = RDone" by (metis list.set_intros(1) neq_Nil_conv)
    then have "?sl (ro_last s) = k" using ok by (auto simp: rot_ok_def list_all_iff pc_ok_def)
    moreover have "RExchange now \<notin> set (ro_threads s)" for now using d(1) by auto
    ultimately have "?sl (ro_real s) = k" using ok by (auto simp: rot_ok_def)
    moreover have "filter (winner ?sl k) (ro_threads s) = []" using d(1) by (auto simp: winner_def filter_empty_conv)
    ultimately show ?thesis using ok by (simp add: rot_ok_def)
  qed
  moreover have "ro_count s \<le> 1" using ok by (auto simp: rot_ok_def split: if_splits)
  ultimately show ?thesis by blast
qed

theorem log_rotates_once_witness:
  "\<exists>s. rot_run (slot 0 10) [0, 1, 0, 1, 0, 1, 0, 1, 0] (rot_new 5 [12, 13]) = Some s \<and> ro_count s \<le> 1"
proof -
  have "\<exists>s. rot_run (slot 0 10) [0, 1, 0, 1, 0, 1, 0, 1, 0] (rot_new 5 [12, 13]) = Some s"
    by (simp add: rot_new_def rot_step_def slot_def Let_def)
  then obtain s where s: "rot_run (slot 0 10) [0, 1, 0, 1, 0, 1, 0, 1, 0] (rot_new 5 [12, 13]) = Some s" by blast
  have "\<forall>now \<in> set [12, 13]. slot 0 10 now = 1" "slot 0 10 5 \<noteq> 1" by (simp_all add: slot_def)
  from log_rotates_once [OF this s] s show ?thesis by blast
qed

text \<open>Two threads whose times are of different intervals: the one with the older time comes last and rotates again.\<close>

lemma log_rotates_twice:
  "\<exists>s. rot_run (slot 0 10) [0, 1, 1, 1, 1, 1, 0, 0, 0, 0] (rot_new 5 [12, 23]) = Some s \<and> ro_count s = 2"
  by (simp add: rot_new_def rot_step_def slot_def Let_def)

end
