(* ===== verification/Handy_Daemon.thy ===== *)
theory Handy_Daemon
  imports Handy_Sys
begin

text \<open>
  \<open>Daemon\<close> and \<open>Signal\<close> (\<open>handy/daemon.h\<close>, \<open>handy/daemon.cc\<close>) over scripted system calls. A function that
  may end the process gives \<open>Exits\<close> and the code instead of \<open>Returns\<close>; after \<open>fork\<close> the model goes on as
  the process that got the answer the script has, the child for 0.
\<close>

datatype daemon_call =
    OpenPid bytes | CreatePid bytes | LockFd int | ReadPid int nat | WritePid int bytes | ClosePid int
  | KillPid int int | GetPid | GetParent | Fork | SetSid | OpenNull | DupTo int int
  | UnlinkAtExit bytes | UnlinkPid bytes | USleep nat | ExecVp "bytes list" | WriteErr bytes

type_synonym dworld = "daemon_call world"

datatype outcome = Returns int | Exits int

definition SIGQUIT :: int where "SIGQUIT = 3"
definition EPERM :: int where "EPERM = 1"
definition ESRCH :: int where "ESRCH = 3"

section \<open>The pid file\<close>

text \<open>\<open>getpid\<close> is asked after the lock; the file is closed on every way out but the first.\<close>

definition writePidFile :: "bytes \<Rightarrow> dworld \<Rightarrow> int \<times> dworld" where
  "writePidFile pidfile w =
     (let (r, w) = sys (CreatePid pidfile) w; lfp = res_int r in
      if lfp < 0 then (- 1, w)
      else let (r, w) = sys (LockFd lfp) w in
      if res_int r < 0 then (- 1, w)
      else let (r, w) = sys GetPid w; str = show_int (res_int r) @ [LF]; (r, w) = sys (WritePid lfp str) w
           in (if res_int r \<noteq> int (length str) then - 1 else 0, sys_drop (ClosePid lfp) w))"

text \<open>\<open>junk\<close> is what the buffer of 64 bytes holds behind the bytes that were read.\<close>

definition pid_buffer :: "bytes \<Rightarrow> bytes \<Rightarrow> bytes" where
  "pid_buffer junk b = take 63 (b @ junk) @ [NUL]"

definition getPidFromFile :: "bytes \<Rightarrow> bytes \<Rightarrow> dworld \<Rightarrow> int \<times> dworld" where
  "getPidFromFile junk pidfile w =
     (let (r, w) = sys (OpenPid pidfile) w; lfp = res_int r in
      if lfp < 0 then (lfp, w)
      else let (r, w) = sys (ReadPid lfp 64) w; w = sys_drop (ClosePid lfp) w in
      if res_int r < 0 \<or> res_bytes 64 r = [] then (- 1, w)
      else (atoi (takeWhile (\<lambda>c. c \<noteq> LF) (cstr (pid_buffer junk (res_bytes 64 r)))), w))"

section \<open>Starting and stopping\<close>

definition daemonStart :: "bytes \<Rightarrow> bytes \<Rightarrow> dworld \<Rightarrow> outcome \<times> dworld" where
  "daemonStart junk pidfile w =
     (let (pid, w) = getPidFromFile junk pidfile w;
          (r, w) = (if pid > 0 then sys (KillPid pid 0) w else (Err 0, w)) in
      if pid > 0 \<and> (res_int r = 0 \<or> res_errno r = EPERM) then (Returns (- 1), w)
      else let (r, w) = sys GetParent w in
      if res_int r = 1 then (Returns (- 1), w)
      else let (r, w) = sys Fork w; pid = res_int r in
      if pid < 0 then (Returns (- 1), w)
      else if pid > 0 then (Exits 0, w)
      else let w = sys_drop SetSid w; (r, w) = writePidFile pidfile w in
      if r \<noteq> 0 then (Returns r, w)
      else let (r, w) = sys OpenNull w; fd = res_int r in
      if fd \<ge> 0
      then (Returns 0, sys_drop (UnlinkAtExit pidfile) (sys_drop (ClosePid fd) (sys_drop (DupTo fd 1)
              (sys_drop (DupTo fd 0) (sys_drop (ClosePid 0) w)))))
      else (Returns (- 1), w))"

text \<open>The loop of \<open>daemonStop\<close>, with \<open>n\<close> turns left.\<close>

fun stop_loop :: "nat \<Rightarrow> int \<Rightarrow> bytes \<Rightarrow> dworld \<Rightarrow> int \<times> dworld" where
  "stop_loop 0 pid pidfile w = (- 1, w)"
| "stop_loop (Suc n) pid pidfile w =
     (let (r, w) = sys (KillPid pid SIGQUIT) (sys_drop (USleep 10000) w)
      in if res_int r \<noteq> 0 then (0, sys_drop (UnlinkPid pidfile) w) else stop_loop n pid pidfile w)"

definition daemonStop :: "bytes \<Rightarrow> bytes \<Rightarrow> dworld \<Rightarrow> int \<times> dworld" where
  "daemonStop junk pidfile w =
     (let (pid, w) = getPidFromFile junk pidfile w in
      if pid \<le> 0 then (- 1, w)
      else let (r, w) = sys (KillPid pid SIGQUIT) w in
      if res_int r < 0 then (res_int r, w) else stop_loop 300 pid pidfile w)"

text \<open>Each reading of the file has its own junk.\<close>

definition daemonRestart :: "bytes \<Rightarrow> bytes \<Rightarrow> bytes \<Rightarrow> bytes \<Rightarrow> dworld \<Rightarrow> outcome \<times> dworld" where
  "daemonRestart junk1 junk2 junk3 pidfile w =
     (let (pid, w) = getPidFromFile junk1 pidfile w in
      if pid > 0
      then let (r, w) = sys (KillPid pid 0) w in
        if res_int r = 0
        then let (r, w) = daemonStop junk2 pidfile w
             in if r < 0 then (Returns r, w) else daemonStart junk3 pidfile w
        else if res_errno r = EPERM then (Returns (- 1), w)
        else daemonStart junk3 pidfile w
      else daemonStart junk3 pidfile w)"

text \<open>No command is \<open>start\<close>. \<open>Returns\<close> is the daemon itself, which goes on.\<close>

definition daemonProcess :: "bytes \<Rightarrow> bytes \<Rightarrow> bytes \<Rightarrow> bytes option \<Rightarrow> bytes \<Rightarrow> dworld \<Rightarrow> outcome \<times> dworld" where
  "daemonProcess junk1 junk2 junk3 cmd pidfile w =
     (let (res, w) =
        (if cmd = None \<or> cmd = Some ''start'' then daemonStart junk1 pidfile w
         else if cmd = Some ''stop''
         then let (r, w) = daemonStop junk1 pidfile w in (if r = 0 then Exits 0 else Returns r, w)
         else if cmd = Some ''restart'' then daemonRestart junk1 junk2 junk3 pidfile w
         else (Returns (- 1), w))
      in (case res of Exits n \<Rightarrow> Exits n | Returns r \<Rightarrow> if r \<noteq> 0 then Exits 1 else Returns r, w))"

section \<open>changeTo and signals\<close>

function wait_parent :: "int \<Rightarrow> dworld \<Rightarrow> sysres \<times> dworld" where
  "wait_parent pid w =
     (let (r, w') = sys (KillPid pid 0) w
      in if res_int r = 0 then wait_parent pid (sys_drop (USleep 10000) w') else (r, w'))"
  by pat_completeness auto

termination
proof (relation "measure (\<lambda>(pid, w). length (w_script w))")
  fix pid and w :: dworld and x r w'
  assume x: "x = sys (KillPid pid 0) w" "(r, w') = x" "res_int r = 0"
  then have "w_script w \<noteq> []" by (auto simp: sys_def res_int_def)
  with x show "((pid, sys_drop (USleep 10000) w'), (pid, w)) \<in> measure (\<lambda>(pid, w). length (w_script w))"
    using sys_measure [of "KillPid pid 0" w r w'] by (simp add: sys_drop_def)
qed simp

declare wait_parent.simps [simp del]

text \<open>A successful \<open>execvp\<close> does not come back; here it is the last call.\<close>

definition changeTo :: "bytes list \<Rightarrow> dworld \<Rightarrow> outcome \<times> dworld" where
  "changeTo argv w =
     (let (p, w) = sys GetPid w; (r, w) = sys Fork w in
      if res_int r \<noteq> 0 then (Returns 0, w)
      else let (r, w) = wait_parent (res_int p) w in
      if res_errno r \<noteq> ESRCH then (Exits 1, sys_drop (WriteErr (''kill error'' @ [LF])) w)
      else (Returns 0, sys_drop (ExecVp argv) w))"

text \<open>\<open>handlers[sig]\<close> of a signal without a handler makes an empty function, whose call throws.\<close>

definition signal_set :: "int \<Rightarrow> ('s \<Rightarrow> 's) \<Rightarrow> (int \<times> ('s \<Rightarrow> 's)) list \<Rightarrow> (int \<times> ('s \<Rightarrow> 's)) list" where
  "signal_set sig f hs = map_put sig f hs"

definition signal_handler :: "(int \<times> ('s \<Rightarrow> 's)) list \<Rightarrow> int \<Rightarrow> 's \<Rightarrow> 's option" where
  "signal_handler hs sig s = (case map_of hs sig of None \<Rightarrow> None | Some f \<Rightarrow> Some (f s))"

section \<open>The pid file read back\<close>

lemma show_nat_plain: "c \<in> set (show_nat n) \<Longrightarrow> c \<noteq> NUL \<and> c \<noteq> LF"
  using show_nat_digits [of n] by (auto simp: isdigit_def)

lemma pid_text:
  assumes "0 < pid" and "pid < 2 ^ 31"
  shows "length (show_int pid) \<le> 10" and "atoi (show_int pid) = pid" and "\<forall>c \<in> set (show_int pid). c \<noteq> NUL \<and> c \<noteq> LF"
proof -
  have s: "show_int pid = show_nat (nat pid)" using assms(1) by (simp add: show_int_def)
  have "nat pid < 10 ^ 10" using assms by simp
  then show "length (show_int pid) \<le> 10" using length_show_nat [of "nat pid" 10] s by simp
  have "nat pid < 2 ^ 31" using assms by (simp add: nat_less_iff)
  from atoi_show_nat [OF this, of "[]"] show "atoi (show_int pid) = pid" using assms(1) s by simp
  show "\<forall>c \<in> set (show_int pid). c \<noteq> NUL \<and> c \<noteq> LF" using show_nat_plain s by auto
qed

lemma pid_buffer_read:
  assumes "0 < pid" and "pid < 2 ^ 31"
  shows "atoi (takeWhile (\<lambda>c. c \<noteq> LF) (cstr (pid_buffer junk (show_int pid @ [LF])))) = pid"
proof -
  note t = pid_text [OF assms]
  let ?r = "take (62 - length (show_int pid)) junk @ [NUL]"
  have e: "pid_buffer junk (show_int pid @ [LF]) = (show_int pid @ [LF]) @ ?r"
    using t(1) by (simp add: pid_buffer_def take_Cons' Suc_diff_le)
  have c: "cstr ((show_int pid @ [LF]) @ ?r) = (show_int pid @ [LF]) @ cstr ?r" using t(3) by (intro cstr_prefix) auto
  have "LF \<notin> set (show_int pid)" using t(3) by blast
  then have "takeWhile (\<lambda>c. c \<noteq> LF) (show_int pid @ LF # cstr ?r) = show_int pid" by (rule takeWhile_neq)
  then have "takeWhile (\<lambda>c. c \<noteq> LF) (cstr (pid_buffer junk (show_int pid @ [LF]))) = show_int pid"
    unfolding e c by simp
  then show ?thesis using t(2) by simp
qed

text \<open>
  The pid file round trip. What \<open>writePidFile\<close> puts into the file is read back by \<open>getPidFromFile\<close> as the
  same pid, whatever the unset part of its buffer holds. The trace shows that the lock is gone before
  \<open>writePidFile\<close> returns, as closing the descriptor releases it.
\<close>

theorem pid_file_roundtrip:
  assumes "0 < pid" and "pid < 2 ^ 31" and "0 \<le> lf" and "0 \<le> fd"
  shows "writePidFile f (world_new (Res lf # Res 0 # Res pid # Res (int (length (show_int pid @ [LF]))) # rs)) =
      (0, \<lparr>w_script = rs, w_trace = [CreatePid f, LockFd lf, GetPid, WritePid lf (show_int pid @ [LF]), ClosePid lf]\<rparr>) \<and>
    getPidFromFile junk f (world_new (Res fd # Got (show_int pid @ [LF]) # rs)) =
      (pid, \<lparr>w_script = rs, w_trace = [OpenPid f, ReadPid fd 64, ClosePid fd]\<rparr>)"
proof -
  have "take 64 (show_int pid @ [LF]) = show_int pid @ [LF]" using pid_text(1) [OF assms(1,2)] by simp
  then show ?thesis
    using assms(3,4) pid_buffer_read [OF assms(1,2), of junk]
    by (simp add: writePidFile_def getPidFromFile_def sys_simps del: append_Cons)
qed

theorem pid_file_roundtrip_witness:
  "fst (getPidFromFile ''99'' ''p'' (world_new (Res 3 # Got (show_int 41 @ [LF]) # []))) = 41"
  using pid_file_roundtrip [of 41 0 3 "''p''" "[]" "''99''"] by simp

section \<open>Stopping\<close>

definition stop_calls :: "int \<Rightarrow> nat \<Rightarrow> daemon_call list" where
  "stop_calls pid n = concat (replicate n [USleep 10000, KillPid pid SIGQUIT])"

lemma stop_loop_gone:
  "k < n \<Longrightarrow> stop_loop n pid f \<lparr>w_script = replicate k (Res 0) @ Err e # rs, w_trace = tr\<rparr> =
     (0, \<lparr>w_script = rs, w_trace = tr @ stop_calls pid (Suc k) @ [UnlinkPid f]\<rparr>)"
proof (induction k arbitrary: n tr)
  case 0
  then show ?case by (cases n) (simp_all add: sys_simps stop_calls_def)
next
  case (Suc k)
  then obtain m where "n = Suc m" "k < m" by (cases n) auto
  then show ?case using Suc.IH [of m "tr @ [USleep 10000, KillPid pid SIGQUIT]"] by (simp add: sys_simps stop_calls_def)
qed

lemma stop_loop_stays:
  "stop_loop n pid f \<lparr>w_script = replicate n (Res 0) @ rs, w_trace = tr\<rparr> =
     (- 1, \<lparr>w_script = rs, w_trace = tr @ stop_calls pid n\<rparr>)"
proof (induction n arbitrary: tr)
  case (Suc n)
  then show ?case using Suc.IH [of "tr @ [USleep 10000, KillPid pid SIGQUIT]"] by (simp add: sys_simps stop_calls_def)
qed (simp add: stop_calls_def)

lemma getPid_reads:
  "0 < pid \<Longrightarrow> pid < 2 ^ 31 \<Longrightarrow> 0 \<le> fd \<Longrightarrow>
   getPidFromFile junk f \<lparr>w_script = Res fd # Got (show_int pid @ [LF]) # rs, w_trace = tr\<rparr> =
     (pid, \<lparr>w_script = rs, w_trace = tr @ [OpenPid f, ReadPid fd 64, ClosePid fd]\<rparr>)"
proof -
  assume a: "0 < pid" "pid < 2 ^ 31" "0 \<le> fd"
  have "take 64 (show_int pid @ [LF]) = show_int pid @ [LF]" using pid_text(1) [OF a(1,2)] by simp
  then show ?thesis using a(3) pid_buffer_read [OF a(1,2), of junk] by (simp add: getPidFromFile_def sys_simps del: append_Cons)
qed

definition read_pid :: "bytes \<Rightarrow> int \<Rightarrow> daemon_call list" where
  "read_pid f fd = [OpenPid f, ReadPid fd 64, ClosePid fd]"

text \<open>
  C33: \<open>daemonStop\<close> of a running process asks it to quit and then once every 10 ms: it succeeds and
  removes the pid file as soon as a signal cannot be delivered any more, within 300 turns, and fails with
  the file kept when the process is still there after them. If the first signal cannot be delivered it
  fails at once and keeps the file. The same file keeps \<open>daemonStart\<close> from starting a second process,
  also when the signal is refused for lack of permission.
\<close>

theorem daemon_stop_outcomes:
  assumes "0 < pid" and "pid < 2 ^ 31" and "0 \<le> fd"
  shows "(\<forall>k < 300. daemonStop junk f (world_new (Res fd # Got (show_int pid @ [LF]) # Res 0 # replicate k (Res 0) @ Err e # rs)) =
      (0, \<lparr>w_script = rs, w_trace = read_pid f fd @ KillPid pid SIGQUIT # stop_calls pid (Suc k) @ [UnlinkPid f]\<rparr>)) \<and>
    daemonStop junk f (world_new (Res fd # Got (show_int pid @ [LF]) # Res 0 # replicate 300 (Res 0) @ rs)) =
      (- 1, \<lparr>w_script = rs, w_trace = read_pid f fd @ KillPid pid SIGQUIT # stop_calls pid 300\<rparr>) \<and>
    daemonStop junk f (world_new (Res fd # Got (show_int pid @ [LF]) # Err e # rs)) =
      (- 1, \<lparr>w_script = rs, w_trace = read_pid f fd @ [KillPid pid SIGQUIT]\<rparr>) \<and>
    (\<forall>r \<in> {Res 0, Err EPERM}. daemonStart junk f (world_new (Res fd # Got (show_int pid @ [LF]) # r # rs)) =
      (Returns (- 1), \<lparr>w_script = rs, w_trace = read_pid f fd @ [KillPid pid 0]\<rparr>))"
proof -
  note g = getPid_reads [OF assms]
  have s: "daemonStop junk f (world_new (Res fd # Got (show_int pid @ [LF]) # r # rs)) =
      (if res_int r < 0 then (res_int r, \<lparr>w_script = rs, w_trace = read_pid f fd @ [KillPid pid SIGQUIT]\<rparr>)
       else stop_loop 300 pid f \<lparr>w_script = rs, w_trace = read_pid f fd @ [KillPid pid SIGQUIT]\<rparr>)" for r rs
    using assms(1) by (simp add: daemonStop_def world_new_def g sys_simps read_pid_def del: stop_loop.simps)
  have t: "daemonStart junk f (world_new (Res fd # Got (show_int pid @ [LF]) # r # rs)) =
      (Returns (- 1), \<lparr>w_script = rs, w_trace = read_pid f fd @ [KillPid pid 0]\<rparr>)" if "r \<in> {Res 0, Err EPERM}" for r
    using assms(1) that by (auto simp: daemonStart_def world_new_def g sys_simps read_pid_def EPERM_def)
  show ?thesis
    using t stop_loop_gone [of _ 300 pid f e rs "read_pid f fd @ [KillPid pid SIGQUIT]"]
      stop_loop_stays [of 300 pid f rs "read_pid f fd @ [KillPid pid SIGQUIT]"]
    by (simp add: s res_simps del: stop_loop.simps)
qed

theorem daemon_stop_outcomes_witness:
  "fst (daemonStop [] ''p'' (world_new (Res 3 # Got (show_int 41 @ [LF]) # Res 0 # replicate 2 (Res 0) @ [Err 3]))) = 0"
proof -
  have p: "(0::int) < 41" "(41::int) < 2 ^ 31" "(0::int) \<le> 3" and k: "(2::nat) < 300" by simp_all
  note stop = daemon_stop_outcomes [OF p, of "[]" "''p''" 3 "[]", THEN conjunct1]
  from stop [rule_format, OF k] show ?thesis by simp
qed

end
