(* ===== verification/Handy_Proto.thy ===== *)
theory Handy_Proto
  imports Handy_Net "HOL-Library.Monad_Syntax"
begin

text \<open>
  Protobuf messages (\<open>protobuf/proto_msg.h\<close>, \<open>protobuf/proto_msg.cc\<close>): the frame of a message in a
  buffer and the dispatch by type. The protobuf library is a parameter: the name of a message's type,
  its bytes, and for a name and bytes either no such type, or bytes that do not parse, or a message.
\<close>

record 'm protobuf =
  pb_name :: "'m \<Rightarrow> bytes"
  pb_bytes :: "'m \<Rightarrow> bytes"
  pb_known :: "bytes \<Rightarrow> bool"
  pb_parse :: "bytes \<Rightarrow> bytes \<Rightarrow> 'm option"

text \<open>The length counts itself; name and data follow. Values are in the host's byte order.\<close>

definition proto_encode :: "'m protobuf \<Rightarrow> 'm \<Rightarrow> buffer \<Rightarrow> buffer" where
  "proto_encode pb msg buf =
     (let offset = buf_size buf;
          buf = buf_append (store32 0) buf;
          typeName = pb_name pb msg;
          buf = buf_append (store32 (word_of_nat (length typeName))) buf;
          buf = buf_append typeName buf;
          buf = buf_append (pb_bytes pb msg) buf
      in buf_store (bf_b buf + offset) (store32 (word_of_nat (buf_size buf - offset))) buf)"

definition msgComplete :: "buffer \<Rightarrow> bool" where
  "msgComplete buf \<longleftrightarrow> buf_size buf \<ge> 4 \<and> buf_size buf \<ge> unat (load32 (buf_str buf) 0)"

text \<open>
  \<open>None\<close> is a read behind the bytes of the buffer or a negative length for \<open>ParseFromArray\<close>; the message
  is \<open>None\<close> for a null pointer. Sums and differences are of \<open>uint32_t\<close>.
\<close>

definition proto_decode :: "'m protobuf \<Rightarrow> buffer \<Rightarrow> ('m option \<times> buffer) option" where
  "proto_decode pb s =
     (if buf_size s < 8 then Some (None, s)
      else
        let p = buf_str s; msglen = load32 p 0; namelen = load32 p 4 in
        if buf_size s < unat msglen \<or> buf_size s < unat (4 + namelen) then Some (None, s)
        else if length p < 8 + unat namelen then None
        else
          let typeName = take (unat namelen) (drop 8 p); n = sint (msglen - 8 - namelen) in
          if \<not> pb_known pb typeName then Some (None, s)
          else if n < 0 \<or> length p < 8 + unat namelen + nat n then None
          else case pb_parse pb typeName (take (nat n) (drop (8 + unat namelen) p)) of
              Some msg \<Rightarrow> Some (Some msg, buf_consume (unat msglen) s)
            | None \<Rightarrow> Some (None, s))"

section \<open>ProtoMsgDispatcher\<close>

text \<open>A descriptor is known by its full name. A message without a callback is only logged.\<close>

type_synonym ('c, 'm) dispatcher = "(bytes \<times> ('c \<Rightarrow> 'm \<Rightarrow> 'c option)) list"

definition proto_onMsg :: "bytes \<Rightarrow> ('c \<Rightarrow> 'm \<Rightarrow> 'c option) \<Rightarrow> ('c, 'm) dispatcher \<Rightarrow> ('c, 'm) dispatcher" where
  "proto_onMsg descriptor cb d = map_put descriptor cb d"

definition proto_handle :: "'m protobuf \<Rightarrow> ('c, 'm) dispatcher \<Rightarrow> 'c \<Rightarrow> 'm \<Rightarrow> 'c option" where
  "proto_handle pb d con msg = (case map_of d (pb_name pb msg) of None \<Rightarrow> Some con | Some cb \<Rightarrow> cb con msg)"

section \<open>Frames\<close>

definition proto_frame :: "'m protobuf \<Rightarrow> 'm \<Rightarrow> bytes" where
  "proto_frame pb msg =
     store32 (word_of_nat (8 + length (pb_name pb msg) + length (pb_bytes pb msg))) @
     store32 (word_of_nat (length (pb_name pb msg))) @ pb_name pb msg @ pb_bytes pb msg"

lemma length_proto_frame: "length (proto_frame pb msg) = 8 + length (pb_name pb msg) + length (pb_bytes pb msg)"
  by (simp add: proto_frame_def)

lemma proto_encode_frame:
  assumes "buf_ok b"
  shows "buf_ok (proto_encode pb msg b)" and "buf_str (proto_encode pb msg b) = buf_str b @ proto_frame pb msg"
proof -
  let ?q = "buf_append (pb_bytes pb msg) (buf_append (pb_name pb msg) (buf_append (store32 (word_of_nat (length (pb_name pb msg)))) (buf_append (store32 0) b)))"
  have q: "buf_ok ?q" "buf_str ?q = buf_str b @ store32 0 @ store32 (word_of_nat (length (pb_name pb msg))) @ pb_name pb msg @ pb_bytes pb msg"
    using assms by simp_all
  then have size: "buf_size ?q = buf_size b + (8 + length (pb_name pb msg) + length (pb_bytes pb msg))"
    using assms by (simp add: buf_size_str)
  have e: "proto_encode pb msg b = buf_store (bf_b ?q + buf_size b) (store32 (word_of_nat (buf_size ?q - buf_size b))) ?q"
    by (simp add: proto_encode_def Let_def)
  have le: "buf_size b + length (store32 (word_of_nat (buf_size ?q - buf_size b))) \<le> buf_size ?q" using size by simp
  have d: "drop (buf_size b) (buf_str b) = []" "take (buf_size b) (buf_str b) = buf_str b" using assms by (simp_all add: buf_size_str)
  have "drop (buf_size b + 4) (buf_str ?q) = store32 (word_of_nat (length (pb_name pb msg))) @ pb_name pb msg @ pb_bytes pb msg"
    unfolding q(2) by (simp add: buf_size_str assms)
  moreover have "take (buf_size b) (buf_str ?q) = buf_str b" unfolding q(2) by (simp add: buf_size_str assms)
  ultimately show "buf_str (proto_encode pb msg b) = buf_str b @ proto_frame pb msg"
    using buf_store_at [OF q(1) le] size by (simp add: e proto_frame_def)
  show "buf_ok (proto_encode pb msg b)" using buf_store_at [OF q(1) le] by (simp add: e)
qed

lemma frame_loads:
  assumes "p = proto_frame pb msg @ rest"
  shows "load32 p 0 = word_of_nat (8 + length (pb_name pb msg) + length (pb_bytes pb msg))"
    and "load32 p 4 = word_of_nat (length (pb_name pb msg))"
  using load32_store32_offset [of "[]" 0 "word_of_nat (8 + length (pb_name pb msg) + length (pb_bytes pb msg))"
      "store32 (word_of_nat (length (pb_name pb msg))) @ pb_name pb msg @ pb_bytes pb msg @ rest"]
    load32_store32_offset [of "store32 (word_of_nat (8 + length (pb_name pb msg) + length (pb_bytes pb msg)))" 4
      "word_of_nat (length (pb_name pb msg))" "pb_name pb msg @ pb_bytes pb msg @ rest"]
  by (simp_all add: assms proto_frame_def)

lemma load32_prefix: "p + 4 \<le> length a \<Longrightarrow> load32 (a @ b) p = load32 a p"
  by (simp add: load32_def nth_append)

lemma unat_small: "n < 2 ^ 31 \<Longrightarrow> unat (word_of_nat n :: 32 word) = n"
  by (simp add: unsigned_of_nat take_bit_nat_eq_self)

lemma proto_decode_frame:
  assumes "buf_ok b" and "buf_str b = proto_frame pb msg @ rest" and "length (proto_frame pb msg) < 2 ^ 31"
    and "pb_known pb (pb_name pb msg)" and "pb_parse pb (pb_name pb msg) (pb_bytes pb msg) = Some msg"
  shows "proto_decode pb b = Some (Some msg, buf_consume (length (proto_frame pb msg)) b)"
proof -
  let ?nl = "length (pb_name pb msg)" and ?dl = "length (pb_bytes pb msg)"
  note ld = frame_loads [OF assms(2)]
  have lt: "8 + ?nl + ?dl < 2 ^ 31" using assms(3) by (simp add: length_proto_frame)
  have u: "unat (word_of_nat (8 + ?nl + ?dl) :: 32 word) = 8 + ?nl + ?dl" "unat (word_of_nat ?nl :: 32 word) = ?nl"
    by (rule unat_small, use lt in simp)+
  have u4: "unat (4 + word_of_nat ?nl :: 32 word) = 4 + ?nl"
    using unat_small [of "4 + ?nl"] lt by simp
  have "(word_of_nat (8 + ?nl + ?dl) - 8 - word_of_nat ?nl :: 32 word) = word_of_nat ?dl" by simp
  moreover have "sint (word_of_nat ?dl :: 32 word) = int ?dl"
    using lt by (simp add: signed_of_nat signed_take_bit_int_eq_self)
  ultimately have n: "sint (word_of_nat (8 + ?nl + ?dl) - 8 - word_of_nat ?nl :: 32 word) = int ?dl" by simp
  have size: "buf_size b = 8 + ?nl + ?dl + length rest"
    using assms(1,2) by (simp add: buf_size_str length_proto_frame)
  have len: "length (buf_str b) = 8 + ?nl + ?dl + length rest" using assms(2) by (simp add: length_proto_frame)
  have parts: "take ?nl (drop 8 (buf_str b)) = pb_name pb msg" "take ?dl (drop (8 + ?nl) (buf_str b)) = pb_bytes pb msg"
    by (simp_all add: assms(2) proto_frame_def)
  show ?thesis
    unfolding proto_decode_def Let_def ld u u4 n size len
    using parts assms(4,5) by (simp add: length_proto_frame)
qed

lemma sint_of_range: "- (2 ^ 31) \<le> k \<Longrightarrow> k < 2 ^ 31 \<Longrightarrow> sint (word_of_int k :: 32 word) = k"
  by (simp add: signed_of_int signed_take_bit_int_eq_self)

lemma word_wraps:
  fixes v :: "32 word"
  assumes "2 ^ 32 - 4 \<le> uint v"
  shows "unat (4 + v) < 4"
proof -
  have four: "uint (4 :: 32 word) = 4" by simp
  have "uint v < 2 ^ 32" using uint_lt2p [of v] by simp
  moreover have "uint (4 + v) = (if 4 + uint v < 2 ^ 32 then 4 + uint v else 4 + uint v - 2 ^ 32)"
    using uint_plus_if' [of 4 v] unfolding four by simp
  ultimately have "uint (4 + v) < 4" using assms by (simp split: if_splits)
  then show ?thesis unfolding unat_eq_nat_uint by linarith
qed

section \<open>Properties\<close>

text \<open>
  C30: Protobuf frames. \<open>encode\<close> appends one frame to whatever the buffer holds. A buffer that begins with
  a frame is complete, and \<open>decode\<close> gives the message back and takes exactly the frame; no proper part of
  the frame is complete. The frame is shorter than \<open>2^31\<close> bytes.
\<close>

theorem proto_roundtrip:
  assumes "pb_known pb (pb_name pb msg)" and "pb_parse pb (pb_name pb msg) (pb_bytes pb msg) = Some msg"
    and "length (proto_frame pb msg) < 2 ^ 31" and "buf_ok b" and "buf_ok s" and "buf_str s = proto_frame pb msg @ rest"
    and "buf_ok t" and "k < length (proto_frame pb msg)" and "buf_str t = take k (proto_frame pb msg)"
  shows "buf_str (proto_encode pb msg b) = buf_str b @ proto_frame pb msg \<and>
    msgComplete s \<and> (\<exists>s'. proto_decode pb s = Some (Some msg, s') \<and> buf_ok s' \<and> buf_str s' = rest) \<and>
    \<not> msgComplete t"
proof -
  let ?n = "8 + length (pb_name pb msg) + length (pb_bytes pb msg)"
  have u: "unat (word_of_nat ?n :: 32 word) = ?n" using assms(3) by (intro unat_small) (simp add: length_proto_frame)
  have "buf_size s = ?n + length rest" using assms(5,6) by (simp add: buf_size_str length_proto_frame)
  then have s: "msgComplete s" using frame_loads(1) [OF assms(6)] u by (simp add: msgComplete_def)
  have "length (proto_frame pb msg) \<le> length (buf_str s)" using assms(6) by simp
  from buf_consume_ok [OF assms(5) this] assms(6)
  have d: "\<exists>s'. proto_decode pb s = Some (Some msg, s') \<and> buf_ok s' \<and> buf_str s' = rest"
    using proto_decode_frame [OF assms(5,6,3,1,2)] by simp
  have t: "buf_size t = k" using assms(7,8,9) by (simp add: buf_size_str)
  have "\<not> msgComplete t"
  proof (cases "4 \<le> k")
    case True
    have "load32 (take k (proto_frame pb msg) @ drop k (proto_frame pb msg)) 0 = load32 (buf_str t) 0"
      using True assms(8,9) by (subst load32_prefix) simp_all
    then have "load32 (buf_str t) 0 = word_of_nat ?n" using frame_loads(1) [of "proto_frame pb msg" pb msg "[]"] by simp
    then show ?thesis using t assms(8) u by (simp add: msgComplete_def length_proto_frame)
  qed (simp add: msgComplete_def t)
  with s d proto_encode_frame(2) [OF assms(4), of pb msg] show ?thesis by blast
qed

definition text_proto :: "bytes protobuf" where
  "text_proto = \<lparr>pb_name = (\<lambda>m. ''Text''), pb_bytes = (\<lambda>m. m), pb_known = (\<lambda>n. n = ''Text''), pb_parse = (\<lambda>n b. Some b)\<rparr>"

theorem proto_roundtrip_witness:
  "\<exists>s'. proto_decode text_proto (buf_append ''more'' (proto_encode text_proto ''hello'' buf_new)) = Some (Some ''hello'', s') \<and>
     buf_str s' = ''more''"
proof -
  let ?s = "buf_append ''more'' (proto_encode text_proto ''hello'' buf_new)"
  let ?t = "buf_append (take 5 (proto_frame text_proto ''hello'')) buf_new"
  have p: "pb_known text_proto (pb_name text_proto ''hello'')"
    "pb_parse text_proto (pb_name text_proto ''hello'') (pb_bytes text_proto ''hello'') = Some ''hello''"
    by (simp_all add: text_proto_def)
  have l: "length (proto_frame text_proto ''hello'') = 17" by (simp add: length_proto_frame text_proto_def)
  have s: "buf_ok ?s" "buf_str ?s = proto_frame text_proto ''hello'' @ ''more''"
    using proto_encode_frame [OF buf_ok_new, of text_proto "''hello''"] by simp_all
  have t: "buf_ok ?t" "buf_str ?t = take 5 (proto_frame text_proto ''hello'')" by simp_all
  from proto_roundtrip [OF p _ buf_ok_new s t(1) _ t(2)] l show ?thesis by auto
qed

text \<open>
  \<open>decode\<close> reads behind the received bytes. The length of the name is checked against the size less 4,
  but the name starts at offset 8: with a name length above \<open>size - 8\<close> and up to \<open>size - 4\<close>, or one within
  4 of \<open>2^32\<close>, where the sum wraps around, the name is taken from outside. A total length that does not
  even hold the head and the name of a known type becomes a negative length of the data.
\<close>

theorem proto_overreads:
  assumes "buf_ok b" and "8 \<le> buf_size b" and "unat (load32 (buf_str b) 0) \<le> buf_size b" and "int (buf_size b) < 2 ^ 31"
  shows "(buf_size b < 8 + unat (load32 (buf_str b) 4) \<and>
      (4 + unat (load32 (buf_str b) 4) \<le> buf_size b \<or> 2 ^ 32 - 4 \<le> uint (load32 (buf_str b) 4)) \<longrightarrow> proto_decode pb b = None) \<and>
    (8 + unat (load32 (buf_str b) 4) \<le> buf_size b \<and> unat (load32 (buf_str b) 0) < 8 + unat (load32 (buf_str b) 4) \<and>
      pb_known pb (take (unat (load32 (buf_str b) 4)) (drop 8 (buf_str b))) \<longrightarrow> proto_decode pb b = None)"
proof -
  let ?v = "load32 (buf_str b) 4" and ?m = "load32 (buf_str b) 0" and ?n = "buf_size b"
  have len: "length (buf_str b) = ?n" by (rule buf_size_str [OF assms(1), symmetric])
  have sum: "unat (4 + ?v) = 4 + unat ?v" if "4 + unat ?v \<le> ?n"
  proof -
    have "int (4 + unat ?v) \<le> int ?n" using that by (simp only: of_nat_le_iff)
    then have "4 + uint ?v \<le> int ?n" by simp
    then have "uint (4 :: 32 word) + uint ?v < 2 ^ LENGTH(32)" using assms(4) by simp
    then have "uint (4 + ?v) = uint (4 :: 32 word) + uint ?v" using uint_add_lem by blast
    then have "uint (4 + ?v) = int (4 + unat ?v)" by simp
    then show ?thesis by (metis nat_int unat_eq_nat_uint)
  qed
  note wrap = word_wraps [of ?v]
  have one: "proto_decode pb b = None" if "?n < 8 + unat ?v" "4 + unat ?v \<le> ?n \<or> 2 ^ 32 - 4 \<le> uint ?v"
  proof -
    have "unat (4 + ?v) \<le> ?n"
    proof (cases "4 + unat ?v \<le> ?n")
      case True
      then show ?thesis using sum by simp
    next
      case False
      with that(2) wrap assms(2) show ?thesis by linarith
    qed
    then show ?thesis using assms(2,3) that(1) by (simp add: proto_decode_def len)
  qed
  have two: "proto_decode pb b = None"
    if "8 + unat ?v \<le> ?n" "unat ?m < 8 + unat ?v" "pb_known pb (take (unat ?v) (drop 8 (buf_str b)))"
  proof -
    define a c where "a = int (unat ?m)" and "c = int (unat ?v)"
    have ac: "a < 8 + c" "8 + c \<le> int ?n" "int ?n < 2 ^ 31" "0 \<le> a"
      using that(1,2) assms(4) unfolding a_def c_def by linarith+
    have eq: "?m - 8 - ?v = word_of_int (a - 8 - c)" by (simp add: a_def c_def)
    have "sint (?m - 8 - ?v) = a - 8 - c" unfolding eq using ac by (intro sint_of_range) linarith+
    then have "sint (?m - 8 - ?v) < 0" using ac(1) by linarith
    moreover have "unat (4 + ?v) \<le> ?n" using sum that(1) by simp
    ultimately show ?thesis using that(1,3) assms(2,3) by (simp add: proto_decode_def len Let_def)
  qed
  from one two show ?thesis by blast
qed

theorem proto_overreads_witness:
  "proto_decode text_proto (buf_append (store32 8 @ store32 4) buf_new) = None"
proof -
  let ?b = "buf_append (store32 8 @ store32 4) buf_new"
  have b: "buf_ok ?b" "buf_str ?b = store32 8 @ store32 4" by simp_all
  have l: "load32 (buf_str ?b) 0 = 8" "load32 (buf_str ?b) 4 = 4"
    using load32_store32_offset [of "[]" 0 8 "store32 4"] load32_store32_offset [of "store32 8" 4 4 "[]"] b(2) by simp_all
  have n: "buf_size ?b = 8" using b by (simp add: buf_size_str)
  from proto_overreads [OF b(1), of text_proto] show ?thesis unfolding l n by simp
qed

end
