(* ===== verification/Handy_Boot.thy ===== *)
theory Handy_Boot
  imports Handy_Poller Handy_Timer Handy_Socket
begin

text \<open>
  The life of a poller and of the event loop around it (\<open>handy/poller.cc\<close>, \<open>handy/event_base.cc\<close>): the filters that
  \<open>kqueue\<close> keeps for a channel, the creation and the end of a poller, the pipe that wakes a loop up, and one round of a
  loop, in which the poller of \<open>Handy_Poller\<close> and the timers of \<open>Handy_Timer\<close> work on one state.
\<close>

section \<open>Filters of kqueue\<close>

text \<open>
  The changes of one \<open>kevent\<close> call: a filter with \<open>EV_ADD | EV_ENABLE\<close> or \<open>EV_DELETE\<close>. Every change fails for a descriptor
  that is not open, and the deletion of a filter fails that is not there.
\<close>

type_synonym interest = "(int \<times> nat \<times> 16 word) list"

definition filters :: "interest \<Rightarrow> int \<Rightarrow> 16 word" where
  "filters fds fd = (case map_of fds fd of None \<Rightarrow> 0 | Some (ch, m) \<Rightarrow> m)"

definition kevent_change :: "channel \<Rightarrow> 16 word \<times> bool \<Rightarrow> interest \<Rightarrow> interest option" where
  "kevent_change ch c fds =
     (let m = filters fds (ch_fd ch) in
      if ch_fd ch < 0 \<or> (\<not> snd c \<and> m AND fst c = 0) then None
      else Some ((ch_fd ch, ch_id ch, set_event (fst c) (snd c) m) # filter (\<lambda>e. fst e \<noteq> ch_fd ch) fds))"

primrec kevent_changes :: "channel \<Rightarrow> (16 word \<times> bool) list \<Rightarrow> interest \<Rightarrow> interest option" where
  "kevent_changes ch [] fds = Some fds"
| "kevent_changes ch (c # cs) fds = do { fds \<leftarrow> kevent_change ch c fds; kevent_changes ch cs fds }"

definition kqueue_addChannel :: "channel \<Rightarrow> 'w poller \<Rightarrow> 'w poller option" where
  "kqueue_addChannel ch p = do {
     fds \<leftarrow> kevent_changes ch ((if readEnabled ch then [(kReadEvent, True)] else []) @
        (if writeEnabled ch then [(kWriteEvent, True)] else [])) (p_interest p);
     Some (p\<lparr>p_interest := fds, p_live := List.insert (ch_id ch) (p_live p)\<rparr>)
   }"

definition kqueue_updateChannel :: "channel \<Rightarrow> 'w poller \<Rightarrow> 'w poller option" where
  "kqueue_updateChannel ch p = do {
     fds \<leftarrow> kevent_changes ch [(kReadEvent, readEnabled ch), (kWriteEvent, writeEnabled ch)] (p_interest p);
     Some (p\<lparr>p_interest := fds\<rparr>)
   }"

text \<open>The time limit of a wait.\<close>

definition kqueue_timeout :: "int \<Rightarrow> int \<times> int" where
  "kqueue_timeout waitMs = (waitMs div 1000, waitMs mod 1000 * 1000 * 1000)"

definition poller_create :: "'w \<Rightarrow> sysres \<Rightarrow> 'w poller option" where
  "poller_create w r = (if res_int r < 0 then None else Some (poller_new w))"

definition PollerKqueue_create :: "'w \<Rightarrow> sysres \<Rightarrow> 'w poller option" where
  "PollerKqueue_create w r = (if res_int r < 0 then None else Some (poller_new w))"

lemma event_bit: "bit kReadEvent n \<longleftrightarrow> n = 0" "bit kWriteEvent n \<longleftrightarrow> n = 2"
proof -
  have b: "bit (2 ^ k :: 16 word) n \<longleftrightarrow> k < 16 \<and> n = k" for k by (auto simp: bit_exp_iff)
  show "bit kReadEvent n \<longleftrightarrow> n = 0" using b [of 0] by (simp add: kReadEvent_def)
  show "bit kWriteEvent n \<longleftrightarrow> n = 2" using b [of 2] by (simp add: kWriteEvent_def)
qed

lemma enabled_bit: "readEnabled ch \<longleftrightarrow> bit (ch_events ch) 0" "writeEnabled ch \<longleftrightarrow> bit (ch_events ch) 2"
  using and_exp_eq_0_iff_not_bit [of "ch_events ch" 0] and_exp_eq_0_iff_not_bit [of "ch_events ch" 2]
  by (simp_all add: readEnabled_def writeEnabled_def kReadEvent_def kWriteEvent_def)

lemma map_of_without: "fd \<noteq> g \<Longrightarrow> map_of (filter (\<lambda>e. fst e \<noteq> g) fds) fd = map_of fds fd"
  by (induction fds) auto

lemma filters_change:
  assumes "kevent_change ch c fds = Some fds'"
  shows "filters fds' (ch_fd ch) = set_event (fst c) (snd c) (filters fds (ch_fd ch))"
    "fd \<noteq> ch_fd ch \<Longrightarrow> map_of fds' fd = map_of fds fd"
  using assms by (auto simp: kevent_change_def filters_def Let_def map_of_without split: if_splits)

text \<open>\<open>updateChannel\<close> needs every filter that it is to delete.\<close>

lemma kqueue_update_fails_iff:
  "kqueue_updateChannel ch p = None \<longleftrightarrow>
     ch_fd ch < 0 \<or> \<not> readEnabled ch \<and> filters (p_interest p) (ch_fd ch) AND kReadEvent = 0 \<or>
     \<not> writeEnabled ch \<and> filters (p_interest p) (ch_fd ch) AND kWriteEvent = 0"
proof -
  have w: "set_event kReadEvent b m AND kWriteEvent = m AND kWriteEvent" for b m
    by (rule bit_word_eqI) (auto simp: set_event_def bit_simps event_bit)
  show ?thesis
    by (auto simp: kqueue_updateChannel_def kevent_change_def Let_def filters_def w split: if_splits option.splits)
qed

lemma kqueue_registers:
  assumes "kqueue_updateChannel ch p = Some q"
  shows "filters (p_interest q) (ch_fd ch) AND (kReadEvent OR kWriteEvent) = ch_events ch AND (kReadEvent OR kWriteEvent)"
proof -
  obtain fds1 fds2 where c: "kevent_change ch (kReadEvent, readEnabled ch) (p_interest p) = Some fds1"
      "kevent_change ch (kWriteEvent, writeEnabled ch) fds1 = Some fds2" "q = p\<lparr>p_interest := fds2\<rparr>"
    using assms by (auto simp: kqueue_updateChannel_def split: bind_splits)
  have "filters fds2 (ch_fd ch) = set_event kWriteEvent (writeEnabled ch) (set_event kReadEvent (readEnabled ch)
      (filters (p_interest p) (ch_fd ch)))"
    using filters_change(1) [OF c(1)] filters_change(1) [OF c(2)] by simp
  then show ?thesis
    by (intro bit_word_eqI) (auto simp: c(3) set_event_def bit_simps event_bit enabled_bit)
qed

text \<open>
  A channel that was added for reading alone, as the channels of servers and of the pipe are: \<open>enableRead(false)\<close>
  deletes the write filter too, which was never added, and \<open>fatalif\<close> ends the process.
\<close>

lemma kqueue_disable_read_fatal:
  assumes "readEnabled ch" "\<not> writeEnabled ch" "kqueue_addChannel ch p = Some q" "map_of (p_interest p) (ch_fd ch) = None"
  shows "kqueue_updateChannel (channel_enableRead False ch) q = None"
proof -
  have "filters (p_interest q) (ch_fd ch) = kReadEvent"
    using assms by (auto simp: kqueue_addChannel_def kevent_change_def filters_def set_event_def Let_def split: if_splits)
  moreover have "\<not> writeEnabled (channel_enableRead False ch)"
  proof -
    have "set_event kReadEvent False (ch_events ch) AND kWriteEvent = ch_events ch AND kWriteEvent"
      by (rule bit_word_eqI) (auto simp: set_event_def bit_simps event_bit)
    then show ?thesis using assms(2) by (simp add: writeEnabled_def channel_enableRead_def)
  qed
  ultimately show ?thesis by (simp add: kqueue_update_fails_iff channel_enableRead_def)
qed

section \<open>The end of a poller\<close>

text \<open>
  The destructors close the live channels, lowest address first; \<open>close ch\<close> is \<open>Channel::close\<close> with the handler it calls.
  Handlers that add channels can keep the loop going.
\<close>

partial_function (option) poller_destroy :: "(nat \<Rightarrow> 'w poller \<Rightarrow> 'w poller option) \<Rightarrow> 'w poller \<Rightarrow> 'w poller option" where
  "poller_destroy close p =
     (if p_live p = [] then Some p else do { p \<leftarrow> close (Min (set (p_live p))) p; poller_destroy close p })"

definition PollerKqueue_destroy :: "(nat \<Rightarrow> 'w poller \<Rightarrow> 'w poller option) \<Rightarrow> 'w poller \<Rightarrow> 'w poller option" where
  "PollerKqueue_destroy close p = poller_destroy close p"

text \<open>What is asked of \<open>close\<close>: the channel is live no more, no other one becomes live, and the process goes on.\<close>

definition closes :: "(nat \<Rightarrow> 'w poller \<Rightarrow> 'w poller option) \<Rightarrow> bool" where
  "closes close \<longleftrightarrow> (\<forall>ch p. \<exists>q. close ch p = Some q \<and> set (p_live q) \<subseteq> set (p_live p) - {ch})"

section \<open>The event loop\<close>

text \<open>
  \<open>EventsImp::init\<close>: the pipe, whose descriptors are \<open>fd0\<close> and \<open>fd1\<close>, and the channel of its reading end.
\<close>

definition events_init :: "int \<Rightarrow> int \<Rightarrow> nat \<Rightarrow> sworld \<Rightarrow> ((channel \<times> effect list) \<times> sworld) option" where
  "events_init fd0 fd1 chid w =
     (let (r, w) = sys_int Pipe w in do {
        fatalif (r \<noteq> 0);
        let (r, w) = addFdFlag fd0 FD_CLOEXEC w;
        fatalif (r \<noteq> 0);
        let (r, w) = addFdFlag fd1 FD_CLOEXEC w;
        fatalif (r \<noteq> 0);
        new_channel chid fd0 kReadEvent w
      })"

text \<open>The handler of that channel: what it does with the result of \<open>read\<close>.\<close>

datatype wake_action = RunTasks | DeleteChannel | Ignore

definition EINTR :: int where "EINTR = 4"

definition wakeup_read :: "int \<Rightarrow> sysres \<Rightarrow> wake_action option" where
  "wakeup_read fd read =
     (let r = (if fd \<ge> 0 then read else Res 0) in
      if res_int r > 0 then Some RunTasks
      else if res_int r = 0 then Some DeleteChannel
      else if res_errno r = EINTR then Some Ignore
      else None)"

text \<open>
  One round: the poller waits no longer than for the next timer, the handlers run, then the tasks that are due. The
  timers are the world of the poller's handlers. \<open>evs\<close> is what a wait of that length gives.
\<close>

definition events_loop_once ::
    "('a timers) handlers \<Rightarrow> ('a \<Rightarrow> 'a timers \<Rightarrow> 'a timers option) \<Rightarrow> (int \<Rightarrow> (nat \<times> 16 word) list option) \<Rightarrow> int \<Rightarrow>
      'a timers poller \<Rightarrow> 'a timers poller option" where
  "events_loop_once h run evs waitMs p = do {
     p \<leftarrow> epoll_loop_once h (evs (min waitMs (t_next (p_world p)))) p;
     t \<leftarrow> handleTimeouts run (p_world p);
     Some (p\<lparr>p_world := t\<rparr>)
   }"

definition events_destroy :: "(nat \<Rightarrow> 'w poller \<Rightarrow> 'w poller option) \<Rightarrow> int \<Rightarrow> 'w poller \<times> sworld \<Rightarrow> ('w poller \<times> sworld) option" where
  "events_destroy close fd1 pw = do { p \<leftarrow> poller_destroy close (fst pw); Some (p, sys_drop (CloseSock fd1) (snd pw)) }"

section \<open>What is shown\<close>

text \<open>Destroying a poller ends, with no channel left.\<close>

lemma poller_destroyed:
  assumes "closes close"
  shows "\<exists>q. poller_destroy close p = Some q \<and> p_live q = []"
proof (induction "card (set (p_live p))" arbitrary: p rule: less_induct)
  case less
  show ?case
  proof (cases "p_live p = []")
    case True
    then show ?thesis by (simp add: poller_destroy.simps [of close p])
  next
    case False
    define ch where "ch = Min (set (p_live p))"
    have ch: "ch \<in> set (p_live p)" using False by (simp add: ch_def)
    obtain q where q: "close ch p = Some q" "set (p_live q) \<subseteq> set (p_live p) - {ch}"
      using assms unfolding closes_def by blast
    then have "card (set (p_live q)) < card (set (p_live p))"
      using ch by (meson List.finite_set card_Diff1_less card_mono finite_Diff le_less_trans)
    from less.hyps [OF this] show ?thesis
      using q(1) False by (simp add: poller_destroy.simps [of close p] ch_def [symmetric])
  qed
qed

text \<open>\<open>Channel::close\<close> whose handler does nothing more, as that of the pipe's channel.\<close>

lemma closes_quiet: "closes (\<lambda>ch p. Some (removeChannel ch p))"
  by (auto simp: closes_def removeChannel_def)

lemma events_destroyed:
  assumes "closes close"
  shows "\<exists>q. events_destroy close fd1 (p, w) = Some (q, sys_drop (CloseSock fd1) w) \<and> p_live q = []"
  using poller_destroyed [OF assms, of p] by (auto simp: events_destroy_def)

text \<open>A handler that opens a new channel whenever its channel is closed keeps the destructor from ending.\<close>

lemma poller_destroy_reopens:
  assumes "poller_destroy close p = Some q" "close = (\<lambda>ch p. Some (p\<lparr>p_live := [Suc ch]\<rparr>))"
  shows "p_live p = []"
proof -
  have "close = (\<lambda>ch p. Some (p\<lparr>p_live := [Suc ch]\<rparr>)) \<longrightarrow> p_live p = []"
  proof (rule poller_destroy.raw_induct [OF _ assms(1), where P = "\<lambda>close p q. close = (\<lambda>ch p. Some (p\<lparr>p_live := [Suc ch]\<rparr>)) \<longrightarrow> p_live p = []"])
    fix destroy close and p q :: "'a poller"
    assume ih: "\<And>close p q. destroy close p = Some q \<Longrightarrow> close = (\<lambda>ch p. Some (p\<lparr>p_live := [Suc ch]\<rparr>)) \<longrightarrow> p_live p = []"
      and run: "(if p_live p = [] then Some p else do { p \<leftarrow> close (Min (set (p_live p))) p; destroy close p }) = Some q"
    show "close = (\<lambda>ch p. Some (p\<lparr>p_live := [Suc ch]\<rparr>)) \<longrightarrow> p_live p = []"
      using run ih [of close "p\<lparr>p_live := [Suc (Min (set (p_live p)))]\<rparr>" q] by (auto split: if_splits)
  qed
  then show ?thesis using assms(2) by simp
qed

text \<open>The calls of \<open>init\<close>: the pipe, close-on-exec on both ends, and the channel of the reading end.\<close>

lemma events_init_runs:
  "events_init fd0 fd1 chid (world_new [Res 0, Res fl0, Res 0, Res fl1, Res 0, Res fl, Res 0]) =
     Some ((\<lparr>ch_id = chid, ch_fd = fd0, ch_events = kReadEvent\<rparr>, [AddChannel chid fd0 kReadEvent]),
       \<lparr>w_script = [], w_trace = [Pipe, FcntlGet fd0 F_GETFD, FcntlSet fd0 F_SETFD (fl0 OR FD_CLOEXEC), FcntlGet fd1 F_GETFD,
          FcntlSet fd1 F_SETFD (fl1 OR FD_CLOEXEC), FcntlGet fd0 F_GETFL, FcntlSet fd0 F_SETFL (fl OR O_NONBLOCK)]\<rparr>)"
  if "0 \<le> fl"
  using that by (simp add: events_init_def addFdFlag_def new_channel_def net_setNonBlock_def sys_simps Let_def)

text \<open>After \<open>close\<close> the pipe's channel has no descriptor, so its handler deletes it.\<close>

lemma wakeup_read_closed: "wakeup_read (- 1) r = Some DeleteChannel"
  by (simp add: wakeup_read_def sys_simps)

definition keeps_timers :: "('a timers) handlers \<Rightarrow> bool" where
  "keeps_timers h \<longleftrightarrow> (\<forall>ch wr p q. h ch wr p = Some q \<longrightarrow> p_world q = p_world p)"

lemma epoll_loop_timers: "keeps_timers h \<Longrightarrow> epoll_loop h n p = Some q \<Longrightarrow> p_world q = p_world p"
proof (induction n arbitrary: p)
  case (Suc n)
  have call: "call_handler h ch wr r = Some r' \<Longrightarrow> p_world r' = p_world r" for ch wr r r'
    using Suc.prems(1) by (auto simp: keeps_timers_def call_handler_def)
  have entry: "epoll_entry h e r = Some r' \<Longrightarrow> p_world r' = p_world r" for e r r'
    by (auto simp: epoll_entry_def split: option.splits bind_splits if_splits dest!: call)
  show ?case
    using Suc by (auto simp: Let_def split: if_splits bind_splits dest!: entry)
qed auto

text \<open>
  One round with handlers that leave the timers alone and one-shot tasks: the handlers of the events are called first,
  then the due tasks in order; nothing else is run.
\<close>

lemma round_runs:
  assumes "keeps_timers h" "t_timers (p_world p) = map (\<lambda>e. (fst e, User (snd e))) xs"
    "epoll_loop_once h (evs (min waitMs (t_next (p_world p)))) p = Some p1"
  shows "\<exists>q. events_loop_once h quiet_run evs waitMs p = Some q \<and> p_calls q = p_calls p1 \<and>
    t_fired (p_world q) = t_fired (p_world p) @ map snd (takeWhile (\<lambda>e. fst e < (t_now (p_world p), 2 ^ 62)) xs)"
proof -
  have w: "p_world p1 = p_world p"
    using assms(3) epoll_loop_timers [OF assms(1)] by (fastforce simp: epoll_loop_once_def split: option.splits)
  obtain t where "timeout_loop quiet_run (t_now (p_world p), 2 ^ 62) (p_world p) = Some t"
      "t_fired t = t_fired (p_world p) @ map snd (takeWhile (\<lambda>e. fst e < (t_now (p_world p), 2 ^ 62)) xs)"
    using timeout_loop_oneshot [OF assms(2), of "(t_now (p_world p), 2 ^ 62)"] by auto
  then show ?thesis using assms(3) w by (simp add: events_loop_once_def handleTimeouts_def)
qed

text \<open>A wait does not go beyond the first timer.\<close>

lemma round_wait:
  assumes "t_next t = t_next (refreshNearest t)" "t_timers t = e # es" "fst (fst e) - t_now t < 2 ^ 31" "t_now t \<le> fst (fst e)"
  shows "t_now t + min waitMs (t_next t) \<le> fst (fst e)"
proof -
  have "c_int (fst (fst e) - t_now t) = fst (fst e) - t_now t" using assms(3,4) by (intro c_int_id) simp_all
  then have "t_next t = fst (fst e) - t_now t" using assms(1,2,4) by (simp add: refreshNearest_def Let_def)
  then show ?thesis by simp
qed

end
