(* ===== verification/Handy_Raw.thy ===== *)
theory Handy_Raw
  imports Handy_Sys
begin

text \<open>
  The programs of \<open>raw-examples\<close>, which serve a fixed page with \<open>epoll\<close> alone. Here is what
  \<open>epoll.cc\<close> (level-triggered) and \<open>epoll-et.cc\<close> (edge-triggered) share: the kernel they run on. It keeps
  the open descriptors and those that are watched; what \<open>read\<close>, \<open>write\<close> and \<open>accept\<close> give is a script.
  \<open>None\<close> is a process that \<open>exit_if\<close> has ended. \<open>rw_wrote\<close> holds, for the descriptor of a
  connection, what the kernel took since the connection was accepted.
\<close>

section \<open>The kernel\<close>

definition EPOLLIN :: "32 word" where "EPOLLIN = 1"
definition EPOLLOUT :: "32 word" where "EPOLLOUT = 4"
definition EPOLLERR :: "32 word" where "EPOLLERR = 8"
definition EPOLLET :: "32 word" where "EPOLLET = 0x80000000"

definition EAGAIN :: int where "EAGAIN = 11"
definition EWOULDBLOCK :: int where "EWOULDBLOCK = 11"
definition EBADF :: int where "EBADF = 9"

datatype ctl_op = CtlAdd | CtlMod

datatype raw_call =
    RSocket | RBind int nat | RListen int int | REpollCreate | RAccept int | RPeer int | RGetFl int | RSetFl int
  | RCtl ctl_op int "32 word" | RRead int | RWrite int nat | RClose int

record 'k raw =
  rw_world :: "raw_call world"
  rw_open :: "int list"
  rw_watch :: "(int \<times> 32 word) list"
  rw_cons :: "(int \<times> 'k) list"
  rw_wrote :: "(int \<times> bytes) list"

definition raw_sys :: "raw_call \<Rightarrow> 'k raw \<Rightarrow> sysres \<times> 'k raw" where
  "raw_sys call s = (let (r, w) = sys call (rw_world s) in (r, s\<lparr>rw_world := w\<rparr>))"

text \<open>
  \<open>read\<close> of 4096 bytes and \<open>write\<close>: the result with the \<open>errno\<close> of a failure. A descriptor that is not open
  gives \<open>EBADF\<close>, and \<open>write\<close> does not take more than it is offered.
\<close>

definition raw_read :: "int \<Rightarrow> 'k raw \<Rightarrow> (int + bytes) \<times> 'k raw" where
  "raw_read fd s =
     (if fd \<notin> set (rw_open s) then (Inl EBADF, s)
      else let (r, s) = raw_sys (RRead fd) s in
        ((case r of Err e \<Rightarrow> Inl e | Got b \<Rightarrow> Inr (take 4096 b) | Res n \<Rightarrow> Inr []), s))"

definition raw_out :: "int \<Rightarrow> 'k raw \<Rightarrow> bytes" where
  "raw_out fd s = (case map_of (rw_wrote s) fd of None \<Rightarrow> [] | Some b \<Rightarrow> b)"

definition raw_write :: "int \<Rightarrow> bytes \<Rightarrow> 'k raw \<Rightarrow> (int + nat) \<times> 'k raw" where
  "raw_write fd data s =
     (if fd \<notin> set (rw_open s) then (Inl EBADF, s)
      else let (r, s) = raw_sys (RWrite fd (length data)) s in
        (case r of Err e \<Rightarrow> (Inl e, s)
         | _ \<Rightarrow> let wd = min (nat (res_int r)) (length data)
              in (Inr wd, s\<lparr>rw_wrote := map_put fd (raw_out fd s @ take wd data) (rw_wrote s)\<rparr>)))"

definition raw_close :: "int \<Rightarrow> 'k raw \<Rightarrow> 'k raw" where
  "raw_close fd s =
     s\<lparr>rw_world := sys_drop (RClose fd) (rw_world s), rw_open := removeAll fd (rw_open s),
       rw_watch := map_erase fd (rw_watch s)\<rparr>"

text \<open>The lowest number that is not in use, which is what a new descriptor gets.\<close>

definition lowest_fd :: "int list \<Rightarrow> int" where
  "lowest_fd fds = hd (filter (\<lambda>n. n \<notin> set fds) (map int [0..<Suc (length fds)]))"

definition raw_accept :: "int \<Rightarrow> 'k raw \<Rightarrow> (int + int) \<times> 'k raw" where
  "raw_accept fd s =
     (let (r, s) = raw_sys (RAccept fd) s in
      case r of Err e \<Rightarrow> (Inl e, s)
      | _ \<Rightarrow> let cfd = lowest_fd (rw_open s)
           in (Inr cfd, s\<lparr>rw_open := cfd # rw_open s, rw_wrote := map_put cfd [] (rw_wrote s)\<rparr>))"

text \<open>\<open>epoll_ctl\<close> fails for a descriptor that is not open, added twice or not there to modify.\<close>

definition epoll_ctl :: "ctl_op \<Rightarrow> int \<Rightarrow> 32 word \<Rightarrow> 'k raw \<Rightarrow> 'k raw option" where
  "epoll_ctl opn fd events s =
     (if fd \<notin> set (rw_open s) \<or> (map_of (rw_watch s) fd = None) \<noteq> (opn = CtlAdd) then None
      else Some (s\<lparr>rw_world := sys_drop (RCtl opn fd events) (rw_world s), rw_watch := map_put fd events (rw_watch s)\<rparr>))"

section \<open>What both programs do alike\<close>

definition raw_setNonBlock :: "int \<Rightarrow> 'k raw \<Rightarrow> 'k raw option" where
  "raw_setNonBlock fd s =
     (let (flags, s) = raw_sys (RGetFl fd) s in
      if res_int flags < 0 then None
      else let (r, s) = raw_sys (RSetFl fd) s in if res_int r < 0 then None else Some s)"

definition raw_updateEvents :: "int \<Rightarrow> 32 word \<Rightarrow> ctl_op \<Rightarrow> 'k raw \<Rightarrow> 'k raw option" where
  "raw_updateEvents fd events opn s = epoll_ctl opn fd events s"

text \<open>\<open>handleAccept\<close>; \<open>events\<close> is what the connection is watched for.\<close>

definition raw_accept_with :: "32 word \<Rightarrow> int \<Rightarrow> 'k raw \<Rightarrow> 'k raw option" where
  "raw_accept_with events fd s =
     (case raw_accept fd s of
        (Inl e, _) \<Rightarrow> None
      | (Inr cfd, s) \<Rightarrow>
          let (r, s) = raw_sys (RPeer cfd) s in
          if res_int r < 0 then None
          else (case raw_setNonBlock cfd s of None \<Rightarrow> None | Some s \<Rightarrow> raw_updateEvents cfd events CtlAdd s))"

text \<open>A request has ended: \<open>readed.length() > 4\<close> and the last two or four characters.\<close>

definition request_ended :: "bytes \<Rightarrow> bool" where
  "request_ended readed \<longleftrightarrow> length readed > 4 \<and>
     (drop (length readed - 2) readed = [LF, LF] \<or> drop (length readed - 4) readed = [CR, LF, CR, LF])"

record raw_con =
  rc_readed :: bytes
  rc_written :: nat

text \<open>\<open>cons[fd]\<close>, which makes an entry when there is none.\<close>

definition raw_entry :: "'k \<Rightarrow> int \<Rightarrow> 'k raw \<Rightarrow> 'k" where
  "raw_entry con0 fd s = (case map_of (rw_cons s) fd of None \<Rightarrow> con0 | Some c \<Rightarrow> c)"

definition raw_set :: "int \<Rightarrow> 'k \<Rightarrow> 'k raw \<Rightarrow> 'k raw" where
  "raw_set fd c s = s\<lparr>rw_cons := map_put fd c (rw_cons s)\<rparr>"

definition raw_erase :: "int \<Rightarrow> 'k raw \<Rightarrow> 'k raw" where
  "raw_erase fd s = s\<lparr>rw_cons := map_erase fd (rw_cons s)\<rparr>"

definition script_left :: "'k raw \<Rightarrow> nat" where
  "script_left s = length (w_script (rw_world s))"

lemma raw_sys_left: "raw_sys call s = (r, s') \<Longrightarrow> script_left s' = script_left s - 1"
  by (auto simp: raw_sys_def script_left_def sys_def)

lemma raw_sys_end: "raw_sys call s = (r, s') \<Longrightarrow> script_left s = 0 \<Longrightarrow> r = Err 11"
  by (auto simp: raw_sys_def script_left_def sys_def)

lemma raw_sys_frame: "raw_sys call s = (r, s') \<Longrightarrow> \<exists>w. s' = s\<lparr>rw_world := w\<rparr>"
  by (auto simp: raw_sys_def split: prod.splits)

lemma raw_write_left:
  "raw_write fd data s = (r, s') \<Longrightarrow> script_left s' \<le> script_left s"
  "raw_write fd data s = (Inr wd, s') \<Longrightarrow> 0 < wd \<Longrightarrow> script_left s' < script_left s"
  by (auto simp: raw_write_def script_left_def raw_sys_def sys_def Let_def split: if_splits sysres.splits list.splits)

lemma raw_read_left:
  "raw_read fd s = (r, s') \<Longrightarrow> script_left s' \<le> script_left s"
  "raw_read fd s = (Inr b, s') \<Longrightarrow> b \<noteq> [] \<Longrightarrow> script_left s' < script_left s"
  by (auto simp: raw_read_def script_left_def raw_sys_def sys_def Let_def split: if_splits sysres.splits list.splits)

text \<open>
  \<open>while ((wd = ::write(fd, httpRes.data() + con.written, left)) > 0)\<close>: \<open>con.written\<close> and \<open>left\<close> afterwards and
  the last result.
\<close>

function raw_write_loop :: "bytes \<Rightarrow> int \<Rightarrow> nat \<Rightarrow> nat \<Rightarrow> 'k raw \<Rightarrow> nat \<times> nat \<times> (int + nat) \<times> 'k raw" where
  "raw_write_loop resp fd written left s =
     (case raw_write fd (take left (drop written resp)) s of
        (Inr wd, s') \<Rightarrow> if wd > 0 then raw_write_loop resp fd (written + wd) (left - wd) s' else (written, left, Inr wd, s')
      | (Inl e, s') \<Rightarrow> (written, left, Inl e, s'))"
  by pat_completeness auto
termination
  by (relation "measure (\<lambda>(resp, fd, written, left, s). script_left s)") (auto dest: raw_write_left(2)[OF sym])

declare raw_write_loop.simps [simp del]

definition raw_wf :: "'k raw \<Rightarrow> bool" where
  "raw_wf s \<longleftrightarrow> map_ok (rw_watch s) \<and> map_ok (rw_cons s) \<and> map_ok (rw_wrote s)"

lemma raw_read_frame:
  assumes "raw_read fd s = (r, s')" "raw_wf s"
  shows "raw_wf s'" "rw_open s' = rw_open s" "rw_watch s' = rw_watch s" "rw_cons s' = rw_cons s" "raw_out g s' = raw_out g s"
    "r = Inr b \<Longrightarrow> fd \<in> set (rw_open s)"
  using assms
  by (auto simp: raw_read_def raw_wf_def raw_sys_def raw_out_def split: if_splits prod.splits)

lemma raw_write_frame:
  assumes "raw_write fd data s = (r, s')" "raw_wf s"
  shows "raw_wf s'" "rw_open s' = rw_open s" "rw_watch s' = rw_watch s" "rw_cons s' = rw_cons s"
    "raw_out g s' = (if g = fd then raw_out fd s @ (case r of Inl _ \<Rightarrow> [] | Inr wd \<Rightarrow> take wd data) else raw_out g s)"
    "r = Inr wd \<Longrightarrow> wd \<le> length data" "fd \<notin> set (rw_open s) \<Longrightarrow> r = Inl EBADF"
  using assms
  by (auto simp: raw_write_def raw_wf_def raw_sys_def raw_out_def Let_def split: if_splits prod.splits sysres.splits option.splits)

lemma take_drop_between: "n + k \<le> m \<Longrightarrow> take k (drop n xs) @ drop (n + k) (take m xs) = drop n (take m xs)"
  using append_take_drop_id [of k "drop n (take m xs)"] by (simp add: drop_take add.commute min.absorb1 le_diff_conv2)

lemma raw_write_loop_left:
  "raw_write_loop resp fd written left s = (w', l', r, s') \<Longrightarrow> script_left s' \<le> script_left s"
proof (induction resp fd written left s rule: raw_write_loop.induct)
  case (1 resp fd written left s)
  obtain q s1 where w: "raw_write fd (take left (drop written resp)) s = (q, s1)" by fastforce
  show ?case
    using "1.prems" "1.IH" [OF w [symmetric]] raw_write_left(1) [OF w]
    by (fastforce simp: w raw_write_loop.simps [of resp fd written left s] split: sum.splits if_splits)
qed

text \<open>The loop: what has been taken is the next part of the page, and it ends with a result that is not positive.\<close>

lemma raw_write_loop_out:
  assumes "raw_write_loop resp fd written left s = (written', left', r, s')" "raw_wf s" "written + left = length resp"
  shows "raw_wf s' \<and> rw_open s' = rw_open s \<and> rw_watch s' = rw_watch s \<and> rw_cons s' = rw_cons s \<and>
    written \<le> written' \<and> written' + left' = length resp \<and> (\<forall>wd. r = Inr wd \<longrightarrow> wd = 0) \<and>
    raw_out fd s' = raw_out fd s @ drop written (take written' resp) \<and> (\<forall>g. g \<noteq> fd \<longrightarrow> raw_out g s' = raw_out g s) \<and>
    (fd \<notin> set (rw_open s) \<longrightarrow> r = Inl EBADF \<and> written' = written \<and> left' = left)"
  using assms
proof (induction resp fd written left s rule: raw_write_loop.induct)
  case (1 resp fd written left s)
  obtain q s1 where w: "raw_write fd (take left (drop written resp)) s = (q, s1)" by fastforce
  note f = raw_write_frame [OF w "1.prems"(2)] raw_write_left(1) [OF w]
  show ?case
  proof (cases "\<exists>wd. q = Inr wd \<and> wd > 0")
    case True
    then obtain wd where q: "q = Inr wd" "wd > 0" by blast
    have wd: "wd \<le> left" using f(6) q "1.prems"(3) by simp
    have rec: "raw_write_loop resp fd (written + wd) (left - wd) s1 = (written', left', r, s')"
      using "1.prems"(1) w q by (simp add: raw_write_loop.simps [of resp fd written left s])
    have ih: "raw_wf s' \<and> rw_open s' = rw_open s1 \<and> rw_watch s' = rw_watch s1 \<and> rw_cons s' = rw_cons s1 \<and>
        written + wd \<le> written' \<and> written' + left' = length resp \<and> (\<forall>wd. r = Inr wd \<longrightarrow> wd = 0) \<and>
        raw_out fd s' = raw_out fd s1 @ drop (written + wd) (take written' resp) \<and>
        (\<forall>g. g \<noteq> fd \<longrightarrow> raw_out g s' = raw_out g s1) \<and>
        (fd \<notin> set (rw_open s1) \<longrightarrow> r = Inl EBADF \<and> written' = written + wd \<and> left' = left - wd)"
      using "1.IH" [OF w [symmetric] q rec f(1)] wd "1.prems"(3) by simp
    have opn: "fd \<in> set (rw_open s)" using f(7) q by auto
    have out: "raw_out fd s1 = raw_out fd s @ take wd (drop written resp)"
      using f(5) [of fd] q wd by (simp add: min_def)
    have "take wd (drop written resp) @ drop (written + wd) (take written' resp) = drop written (take written' resp)"
      using ih by (intro take_drop_between) simp
    with ih f out opn show ?thesis by simp
  next
    case False
    then have e: "written' = written" "left' = left" "s' = s1" "r = q"
      using "1.prems"(1) w by (auto simp: raw_write_loop.simps [of resp fd written left s] split: sum.splits if_splits)
    moreover have "\<And>g. raw_out g s1 = raw_out g s" using f(5) False by (auto split: sum.splits)
    ultimately show ?thesis using f False "1.prems"(3) by auto
  qed
qed

lemma raw_write_loop_outD:
  assumes "raw_write_loop resp fd written left s = (written', left', r, s')" "raw_wf s" "written + left = length resp"
  shows "raw_wf s'" "rw_open s' = rw_open s" "rw_watch s' = rw_watch s" "rw_cons s' = rw_cons s"
    "written \<le> written'" "written' + left' = length resp"
    "raw_out fd s' = raw_out fd s @ drop written (take written' resp)" "\<forall>g. g \<noteq> fd \<longrightarrow> raw_out g s' = raw_out g s"
    "fd \<notin> set (rw_open s) \<longrightarrow> r = Inl EBADF \<and> written' = written \<and> left' = left"
  using raw_write_loop_out [OF assms] by simp_all

lemma script_left_simps [simp]:
  "script_left (raw_set fd c s) = script_left s" "script_left (raw_erase fd s) = script_left s"
  "script_left (raw_close fd s) = script_left s"
  "epoll_ctl opn fd ev s = Some s' \<Longrightarrow> script_left s' = script_left s"
  by (auto simp: script_left_def raw_set_def raw_erase_def raw_close_def sys_drop_def epoll_ctl_def split: if_splits)

lemma raw_simps [simp]:
  "rw_watch (raw_set fd c s) = rw_watch s" "rw_open (raw_set fd c s) = rw_open s" "rw_cons (raw_set fd c s) = map_put fd c (rw_cons s)"
  "rw_watch (raw_erase fd s) = rw_watch s" "rw_open (raw_erase fd s) = rw_open s" "rw_cons (raw_erase fd s) = map_erase fd (rw_cons s)"
  "rw_watch (raw_close fd s) = map_erase fd (rw_watch s)" "rw_open (raw_close fd s) = removeAll fd (rw_open s)"
  "rw_cons (raw_close fd s) = rw_cons s"
  "raw_out g (raw_set fd c s) = raw_out g s" "raw_out g (raw_erase fd s) = raw_out g s" "raw_out g (raw_close fd s) = raw_out g s"
  "raw_wf s \<Longrightarrow> raw_wf (raw_set fd c s)" "raw_wf s \<Longrightarrow> raw_wf (raw_erase fd s)" "raw_wf s \<Longrightarrow> raw_wf (raw_close fd s)"
  by (simp_all add: raw_set_def raw_erase_def raw_close_def raw_out_def raw_wf_def)

text \<open>A new connection has a descriptor that nothing else has.\<close>

lemma lowest_fd_fresh: "lowest_fd fds \<notin> set fds"
proof -
  have "filter (\<lambda>n. n \<notin> set fds) (map int [0..<Suc (length fds)]) \<noteq> []"
  proof
    assume "filter (\<lambda>n. n \<notin> set fds) (map int [0..<Suc (length fds)]) = []"
    then have "set (map int [0..<Suc (length fds)]) \<subseteq> set fds" by (auto simp only: filter_empty_conv)
    then have "card (set (map int [0..<Suc (length fds)])) \<le> card (set fds)" by (intro card_mono) auto
    also have "\<dots> \<le> length fds" by (rule card_length)
    finally show False by (simp only: distinct_card distinct_map distinct_upt inj_on_of_nat length_map length_upt)
  qed
  then have "lowest_fd fds \<in> set (filter (\<lambda>n. n \<notin> set fds) (map int [0..<Suc (length fds)]))"
    unfolding lowest_fd_def by (rule hd_in_set)
  then show ?thesis by (simp only: set_filter mem_Collect_eq) blast
qed

lemma raw_setNonBlock_frame: "raw_setNonBlock fd s = Some s' \<Longrightarrow> \<exists>w. s' = s\<lparr>rw_world := w\<rparr>"
  by (auto simp: raw_setNonBlock_def raw_sys_def split: prod.splits if_splits)

lemma raw_accept_with_frame:
  assumes "raw_accept_with events fd s = Some s'"
  shows "\<exists>cfd w. cfd \<notin> set (rw_open s) \<and> s' = s\<lparr>rw_open := cfd # rw_open s,
    rw_wrote := map_put cfd [] (rw_wrote s), rw_world := w, rw_watch := map_put cfd events (rw_watch s)\<rparr>"
proof -
  obtain r s1 where a: "raw_accept fd s = (r, s1)" by fastforce
  have r: "\<exists>w. s1 = s\<lparr>rw_world := w, rw_open := cfd # rw_open s, rw_wrote := map_put cfd [] (rw_wrote s)\<rparr>"
    "cfd \<notin> set (rw_open s)" if "r = Inr cfd" for cfd
    using a that lowest_fd_fresh [of "rw_open s"]
    by (auto simp: raw_accept_def raw_sys_def Let_def split: prod.splits sysres.splits)
  obtain cfd where cfd: "r = Inr cfd" using assms a by (auto simp: raw_accept_with_def split: sum.splits)
  obtain r2 s2 where p: "raw_sys (RPeer cfd) s1 = (r2, s2)" by fastforce
  obtain s3 where nb: "raw_setNonBlock cfd s2 = Some s3" and u: "raw_updateEvents cfd events CtlAdd s3 = Some s'"
    using assms a cfd p by (auto simp: raw_accept_with_def split: if_splits option.splits)
  show ?thesis
    using r [OF cfd] raw_sys_frame [OF p] raw_setNonBlock_frame [OF nb] u
    by (auto simp: raw_updateEvents_def epoll_ctl_def intro!: exI [of _ cfd] split: if_splits)
qed

text \<open>
  \<open>main\<close> before its loop: the listening socket, watched. Descriptors 0 to 2 are open; the \<open>epoll\<close> one is 3
  and the socket 4.
\<close>

definition raw_main :: "nat \<Rightarrow> 'k raw \<Rightarrow> (int \<times> 'k raw) option" where
  "raw_main port s =
     (let (epollfd, s) = raw_sys REpollCreate s in
      if res_int epollfd < 0 then None
      else let epollfd = lowest_fd (rw_open s); s = s\<lparr>rw_open := epollfd # rw_open s\<rparr>; (listenfd, s) = raw_sys RSocket s in
      if res_int listenfd < 0 then None
      else let listenfd = lowest_fd (rw_open s); s = s\<lparr>rw_open := listenfd # rw_open s\<rparr>;
        (r, s) = raw_sys (RBind listenfd port) s in
      if res_int r \<noteq> 0 then None
      else let (r, s) = raw_sys (RListen listenfd 20) s in
      if res_int r \<noteq> 0 then None
      else case raw_setNonBlock listenfd s of None \<Rightarrow> None
        | Some s \<Rightarrow> map_option (\<lambda>s. (listenfd, s)) (raw_updateEvents listenfd EPOLLIN CtlAdd s))"

definition raw_start :: "sysres list \<Rightarrow> 'k raw" where
  "raw_start script = \<lparr>rw_world = world_new script, rw_open = [0, 1, 2], rw_watch = [], rw_cons = [], rw_wrote = []\<rparr>"

lemma lowest_fd_start: "lowest_fd [0, 1, 2] = 3" "lowest_fd [3, 0, 1, 2] = 4"
  by (simp_all add: lowest_fd_def upt_rec)

lemma raw_wfD: "raw_wf s \<Longrightarrow> map_ok (rw_watch s)" "raw_wf s \<Longrightarrow> map_ok (rw_cons s)" "raw_wf s \<Longrightarrow> map_ok (rw_wrote s)"
  by (simp_all add: raw_wf_def)

text \<open>\<open>httpRes\<close> of \<open>main\<close>.\<close>

definition raw_head :: bytes where
  "raw_head = ''HTTP/1.1 200 OK'' @ [CR, LF] @ ''Connection: Keep-Alive'' @ [CR, LF] @
     ''Content-Type: text/html; charset=UTF-8'' @ [CR, LF] @ ''Content-Length: 1048576'' @ [CR, LF, CR, LF]"

definition httpRes :: bytes where
  "httpRes = raw_head @ ''123456'' @ replicate 1048570 NUL"

text \<open>The page declares the length of its body.\<close>

lemma httpRes_length: "length httpRes = length raw_head + 1048576"
  by (simp add: httpRes_def)

end
