(* ===== verification/Handy_Raw_Epoll.thy ===== *)
theory Handy_Raw_Epoll
  imports Handy_Raw
begin

text \<open>
  \<open>raw-examples/epoll.cc\<close>: the level-triggered server. What is read ends in a request, each request is
  answered by the page, and a page that the kernel does not take at once waits for \<open>EPOLLOUT\<close>. Every
  page arrives whole and in order, and a page that is under way is watched for.
\<close>

record lt_con = raw_con +
  rc_writeEnabled :: bool

type_synonym lt = "lt_con raw"

definition lt_con0 :: lt_con where
  "lt_con0 = \<lparr>rc_readed = [], rc_written = 0, rc_writeEnabled = False\<rparr>"

definition lt_handleAccept :: "int \<Rightarrow> lt \<Rightarrow> lt option" where
  "lt_handleAccept fd s = raw_accept_with EPOLLIN fd s"

text \<open>What follows the loop of \<open>sendRes\<close>.\<close>

definition lt_sent :: "int \<Rightarrow> lt_con \<Rightarrow> nat \<Rightarrow> int + nat \<Rightarrow> lt \<Rightarrow> lt option" where
  "lt_sent fd con left wd s =
     (if left = 0 then
        (if rc_writeEnabled con then map_option (raw_erase fd) (raw_updateEvents fd EPOLLIN CtlMod s)
         else Some (raw_erase fd s))
      else if wd = Inl EAGAIN \<or> wd = Inl EWOULDBLOCK then
        (if \<not> rc_writeEnabled con then
           map_option (raw_set fd (con\<lparr>rc_writeEnabled := True\<rparr>))
             (raw_updateEvents fd (EPOLLIN OR EPOLLOUT) CtlMod s)
         else Some s)
      else Some (raw_erase fd (raw_close fd s)))"

definition lt_sendRes :: "bytes \<Rightarrow> int \<Rightarrow> lt \<Rightarrow> lt option" where
  "lt_sendRes resp fd s =
     (let con = raw_entry lt_con0 fd s;
          (written, left, wd, s) = raw_write_loop resp fd (rc_written con) (length resp - rc_written con) s;
          con = con\<lparr>rc_written := written\<rparr>
      in lt_sent fd con left wd (raw_set fd con s))"

lemma lt_sendRes_left: "lt_sendRes resp fd s = Some s' \<Longrightarrow> script_left s' \<le> script_left s"
  by (auto simp: lt_sendRes_def lt_sent_def raw_updateEvents_def Let_def split: prod.splits if_splits
      dest!: raw_write_loop_left)

text \<open>The loop of \<open>handleRead\<close>: the last result of \<open>read\<close>.\<close>

function lt_read_loop :: "bytes \<Rightarrow> int \<Rightarrow> lt \<Rightarrow> ((int + unit) \<times> lt) option" where
  "lt_read_loop resp fd s =
     (case raw_read fd s of
        (Inl e, s') \<Rightarrow> Some (Inl e, s')
      | (Inr b, s') \<Rightarrow>
          if b = [] then Some (Inr (), s')
          else let con = raw_entry lt_con0 fd s'; readed = rc_readed con @ b; s' = raw_set fd (con\<lparr>rc_readed := readed\<rparr>) s'
            in if request_ended readed
               then (case lt_sendRes resp fd s' of None \<Rightarrow> None | Some s'' \<Rightarrow> lt_read_loop resp fd s'')
               else lt_read_loop resp fd s')"
  by pat_completeness auto
termination
  by (relation "measure (\<lambda>(resp, fd, s). script_left s)")
    (auto dest!: raw_read_left(2)[OF sym] lt_sendRes_left)

declare lt_read_loop.simps [simp del]

definition lt_handleRead :: "bytes \<Rightarrow> int \<Rightarrow> lt \<Rightarrow> lt option" where
  "lt_handleRead resp fd s =
     (case lt_read_loop resp fd s of None \<Rightarrow> None
      | Some (n, s) \<Rightarrow>
          if n = Inl EAGAIN \<or> n = Inl EWOULDBLOCK then Some s else Some (raw_erase fd (raw_close fd s)))"

definition lt_handleWrite :: "bytes \<Rightarrow> int \<Rightarrow> lt \<Rightarrow> lt option" where
  "lt_handleWrite resp fd s = lt_sendRes resp fd s"

text \<open>One entry of \<open>activeEvs\<close>, and \<open>loop_once\<close> with what \<open>epoll_wait\<close> gave.\<close>

definition lt_event :: "bytes \<Rightarrow> int \<Rightarrow> int \<times> 32 word \<Rightarrow> lt \<Rightarrow> lt option" where
  "lt_event resp lfd e s =
     (let (fd, events) = e in
      if events AND (EPOLLIN OR EPOLLERR) \<noteq> 0 then
        (if fd = lfd then lt_handleAccept fd s else lt_handleRead resp fd s)
      else if events AND EPOLLOUT \<noteq> 0 then lt_handleWrite resp fd s
      else None)"

primrec lt_loop_once :: "bytes \<Rightarrow> int \<Rightarrow> (int \<times> 32 word) list \<Rightarrow> lt \<Rightarrow> lt option" where
  "lt_loop_once resp lfd [] s = Some s"
| "lt_loop_once resp lfd (e # es) s =
     (case lt_event resp lfd e s of None \<Rightarrow> None | Some s \<Rightarrow> lt_loop_once resp lfd es s)"

text \<open>
  The \<open>for (;;)\<close> of \<open>main\<close>: the states between two waits. The kernel tells of descriptors that are watched,
  and of each an error or an event it is watched for.
\<close>

definition reported :: "(int \<times> 32 word) list \<Rightarrow> int \<times> 32 word \<Rightarrow> bool" where
  "reported watch e \<longleftrightarrow>
     (case map_of watch (fst e) of None \<Rightarrow> False | Some m \<Rightarrow> snd e AND (m OR EPOLLERR) \<noteq> 0)"

inductive lt_runs :: "bytes \<Rightarrow> int \<Rightarrow> lt \<Rightarrow> bool" for resp where
  lt_begin: "raw_main 80 (raw_start script) = Some (lfd, s) \<Longrightarrow> lt_runs resp lfd s"
| lt_round: "lt_runs resp lfd s \<Longrightarrow> list_all (reported (rw_watch s)) evs \<Longrightarrow>
    lt_loop_once resp lfd evs s = Some s' \<Longrightarrow> lt_runs resp lfd s'"

section \<open>The pages of a connection\<close>

text \<open>
  A connection without an entry has had whole pages; one with an entry has had whole pages and a part of
  the next one. A page of which a part has been sent is watched for.
\<close>

definition lt_conn_ok :: "bytes \<Rightarrow> 32 word option \<Rightarrow> lt_con option \<Rightarrow> bytes \<Rightarrow> bool" where
  "lt_conn_ok resp m con out \<longleftrightarrow>
     (case con of
        None \<Rightarrow> m = Some EPOLLIN \<and> (\<exists>k. out = concat (replicate k resp))
      | Some c \<Rightarrow> rc_written c < length resp \<and> (0 < rc_written c \<longrightarrow> rc_writeEnabled c) \<and>
          m = Some (if rc_writeEnabled c then EPOLLIN OR EPOLLOUT else EPOLLIN) \<and>
          (\<exists>k. out = concat (replicate k resp) @ take (rc_written c) resp))"

abbreviation "own_fds \<equiv> {0, 1, 2, 3 :: int}"

definition lt_ok :: "bytes \<Rightarrow> int \<Rightarrow> lt \<Rightarrow> bool" where
  "lt_ok resp lfd s \<longleftrightarrow> raw_wf s \<and> set (rw_open s) = own_fds \<union> dom (map_of (rw_watch s)) \<and>
     own_fds \<inter> dom (map_of (rw_watch s)) = {} \<and> map_of (rw_watch s) lfd = Some EPOLLIN \<and>
     dom (map_of (rw_cons s)) \<subseteq> dom (map_of (rw_watch s)) - {lfd} \<and>
     (\<forall>fd \<in> dom (map_of (rw_watch s)) - {lfd}. lt_conn_ok resp (map_of (rw_watch s) fd) (map_of (rw_cons s) fd) (raw_out fd s))"

text \<open>\<open>EPOLL_CTL_MOD\<close> of a watched descriptor does not fail.\<close>

lemma raw_mod:
  assumes "fd \<in> set (rw_open s)" "map_of (rw_watch s) fd \<noteq> None" "raw_wf s"
  obtains s' where "raw_updateEvents fd ev CtlMod s = Some s'" "raw_wf s'" "rw_open s' = rw_open s"
    "map_of (rw_watch s') = (map_of (rw_watch s))(fd \<mapsto> ev)" "rw_cons s' = rw_cons s" "\<And>g. raw_out g s' = raw_out g s"
proof (rule that)
  show "raw_updateEvents fd ev CtlMod s =
      Some (s\<lparr>rw_world := sys_drop (RCtl CtlMod fd ev) (rw_world s), rw_watch := map_put fd ev (rw_watch s)\<rparr>)"
    using assms by (simp add: raw_updateEvents_def epoll_ctl_def)
qed (use assms in \<open>simp_all add: raw_wf_def raw_out_def\<close>)

declare raw_wfD [simp]

text \<open>A connection that ends leaves the others as they are.\<close>

lemma lt_ok_closed:
  assumes "lt_ok resp lfd s" "fd \<notin> own_fds" "fd \<noteq> lfd" "raw_wf s'" "set (rw_open s') = set (rw_open s) - {fd}"
    "map_of (rw_watch s') = (map_of (rw_watch s))(fd := None)" "map_of (rw_cons s') = (map_of (rw_cons s))(fd := None)"
    "\<And>g. g \<noteq> fd \<Longrightarrow> raw_out g s' = raw_out g s"
  shows "lt_ok resp lfd s'"
  unfolding lt_ok_def
proof (intro conjI ballI)
  fix g assume "g \<in> dom (map_of (rw_watch s')) - {lfd}"
  then show "lt_conn_ok resp (map_of (rw_watch s') g) (map_of (rw_cons s') g) (raw_out g s')"
    using assms by (auto simp: lt_ok_def)
qed (use assms in \<open>auto simp: lt_ok_def\<close>)

lemma lt_ok_conn:
  assumes "lt_ok resp lfd s" "fd \<noteq> lfd" "map_of (rw_watch s) fd \<noteq> None" "raw_wf s'" "rw_open s' = rw_open s"
    "map_of (rw_watch s') = (map_of (rw_watch s))(fd \<mapsto> ev)" "map_of (rw_cons s') = (map_of (rw_cons s))(fd := c)"
    "\<And>g. g \<noteq> fd \<Longrightarrow> raw_out g s' = raw_out g s" "lt_conn_ok resp (Some ev) c (raw_out fd s')"
  shows "lt_ok resp lfd s'"
  unfolding lt_ok_def
proof (intro conjI ballI)
  fix g assume "g \<in> dom (map_of (rw_watch s')) - {lfd}"
  then show "lt_conn_ok resp (map_of (rw_watch s') g) (map_of (rw_cons s') g) (raw_out g s')"
    using assms by (cases "g = fd") (auto simp: lt_ok_def)
qed (use assms in \<open>auto simp: lt_ok_def\<close>)

lemma lt_ok_entry:
  assumes "lt_ok resp lfd s" "fd \<noteq> lfd" "fd \<in> set (rw_open s)" "fd \<notin> own_fds" "resp \<noteq> []" "raw_entry lt_con0 fd s = c"
  shows "lt_conn_ok resp (map_of (rw_watch s) fd) (Some c) (raw_out fd s)"
proof -
  have "lt_conn_ok resp (map_of (rw_watch s) fd) (map_of (rw_cons s) fd) (raw_out fd s)" using assms by (auto simp: lt_ok_def)
  then show ?thesis
    using assms(5,6) by (auto simp: lt_conn_ok_def raw_entry_def lt_con0_def split: option.splits)
qed

text \<open>\<open>sendRes\<close> does not end the process.\<close>

lemma take_append_drop_take: "n \<le> m \<Longrightarrow> take n xs @ drop n (take m xs) = take m xs"
  using append_take_drop_id [of n "take m xs"] by (simp add: min.absorb1)

text \<open>The three ends of \<open>sendRes\<close>: the page is out, the kernel takes no more of it, or the connection is gone.\<close>

lemma lt_sent_page:
  assumes ok: "lt_ok resp lfd s" and fd: "fd \<noteq> lfd" "map_of (rw_watch s) fd = Some (if rc_writeEnabled c then m else EPOLLIN)"
    "fd \<in> set (rw_open s)" and s1: "raw_wf s1" "rw_open s1 = rw_open s" "rw_watch s1 = rw_watch s"
    "map_of (rw_cons s1) = (map_of (rw_cons s))(fd \<mapsto> c)" "\<And>g. g \<noteq> fd \<Longrightarrow> raw_out g s1 = raw_out g s"
    and out: "raw_out fd s1 = concat (replicate k resp)"
  shows "\<exists>s'. lt_sent fd c 0 r s1 = Some s' \<and> lt_ok resp lfd s'"
proof -
  have md: "fd \<in> set (rw_open s1)" "map_of (rw_watch s1) fd \<noteq> None" using fd s1 by auto
  obtain s3 where s3: "lt_sent fd c 0 r s1 = Some (raw_erase fd s3)"
      and s3w: "raw_wf s3" "rw_open s3 = rw_open s1" "map_of (rw_watch s3) = (map_of (rw_watch s1))(fd \<mapsto> EPOLLIN)"
      "rw_cons s3 = rw_cons s1" "\<And>g. raw_out g s3 = raw_out g s1"
  proof (cases "rc_writeEnabled c")
    case True
    from raw_mod [OF md s1(1), where ev = EPOLLIN] obtain s3 where
      "raw_updateEvents fd EPOLLIN CtlMod s1 = Some s3" "raw_wf s3" "rw_open s3 = rw_open s1"
      "map_of (rw_watch s3) = (map_of (rw_watch s1))(fd \<mapsto> EPOLLIN)" "rw_cons s3 = rw_cons s1" "\<And>g. raw_out g s3 = raw_out g s1"
      by blast
    then show thesis using True by (intro that [of s3]) (auto simp: lt_sent_def)
  next
    case False
    then have "map_of (rw_watch s1) fd = Some EPOLLIN" using fd s1 by simp
    then show thesis using s1 False by (intro that [of s1]) (auto simp: lt_sent_def)
  qed
  have "lt_ok resp lfd (raw_erase fd s3)"
    by (rule lt_ok_conn [OF ok fd(1), where ev = EPOLLIN and c = None])
      (use s3w s1 fd out in \<open>auto simp: lt_conn_ok_def simp del: replicate.simps\<close>)
  then show ?thesis using s3 by simp
qed

lemma lt_sent_wait:
  assumes ok: "lt_ok resp lfd s" and fd: "fd \<noteq> lfd"
    "map_of (rw_watch s) fd = Some (if rc_writeEnabled c then EPOLLIN OR EPOLLOUT else EPOLLIN)"
    "fd \<in> set (rw_open s)" and s1: "raw_wf s1" "rw_open s1 = rw_open s" "rw_watch s1 = rw_watch s"
    "map_of (rw_cons s1) = (map_of (rw_cons s))(fd \<mapsto> c)" "\<And>g. g \<noteq> fd \<Longrightarrow> raw_out g s1 = raw_out g s"
    and out: "raw_out fd s1 = concat (replicate k resp) @ take (rc_written c) resp" "rc_written c < length resp"
    and l: "l \<noteq> 0"
  shows "\<exists>s'. lt_sent fd c l (Inl EAGAIN) s1 = Some s' \<and> lt_ok resp lfd s'"
proof (cases "rc_writeEnabled c")
  case True
  have "lt_ok resp lfd s1"
    by (rule lt_ok_conn [OF ok fd(1), where ev = "EPOLLIN OR EPOLLOUT" and c = "Some c"])
      (use True s1 fd out in \<open>auto simp: lt_conn_ok_def\<close>)
  then show ?thesis using True l by (simp add: lt_sent_def)
next
  case False
  have md: "fd \<in> set (rw_open s1)" "map_of (rw_watch s1) fd \<noteq> None" using fd s1 by auto
  obtain s3 where s3: "raw_updateEvents fd (EPOLLIN OR EPOLLOUT) CtlMod s1 = Some s3"
      and s3w: "raw_wf s3" "rw_open s3 = rw_open s1"
      "map_of (rw_watch s3) = (map_of (rw_watch s1))(fd \<mapsto> EPOLLIN OR EPOLLOUT)"
      "rw_cons s3 = rw_cons s1" "\<And>g. raw_out g s3 = raw_out g s1"
    using raw_mod [OF md s1(1), where ev = "EPOLLIN OR EPOLLOUT"] by blast
  have "lt_ok resp lfd (raw_set fd (c\<lparr>rc_writeEnabled := True\<rparr>) s3)"
    by (rule lt_ok_conn [OF ok fd(1), where ev = "EPOLLIN OR EPOLLOUT" and c = "Some (c\<lparr>rc_writeEnabled := True\<rparr>)"])
      (use s3w s1 fd out in \<open>auto simp: lt_conn_ok_def\<close>)
  then show ?thesis using False l s3 by (simp add: lt_sent_def)
qed

lemma lt_sent_lost:
  assumes ok: "lt_ok resp lfd s" and fd: "fd \<notin> own_fds" "fd \<noteq> lfd"
    and s1: "raw_wf s1" "rw_open s1 = rw_open s" "rw_watch s1 = rw_watch s"
    "map_of (rw_cons s1) = (map_of (rw_cons s))(fd \<mapsto> c)" "\<And>g. g \<noteq> fd \<Longrightarrow> raw_out g s1 = raw_out g s"
    and l: "l \<noteq> 0" "r \<noteq> Inl EAGAIN"
  shows "\<exists>s'. lt_sent fd c l r s1 = Some s' \<and> lt_ok resp lfd s'"
proof -
  have "lt_sent fd c l r s1 = Some (raw_erase fd (raw_close fd s1))"
    using l by (simp add: lt_sent_def EAGAIN_def EWOULDBLOCK_def)
  moreover have "lt_ok resp lfd (raw_erase fd (raw_close fd s1))"
    by (rule lt_ok_closed [OF ok fd]) (use s1 in auto)
  ultimately show ?thesis by blast
qed

lemma lt_sendRes_ok:
  assumes ok: "lt_ok resp lfd s" and fd: "fd \<notin> own_fds" "fd \<noteq> lfd" and resp: "resp \<noteq> []"
  shows "\<exists>s'. lt_sendRes resp fd s = Some s' \<and> lt_ok resp lfd s'"
proof -
  define c where "c = raw_entry lt_con0 fd s"
  obtain w l r s1 where lp: "raw_write_loop resp fd (rc_written c) (length resp - rc_written c) s = (w, l, r, s1)"
    by (metis prod_cases4)
  have wf: "raw_wf s" using ok by (simp add: lt_ok_def)
  define c1 where "c1 = c\<lparr>rc_written := w\<rparr>"
  define s2 where "s2 = raw_set fd c1 s1"
  have run: "lt_sendRes resp fd s = lt_sent fd c1 l r s2"
    by (simp add: lt_sendRes_def Let_def c_def [symmetric] lp c1_def s2_def)
  have lt: "rc_written c < length resp"
  proof (cases "fd \<in> set (rw_open s)")
    case True
    then show ?thesis using lt_ok_entry [OF ok fd(2) True fd(1) resp] by (simp add: c_def lt_conn_ok_def)
  next
    case False
    then have "map_of (rw_cons s) fd = None" using ok by (auto simp: lt_ok_def)
    then show ?thesis using resp by (simp add: c_def raw_entry_def lt_con0_def)
  qed
  note f = raw_write_loop_outD [OF lp wf le_add_diff_inverse [OF less_imp_le [OF lt]]]
  note wl = f(6)
  have s2: "raw_wf s2" "rw_open s2 = rw_open s" "rw_watch s2 = rw_watch s"
    "map_of (rw_cons s2) = (map_of (rw_cons s))(fd \<mapsto> c1)" "\<And>g. g \<noteq> fd \<Longrightarrow> raw_out g s2 = raw_out g s"
    using f wf by (auto simp: s2_def)
  show ?thesis
  proof (cases "l \<noteq> 0 \<and> r \<noteq> Inl EAGAIN")
    case True
    then show ?thesis using lt_sent_lost [OF ok fd s2] run by simp
  next
    case False
    then have opn: "fd \<in> set (rw_open s)" using f lt by (auto simp: EBADF_def EAGAIN_def)
    have co: "lt_conn_ok resp (map_of (rw_watch s) fd) (Some c) (raw_out fd s)"
      by (rule lt_ok_entry [OF ok fd(2) opn fd(1) resp]) (simp add: c_def)
    then have wt: "map_of (rw_watch s) fd = Some (if rc_writeEnabled c1 then EPOLLIN OR EPOLLOUT else EPOLLIN)"
      by (simp add: lt_conn_ok_def c1_def)
    obtain k where k: "raw_out fd s = concat (replicate k resp) @ take (rc_written c) resp"
      using co by (auto simp: lt_conn_ok_def)
    have out: "raw_out fd s2 = concat (replicate k resp) @ take w resp"
      by (simp only: s2_def raw_simps k append_assoc f(7) take_append_drop_take [OF f(5)])
    show ?thesis
    proof (cases "l = 0")
      case True
      then have "raw_out fd s2 = concat (replicate (Suc k) resp)"
        using out wl concat_replicate_snoc [of k resp] by (simp del: replicate_Suc)
      then show ?thesis using lt_sent_page [OF ok fd(2) wt opn s2, of "Suc k" r] run True by (simp del: replicate_Suc)
    next
      case l: False
      then show ?thesis
        using lt_sent_wait [OF ok fd(2) wt opn s2, of k l] out False wl run by (simp add: c1_def)
    qed
  qed
qed

lemma lt_read_loop_ok:
  assumes "lt_ok resp lfd s" "fd \<notin> own_fds" "fd \<noteq> lfd" "resp \<noteq> []"
  shows "\<exists>r s'. lt_read_loop resp fd s = Some (r, s') \<and> lt_ok resp lfd s'"
  using assms
proof (induction resp fd s rule: lt_read_loop.induct)
  case (1 resp fd s)
  obtain q s1 where rd: "raw_read fd s = (q, s1)" by fastforce
  have wf: "raw_wf s" using "1.prems"(1) by (simp add: lt_ok_def)
  note s1 = raw_read_frame [OF rd wf]
  have ok1: "lt_ok resp lfd s1" using "1.prems"(1) s1 by (simp add: lt_ok_def)
  show ?case
  proof (cases "\<exists>b. q = Inr b \<and> b \<noteq> []")
    case False
    then show ?thesis using rd ok1 by (auto simp: lt_read_loop.simps [of resp fd s] split: sum.splits)
  next
    case True
    then obtain b where b: "q = Inr b" "b \<noteq> []" by blast
    define c where "c = raw_entry lt_con0 fd s1"
    define s2 where "s2 = raw_set fd (c\<lparr>rc_readed := rc_readed c @ b\<rparr>) s1"
    have opn: "fd \<in> set (rw_open s1)" using s1 b by simp
    have co: "lt_conn_ok resp (map_of (rw_watch s1) fd) (Some c) (raw_out fd s1)"
      by (rule lt_ok_entry [OF ok1 "1.prems"(3) opn "1.prems"(2,4)]) (simp add: c_def)
    then obtain ev where ev: "map_of (rw_watch s1) fd = Some ev" by (auto simp: lt_conn_ok_def)
    have ok2: "lt_ok resp lfd s2"
      by (rule lt_ok_conn [OF ok1 "1.prems"(3), where ev = ev and c = "Some (c\<lparr>rc_readed := rc_readed c @ b\<rparr>)"])
        (use co ev s1 wf in \<open>auto simp: s2_def lt_conn_ok_def\<close>)
    have step: "lt_read_loop resp fd s = (if request_ended (rc_readed c @ b)
        then (case lt_sendRes resp fd s2 of None \<Rightarrow> None | Some s3 \<Rightarrow> lt_read_loop resp fd s3) else lt_read_loop resp fd s2)"
      using rd b by (simp add: lt_read_loop.simps [of resp fd s] Let_def c_def s2_def)
    show ?thesis
    proof (cases "request_ended (rc_readed c @ b)")
      case True
      obtain s3 where s3: "lt_sendRes resp fd s2 = Some s3" "lt_ok resp lfd s3"
        using lt_sendRes_ok [OF ok2 "1.prems"(2-4)] by blast
      have "\<exists>r s'. lt_read_loop resp fd s3 = Some (r, s') \<and> lt_ok resp lfd s'"
        using "1.IH"(1) [OF rd [symmetric] b(1) b(2) refl refl refl] True s3 "1.prems"(2-4) by (simp add: c_def s2_def)
      then show ?thesis using step True s3 by simp
    next
      case False
      have "\<exists>r s'. lt_read_loop resp fd s2 = Some (r, s') \<and> lt_ok resp lfd s'"
        using "1.IH"(2) [OF rd [symmetric] b(1) b(2) refl refl refl] False ok2 "1.prems"(2-4) by (simp add: c_def s2_def)
      then show ?thesis using step False by simp
    qed
  qed
qed

lemma lt_handleRead_ok:
  assumes "lt_ok resp lfd s" "fd \<notin> own_fds" "fd \<noteq> lfd" "resp \<noteq> []"
  shows "\<exists>s'. lt_handleRead resp fd s = Some s' \<and> lt_ok resp lfd s'"
proof -
  obtain r s1 where r: "lt_read_loop resp fd s = Some (r, s1)" "lt_ok resp lfd s1"
    using lt_read_loop_ok [OF assms] by blast
  have "lt_ok resp lfd (raw_erase fd (raw_close fd s1))"
    by (rule lt_ok_closed [OF r(2) assms(2,3)]) (use r(2) in \<open>auto simp: lt_ok_def\<close>)
  then show ?thesis using r by (auto simp: lt_handleRead_def)
qed

lemma lt_handleAccept_ok:
  assumes ok: "lt_ok resp lfd s" and acc: "lt_handleAccept fd s = Some s'"
  shows "lt_ok resp lfd s'"
proof -
  obtain cfd w where cfd: "cfd \<notin> set (rw_open s)" and s': "s' = s\<lparr>rw_open := cfd # rw_open s,
      rw_wrote := map_put cfd [] (rw_wrote s), rw_world := w, rw_watch := map_put cfd EPOLLIN (rw_watch s)\<rparr>"
    using raw_accept_with_frame acc unfolding lt_handleAccept_def by blast
  have wf: "raw_wf s" and "raw_wf s'" using ok by (simp_all add: lt_ok_def s' raw_wf_def del: raw_wfD)
  have new: "cfd \<notin> own_fds" "cfd \<notin> dom (map_of (rw_watch s))" "map_of (rw_cons s) cfd = None"
    using ok cfd by (auto simp: lt_ok_def)
  have w': "map_of (rw_watch s') = (map_of (rw_watch s))(cfd \<mapsto> EPOLLIN)" using wf by (simp add: s')
  have o': "raw_out g s' = (if g = cfd then [] else raw_out g s)" for g using wf by (simp add: s' raw_out_def)
  show ?thesis
    unfolding lt_ok_def
  proof (intro conjI ballI)
    fix g assume "g \<in> dom (map_of (rw_watch s')) - {lfd}"
    then have "g = cfd \<or> g \<in> dom (map_of (rw_watch s)) - {lfd}" using w' by auto
    then show "lt_conn_ok resp (map_of (rw_watch s') g) (map_of (rw_cons s') g) (raw_out g s')"
    proof
      assume "g = cfd"
      then show ?thesis using w' o' new by (auto simp: lt_conn_ok_def s' intro: exI [of _ 0])
    next
      assume "g \<in> dom (map_of (rw_watch s)) - {lfd}"
      then show ?thesis using w' o' new ok by (auto simp: lt_ok_def s')
    qed
  qed (use \<open>raw_wf s'\<close> w' new ok cfd in \<open>auto simp: lt_ok_def s'\<close>)
qed

lemma raw_main_ok: "raw_main 80 (raw_start script) = Some (lfd, s) \<Longrightarrow> lt_ok resp lfd s"
  by (auto simp: raw_main_def raw_start_def raw_sys_def Let_def lowest_fd_start raw_updateEvents_def epoll_ctl_def
      lt_ok_def raw_wf_def simp del: raw_wfD split: prod.splits if_splits option.splits dest!: raw_setNonBlock_frame)

text \<open>\<open>handleAccept\<close> alone can end the process.\<close>

lemma lt_event_ok:
  assumes "lt_ok resp lfd s" "fst e \<notin> own_fds" "resp \<noteq> []" "fst e = lfd \<Longrightarrow> snd e AND (EPOLLIN OR EPOLLERR) \<noteq> 0"
  shows "lt_event resp lfd e s = Some s' \<Longrightarrow> lt_ok resp lfd s'"
    "fst e \<noteq> lfd \<Longrightarrow> snd e AND (EPOLLIN OR EPOLLOUT OR EPOLLERR) \<noteq> 0 \<Longrightarrow> lt_event resp lfd e s \<noteq> None"
proof -
  have bits: "snd e AND (EPOLLIN OR EPOLLOUT OR EPOLLERR) = (snd e AND (EPOLLIN OR EPOLLERR)) OR (snd e AND EPOLLOUT)"
    by (rule bit_word_eqI) (auto simp: bit_simps)
  obtain s1 s2 where h: "fst e \<noteq> lfd \<Longrightarrow> lt_handleRead resp (fst e) s = Some s1 \<and> lt_ok resp lfd s1"
      "fst e \<noteq> lfd \<Longrightarrow> lt_sendRes resp (fst e) s = Some s2 \<and> lt_ok resp lfd s2"
    using lt_handleRead_ok [OF assms(1,2) _ assms(3)] lt_sendRes_ok [OF assms(1,2) _ assms(3)] by metis
  show "lt_event resp lfd e s = Some s' \<Longrightarrow> lt_ok resp lfd s'"
    using h assms(1,4) by (auto simp: lt_event_def lt_handleWrite_def Let_def split: prod.splits if_splits intro: lt_handleAccept_ok)
  show "fst e \<noteq> lfd \<Longrightarrow> snd e AND (EPOLLIN OR EPOLLOUT OR EPOLLERR) \<noteq> 0 \<Longrightarrow> lt_event resp lfd e s \<noteq> None"
    using h bits by (auto simp: lt_event_def lt_handleWrite_def Let_def split: prod.splits if_splits)
qed

lemma lt_loop_once_ok:
  assumes "lt_loop_once resp lfd evs s = Some s'" "lt_ok resp lfd s" "resp \<noteq> []"
    "\<forall>e \<in> set evs. fst e \<notin> own_fds \<and> (fst e = lfd \<longrightarrow> snd e AND (EPOLLIN OR EPOLLERR) \<noteq> 0)"
  shows "lt_ok resp lfd s'"
  using assms by (induction evs arbitrary: s) (auto split: option.splits dest: lt_event_ok(1))

lemma reported_ok:
  assumes "lt_ok resp lfd s" "reported (rw_watch s) e"
  shows "fst e \<notin> own_fds" "fst e = lfd \<Longrightarrow> snd e AND (EPOLLIN OR EPOLLERR) \<noteq> 0"
  using assms by (auto simp: reported_def lt_ok_def split: option.splits)

lemma lt_runs_ok: "lt_runs resp lfd s \<Longrightarrow> resp \<noteq> [] \<Longrightarrow> lt_ok resp lfd s"
proof (induction rule: lt_runs.induct)
  case (lt_begin script lfd s)
  then show ?case by (intro raw_main_ok)
next
  case (lt_round lfd s evs s')
  then have ok: "lt_ok resp lfd s" by simp
  show ?case
    by (rule lt_loop_once_ok [OF lt_round.hyps(3) ok lt_round.prems])
      (use lt_round.hyps(2) reported_ok [OF ok] in \<open>simp add: list_all_iff\<close>)
qed

section \<open>Properties\<close>

text \<open>
  C38: between two waits, a connection has been sent whole pages and a proper part of the next one, in order,
  and when that part is not empty the kernel is asked to tell when more can be written; and no event of a
  connection ends the process.
\<close>

theorem raw_pages_whole:
  assumes "lt_runs resp lfd s" "resp \<noteq> []" "fd \<noteq> lfd" "map_of (rw_watch s) fd = Some m" "ev AND (m OR EPOLLERR) \<noteq> 0"
  shows "(\<exists>k n. n < length resp \<and> raw_out fd s = concat (replicate k resp) @ take n resp \<and>
      (n = 0 \<or> m = EPOLLIN OR EPOLLOUT)) \<and> lt_event resp lfd (fd, ev) s \<noteq> None"
proof
  have ok: "lt_ok resp lfd s" by (rule lt_runs_ok [OF assms(1,2)])
  have "fd \<in> dom (map_of (rw_watch s)) - {lfd}" using assms(3,4) by auto
  with ok have co: "lt_conn_ok resp (Some m) (map_of (rw_cons s) fd) (raw_out fd s)" and own: "fd \<notin> own_fds"
    using assms(4) unfolding lt_ok_def by (metis, blast)
  show "\<exists>k n. n < length resp \<and> raw_out fd s = concat (replicate k resp) @ take n resp \<and> (n = 0 \<or> m = EPOLLIN OR EPOLLOUT)"
  proof (cases "map_of (rw_cons s) fd")
    case None
    then obtain k where "raw_out fd s = concat (replicate k resp) @ take 0 resp" using co by (auto simp: lt_conn_ok_def)
    then show ?thesis using assms(2) by blast
  next
    case (Some c)
    then show ?thesis using co by (auto simp: lt_conn_ok_def)
  qed
  have "m = EPOLLIN \<or> m = EPOLLIN OR EPOLLOUT" using co by (auto simp: lt_conn_ok_def split: option.splits)
  then have "ev AND (EPOLLIN OR EPOLLOUT OR EPOLLERR) \<noteq> 0"
    using assms(5) by (auto simp: or.assoc word_bw_lcs(3) bit_eq_iff bit_simps)
  then show "lt_event resp lfd (fd, ev) s \<noteq> None"
    using lt_event_ok(2) [OF ok _ assms(2)] own assms(3) by simp
qed

text \<open>A client whose request comes in two parts and whose kernel takes half of the page.\<close>

definition raw_demo_script :: "sysres list" where
  "raw_demo_script = [Res 3, Res 4, Res 0, Res 0, Res 2, Res 0, Res 5, Res 0, Res 2, Res 0,
     Got ''GET /'', Got [CR, LF, CR, LF], Res 2, Err 11, Err 11]"

definition raw_demo_first :: "lt option" where
  "raw_demo_first =
     (case raw_main 80 (raw_start raw_demo_script) of None \<Rightarrow> None
      | Some (lfd, s) \<Rightarrow> if lfd = 4 then lt_loop_once ''page'' 4 [(4, EPOLLIN)] s else None)"

definition raw_demo_end :: "lt option" where
  "raw_demo_end = (case raw_demo_first of None \<Rightarrow> None | Some s \<Rightarrow> lt_loop_once ''page'' 4 [(5, EPOLLIN)] s)"

lemma raw_demo_states:
  "map_option (\<lambda>s. rw_watch (snd s)) (raw_main 80 (raw_start raw_demo_script :: lt)) = Some [(4, EPOLLIN)]"
  "map_option rw_watch raw_demo_first = Some [(4, EPOLLIN), (5, EPOLLIN)]"
  "map_option (\<lambda>s. (rw_watch s, raw_out 5 s)) raw_demo_end = Some ([(4, EPOLLIN), (5, EPOLLIN OR EPOLLOUT)], ''pa'')"
  by code_simp+

lemma raw_demo_runs:
  "\<exists>s. raw_demo_end = Some s \<and> lt_runs ''page'' 4 s \<and> map_of (rw_watch s) 5 = Some (EPOLLIN OR EPOLLOUT) \<and> raw_out 5 s = ''pa''"
proof -
  note d = raw_demo_states
  obtain l and s0 :: lt where m: "raw_main 80 (raw_start raw_demo_script) = Some (l, s0)" "rw_watch s0 = [(4, EPOLLIN)]" using d(1) by auto
  obtain s1 where f: "raw_demo_first = Some s1" "rw_watch s1 = [(4, EPOLLIN), (5, EPOLLIN)]" using d(2) by auto
  obtain s2 where e: "raw_demo_end = Some s2" "rw_watch s2 = [(4, EPOLLIN), (5, EPOLLIN OR EPOLLOUT)]" "raw_out 5 s2 = ''pa''"
    using d(3) by auto
  have l: "l = 4" "lt_loop_once ''page'' 4 [(4, EPOLLIN)] s0 = Some s1"
    using f(1) m(1) by (auto simp: raw_demo_first_def split: if_splits)
  have l2: "lt_loop_once ''page'' 4 [(5, EPOLLIN)] s1 = Some s2"
    using e(1) by (simp add: raw_demo_end_def f(1) del: lt_loop_once.simps)
  have "lt_runs ''page'' 4 s0" using lt_begin m l by blast
  then have "lt_runs ''page'' 4 s1"
    by (rule lt_round [OF _ _ l(2)]) (simp add: reported_def m EPOLLIN_def EPOLLERR_def)
  then have "lt_runs ''page'' 4 s2"
    by (rule lt_round [OF _ _ l2]) (simp add: f reported_def EPOLLIN_def EPOLLERR_def)
  then show ?thesis using e by (intro exI [of _ s2]) simp
qed

theorem raw_pages_whole_witness:
  "\<exists>s. raw_demo_end = Some s \<and> raw_out 5 s = ''pa'' \<and>
     (\<exists>k n. n < 4 \<and> raw_out 5 s = concat (replicate k ''page'') @ take n ''page'' \<and> (n = 0 \<or> EPOLLIN OR EPOLLOUT = EPOLLIN OR EPOLLOUT)) \<and>
     lt_event ''page'' 4 (5, EPOLLOUT) s \<noteq> None"
proof -
  obtain s where s: "raw_demo_end = Some s" "lt_runs ''page'' 4 s" "map_of (rw_watch s) 5 = Some (EPOLLIN OR EPOLLOUT)" "raw_out 5 s = ''pa''"
    using raw_demo_runs by blast
  have "EPOLLOUT AND ((EPOLLIN OR EPOLLOUT) OR EPOLLERR) \<noteq> 0" by (simp add: EPOLLIN_def EPOLLOUT_def EPOLLERR_def)
  from raw_pages_whole [OF s(2) _ _ s(3) this]
  have "(\<exists>k n. n < length ''page'' \<and> raw_out 5 s = concat (replicate k ''page'') @ take n ''page'' \<and>
      (n = 0 \<or> EPOLLIN OR EPOLLOUT = EPOLLIN OR EPOLLOUT)) \<and> lt_event ''page'' 4 (5, EPOLLOUT) s \<noteq> None" by simp
  moreover have "length ''page'' = 4" by simp
  ultimately show ?thesis using s(1,4) by (intro exI [of _ s]) (simp only: simp_thms)
qed

end
