(* ===== verification/Handy_Raw_Et.thy ===== *)
theory Handy_Raw_Et
  imports Handy_Raw
begin

text \<open>
  \<open>raw-examples/epoll-et.cc\<close>: the edge-triggered server. It is watched for both events once and for all;
  \<open>EPOLLOUT\<close> on its own goes on with the page, but an entry that also has \<open>EPOLLIN\<close> is only read.
\<close>

type_synonym et = "raw_con raw"

definition et_con0 :: raw_con where
  "et_con0 = \<lparr>rc_readed = [], rc_written = 0\<rparr>"

definition et_handleAccept :: "int \<Rightarrow> et \<Rightarrow> et option" where
  "et_handleAccept fd s = raw_accept_with (EPOLLIN OR EPOLLOUT OR EPOLLET) fd s"

definition et_sent :: "int \<Rightarrow> nat \<Rightarrow> int + nat \<Rightarrow> et \<Rightarrow> et" where
  "et_sent fd left wd s =
     (if left = 0 then raw_erase fd s
      else if wd = Inl EAGAIN \<or> wd = Inl EWOULDBLOCK then s
      else raw_erase fd (raw_close fd s))"

definition et_sendRes :: "bytes \<Rightarrow> int \<Rightarrow> et \<Rightarrow> et" where
  "et_sendRes resp fd s =
     (let con = raw_entry et_con0 fd s; s = raw_set fd con s in
      if rc_readed con = [] then s
      else let (written, left, wd, s) = raw_write_loop resp fd (rc_written con) (length resp - rc_written con) s
        in et_sent fd left wd (raw_set fd (con\<lparr>rc_written := written\<rparr>) s))"

lemma et_sendRes_left: "script_left (et_sendRes resp fd s) \<le> script_left s"
  by (auto simp: et_sendRes_def et_sent_def Let_def split: prod.splits if_splits dest!: raw_write_loop_left)

function et_read_loop :: "bytes \<Rightarrow> int \<Rightarrow> et \<Rightarrow> (int + unit) \<times> et" where
  "et_read_loop resp fd s =
     (case raw_read fd s of
        (Inl e, s') \<Rightarrow> (Inl e, s')
      | (Inr b, s') \<Rightarrow>
          if b = [] then (Inr (), s')
          else let con = raw_entry et_con0 fd s'; readed = rc_readed con @ b; s' = raw_set fd (con\<lparr>rc_readed := readed\<rparr>) s'
            in et_read_loop resp fd (if request_ended readed then et_sendRes resp fd s' else s'))"
  by pat_completeness auto
termination
proof (relation "measure (\<lambda>(resp, fd, s). script_left s)", simp)
  fix resp fd and s :: et and x y b xa xb xc
  assume h: "(x, y) = raw_read fd s" "x = Inr b" "b \<noteq> []" "xa = raw_entry et_con0 fd y" "xb = rc_readed xa @ b"
    "xc = raw_set fd (xa\<lparr>rc_readed := xb\<rparr>) y"
  have "script_left y < script_left s" using raw_read_left(2) [OF _ h(3)] h(1,2) by metis
  moreover have "script_left (et_sendRes resp fd xc) \<le> script_left y" "script_left xc = script_left y"
    using et_sendRes_left [of resp fd xc] h(6) by simp_all
  ultimately show "((resp, fd, if request_ended xb then et_sendRes resp fd xc else xc), resp, fd, s)
      \<in> measure (\<lambda>(resp, fd, s). script_left s)" by simp
qed

declare et_read_loop.simps [simp del]

definition et_handleRead :: "bytes \<Rightarrow> int \<Rightarrow> et \<Rightarrow> et" where
  "et_handleRead resp fd s =
     (let (n, s) = et_read_loop resp fd s in
      if n = Inl EAGAIN \<or> n = Inl EWOULDBLOCK then s else raw_erase fd (raw_close fd s))"

definition et_handleWrite :: "bytes \<Rightarrow> int \<Rightarrow> et \<Rightarrow> et" where
  "et_handleWrite resp fd s = et_sendRes resp fd s"

definition et_event :: "bytes \<Rightarrow> int \<Rightarrow> int \<times> 32 word \<Rightarrow> et \<Rightarrow> et option" where
  "et_event resp lfd e s =
     (let (fd, events) = e in
      if events AND (EPOLLIN OR EPOLLERR) \<noteq> 0 then
        (if fd = lfd then et_handleAccept fd s else Some (et_handleRead resp fd s))
      else if events AND EPOLLOUT \<noteq> 0 then Some (et_handleWrite resp fd s)
      else None)"

primrec et_loop_once :: "bytes \<Rightarrow> int \<Rightarrow> (int \<times> 32 word) list \<Rightarrow> et \<Rightarrow> et option" where
  "et_loop_once resp lfd [] s = Some s"
| "et_loop_once resp lfd (e # es) s =
     (case et_event resp lfd e s of None \<Rightarrow> None | Some s \<Rightarrow> et_loop_once resp lfd es s)"

definition et_main :: "nat \<Rightarrow> et \<Rightarrow> (int \<times> et) option" where
  "et_main port s = raw_main port s"

section \<open>Edges that are not acted on\<close>

definition et_pending :: "bytes \<Rightarrow> int \<Rightarrow> raw_con \<Rightarrow> et \<Rightarrow> bool" where
  "et_pending resp fd c s \<longleftrightarrow> raw_wf s \<and> fd \<in> set (rw_open s) \<and> map_of (rw_cons s) fd = Some c \<and>
     rc_readed c \<noteq> [] \<and> rc_written c < length resp"

lemma raw_read_script:
  assumes "w_script (rw_world s) = Got b # rs" "fd \<in> set (rw_open s)"
  shows "raw_read fd s = (Inr (take 4096 b), s\<lparr>rw_world := \<lparr>w_script = rs, w_trace = w_trace (rw_world s) @ [RRead fd]\<rparr>\<rparr>)"
  using assms by (simp add: raw_read_def raw_sys_def sys_def)

lemma raw_read_script_err:
  assumes "w_script (rw_world s) = Err e # rs" "fd \<in> set (rw_open s)"
  shows "raw_read fd s = (Inl e, s\<lparr>rw_world := \<lparr>w_script = rs, w_trace = w_trace (rw_world s) @ [RRead fd]\<rparr>\<rparr>)"
  using assms by (simp add: raw_read_def raw_sys_def sys_def)

lemma raw_write_script:
  assumes "w_script (rw_world s) = Res n # rs" "fd \<in> set (rw_open s)"
  shows "raw_write fd data s = (Inr (min (nat n) (length data)),
    s\<lparr>rw_world := \<lparr>w_script = rs, w_trace = w_trace (rw_world s) @ [RWrite fd (length data)]\<rparr>,
      rw_wrote := map_put fd (raw_out fd s @ take (min (nat n) (length data)) data) (rw_wrote s)\<rparr>)"
  using assms by (simp add: raw_write_def raw_sys_def sys_def res_int_def raw_out_def Let_def)

lemma raw_write_script_err:
  assumes "w_script (rw_world s) = Err e # rs" "fd \<in> set (rw_open s)"
  shows "raw_write fd data s = (Inl e, s\<lparr>rw_world := \<lparr>w_script = rs, w_trace = w_trace (rw_world s) @ [RWrite fd (length data)]\<rparr>\<rparr>)"
  using assms by (simp add: raw_write_def raw_sys_def sys_def)

text \<open>
  A page is under way and the socket can be written again. If a part of the next request is there as well,
  the entry has both bits, the part is read, and nothing is written.
\<close>

lemma et_loses_edge:
  assumes "et_pending resp fd c s" "fd \<noteq> lfd" "w_script (rw_world s) = Got b # Err 11 # rs" "b \<noteq> []" "length b \<le> 4096"
    "\<not> request_ended (rc_readed c @ b)"
  shows "\<exists>s'. et_event resp lfd (fd, EPOLLIN OR EPOLLOUT) s = Some s' \<and>
    map_of (rw_cons s') fd = Some (c\<lparr>rc_readed := rc_readed c @ b\<rparr>) \<and> raw_out fd s' = raw_out fd s \<and>
    w_trace (rw_world s') = w_trace (rw_world s) @ [RRead fd, RRead fd]"
proof -
  define w where "w = \<lparr>w_script = Err 11 # rs, w_trace = w_trace (rw_world s) @ [RRead fd]\<rparr>"
  define s1 where "s1 = s\<lparr>rw_world := w\<rparr>"
  define s2 where "s2 = raw_set fd (c\<lparr>rc_readed := rc_readed c @ b\<rparr>) s1"
  define s3 where "s3 = s2\<lparr>rw_world := \<lparr>w_script = rs, w_trace = w_trace w @ [RRead fd]\<rparr>\<rparr>"
  have p: "fd \<in> set (rw_open s)" "raw_entry et_con0 fd s1 = c" "raw_wf s"
    using assms(1) by (simp_all add: et_pending_def raw_entry_def s1_def)
  have r1: "raw_read fd s = (Inr b, s1)" using raw_read_script [OF assms(3) p(1)] assms(5) by (simp add: s1_def w_def)
  have r2: "raw_read fd s2 = (Inl 11, s3)"
    using raw_read_script_err [of s2 11 rs fd] p(1) by (simp add: s3_def s2_def s1_def w_def raw_set_def)
  have "et_read_loop resp fd s = (Inl 11, s3)"
    using r1 r2 p(2) assms(4,6) by (simp add: et_read_loop.simps [of resp fd s] et_read_loop.simps [of resp fd s2] Let_def s2_def [symmetric])
  then have "et_event resp lfd (fd, EPOLLIN OR EPOLLOUT) s = Some s3"
    using assms(2) by (simp add: et_event_def et_handleRead_def EAGAIN_def EPOLLIN_def EPOLLERR_def EPOLLOUT_def)
  then show ?thesis using raw_wfD [OF p(3)] by (simp add: s3_def s2_def s1_def w_def raw_set_def raw_out_def)
qed

text \<open>\<open>EPOLLOUT\<close> on its own sends the page for a request of which only a part is there.\<close>

lemma et_answers_early:
  assumes "et_pending resp fd c s" "w_script (rw_world s) = Res (int n) # Err 11 # rs" "0 < n" "n < length resp - rc_written c"
  shows "\<exists>s'. et_event resp lfd (fd, EPOLLOUT) s = Some s' \<and> raw_out fd s' = raw_out fd s @ take n (drop (rc_written c) resp)"
proof -
  have p: "fd \<in> set (rw_open s)" "raw_entry et_con0 fd s = c" "raw_wf s" "rc_readed c \<noteq> []"
    using assms(1) by (simp_all add: et_pending_def raw_entry_def)
  define s0 where "s0 = raw_set fd c s"
  obtain w l r s1 where lp: "raw_write_loop resp fd (rc_written c) (length resp - rc_written c) s0 = (w, l, r, s1)"
    by (metis prod_cases4)
  have z: "w_script (rw_world s0) = Res (int n) # Err 11 # rs" "fd \<in> set (rw_open s0)" "raw_wf s0"
    using assms(2) p by (simp_all add: s0_def raw_set_def raw_wf_def)
  define data where "data = take (length resp - rc_written c) (drop (rc_written c) resp)"
  have len: "length data = length resp - rc_written c" by (simp add: data_def)
  obtain s2 where w1: "raw_write fd data s0 = (Inr n, s2)" "w_script (rw_world s2) = Err 11 # rs" "fd \<in> set (rw_open s2)"
    using raw_write_script [OF z(1,2), of data] z(2) assms(4) by (simp add: len min_def)
  have "w = rc_written c + n"
    using lp w1 raw_write_script_err [OF w1(2,3)] assms(3)
    by (simp add: raw_write_loop.simps [of resp fd "rc_written c" _ s0] data_def [symmetric] raw_write_loop.simps [of resp fd _ _ s2])
  moreover have sum: "rc_written c + (length resp - rc_written c) = length resp" using assms(4) by simp
  moreover have "raw_out fd (et_sent fd l r (raw_set fd (c\<lparr>rc_written := w\<rparr>) s1)) = raw_out fd s1" by (simp add: et_sent_def)
  moreover have "raw_out fd s0 = raw_out fd s" by (simp add: s0_def)
  ultimately show ?thesis
    using p raw_write_loop_outD(7) [OF lp z(3) sum]
    by (simp add: et_event_def et_handleWrite_def et_sendRes_def Let_def s0_def [symmetric] lp EPOLLOUT_def EPOLLIN_def
        EPOLLERR_def drop_take)
qed

end
