(* ===== verification/Handy_Raw_Kqueue.thy ===== *)
theory Handy_Raw_Kqueue
  imports Handy_Raw
begin

text \<open>
  \<open>raw-examples/kqueue.cc\<close>: an echo server on \<open>kqueue\<close>. A descriptor is watched by filters; the bits of
  \<open>rw_watch\<close> tell which of the two are there. Deleting a filter that is not there fails, and so does every
  change for a descriptor that is not open.
\<close>

type_synonym kq = "unit raw"

definition kq_read :: "32 word" where "kq_read = 1"
definition kq_write :: "32 word" where "kq_write = 2"

datatype kq_filter = EVFILT_READ | EVFILT_WRITE

definition filter_bit :: "kq_filter \<Rightarrow> 32 word" where
  "filter_bit f = (case f of EVFILT_READ \<Rightarrow> kq_read | EVFILT_WRITE \<Rightarrow> kq_write)"

definition kq_mask :: "int \<Rightarrow> kq \<Rightarrow> 32 word" where
  "kq_mask fd s = (case map_of (rw_watch s) fd of None \<Rightarrow> 0 | Some m \<Rightarrow> m)"

text \<open>One change of a \<open>kevent\<close> call: \<open>EV_ADD | EV_ENABLE\<close> or \<open>EV_DELETE\<close>.\<close>

definition kq_change :: "int \<Rightarrow> kq_filter \<times> bool \<Rightarrow> kq \<Rightarrow> kq option" where
  "kq_change fd c s =
     (let (f, add) = c; m = kq_mask fd s in
      if fd \<notin> set (rw_open s) \<or> (\<not> add \<and> m AND filter_bit f = 0) then None
      else Some (s\<lparr>rw_watch := map_put fd (if add then m OR filter_bit f else m AND NOT (filter_bit f)) (rw_watch s)\<rparr>))"

primrec kq_kevent :: "int \<Rightarrow> (kq_filter \<times> bool) list \<Rightarrow> kq \<Rightarrow> kq option" where
  "kq_kevent fd [] s = Some s"
| "kq_kevent fd (c # cs) s = (case kq_change fd c s of None \<Rightarrow> None | Some s \<Rightarrow> kq_kevent fd cs s)"

definition kq_updateEvents :: "int \<Rightarrow> 32 word \<Rightarrow> bool \<Rightarrow> kq \<Rightarrow> kq option" where
  "kq_updateEvents fd events modify s =
     kq_kevent fd
       ((if events AND kq_read \<noteq> 0 then [(EVFILT_READ, True)] else if modify then [(EVFILT_READ, False)] else []) @
        (if events AND kq_write \<noteq> 0 then [(EVFILT_WRITE, True)] else if modify then [(EVFILT_WRITE, False)] else [])) s"

definition kq_setNonBlock :: "int \<Rightarrow> kq \<Rightarrow> kq option" where
  "kq_setNonBlock fd s = raw_setNonBlock fd s"

definition kq_handleAccept :: "int \<Rightarrow> kq \<Rightarrow> kq option" where
  "kq_handleAccept fd s =
     (case raw_accept fd s of
        (Inl e, _) \<Rightarrow> None
      | (Inr cfd, s) \<Rightarrow>
          let (r, s) = raw_sys (RPeer cfd) s in
          if res_int r < 0 then None
          else (case kq_setNonBlock cfd s of None \<Rightarrow> None
            | Some s \<Rightarrow> kq_updateEvents cfd (kq_read OR kq_write) False s))"

text \<open>The loop of \<open>handleRead\<close>: what was read is written at once, and only an error of \<open>write\<close> is looked at.\<close>

function kq_read_loop :: "int \<Rightarrow> kq \<Rightarrow> ((int + unit) \<times> kq) option" where
  "kq_read_loop fd s =
     (case raw_read fd s of
        (Inl e, s') \<Rightarrow> Some (Inl e, s')
      | (Inr b, s') \<Rightarrow>
          if b = [] then Some (Inr (), s')
          else (case raw_write fd b s' of
             (Inl e, s'') \<Rightarrow> None
           | (Inr r, s'') \<Rightarrow> if r = 0 then None else kq_read_loop fd s''))"
  by pat_completeness auto
termination
  by (relation "measure (\<lambda>(fd, s). script_left s)")
    (auto dest!: raw_read_left(2)[OF sym] raw_write_left(1)[OF sym])

declare kq_read_loop.simps [simp del]

definition kq_handleRead :: "int \<Rightarrow> kq \<Rightarrow> kq option" where
  "kq_handleRead fd s =
     (case kq_read_loop fd s of None \<Rightarrow> None
      | Some (n, s) \<Rightarrow>
          if n = Inl EAGAIN \<or> n = Inl EWOULDBLOCK then Some s
          else if n \<noteq> Inr () then None
          else Some (raw_close fd s))"

definition kq_handleWrite :: "int \<Rightarrow> kq \<Rightarrow> kq option" where
  "kq_handleWrite fd s = kq_updateEvents fd kq_read True s"

definition kq_event :: "int \<Rightarrow> int \<times> kq_filter \<Rightarrow> kq \<Rightarrow> kq option" where
  "kq_event lfd e s =
     (let (fd, f) = e in
      case f of
        EVFILT_READ \<Rightarrow> if fd = lfd then kq_handleAccept fd s else kq_handleRead fd s
      | EVFILT_WRITE \<Rightarrow> kq_handleWrite fd s)"

primrec kq_loop_once :: "int \<Rightarrow> (int \<times> kq_filter) list \<Rightarrow> kq \<Rightarrow> kq option" where
  "kq_loop_once lfd [] s = Some s"
| "kq_loop_once lfd (e # es) s = (case kq_event lfd e s of None \<Rightarrow> None | Some s \<Rightarrow> kq_loop_once lfd es s)"

definition kq_main :: "nat \<Rightarrow> kq \<Rightarrow> (int \<times> kq) option" where
  "kq_main port s =
     (let (epollfd, s) = raw_sys REpollCreate s in
      if res_int epollfd < 0 then None
      else let epollfd = lowest_fd (rw_open s); s = s\<lparr>rw_open := epollfd # rw_open s\<rparr>; (listenfd, s) = raw_sys RSocket s in
      if res_int listenfd < 0 then None
      else let listenfd = lowest_fd (rw_open s); s = s\<lparr>rw_open := listenfd # rw_open s\<rparr>;
        (r, s) = raw_sys (RBind listenfd port) s in
      if res_int r \<noteq> 0 then None
      else let (r, s) = raw_sys (RListen listenfd 20) s in
      if res_int r \<noteq> 0 then None
      else case kq_setNonBlock listenfd s of None \<Rightarrow> None
        | Some s \<Rightarrow> map_option (\<lambda>s. (listenfd, s)) (kq_updateEvents listenfd kq_read False s))"

section \<open>The echo\<close>

text \<open>What \<open>read\<close> gives piece by piece, and a kernel whose \<open>write\<close> takes every piece whole.\<close>

fun echo_script :: "bytes list \<Rightarrow> sysres list" where
  "echo_script [] = [Err 11]"
| "echo_script (b # bs) = Got b # Res (int (length b)) # echo_script bs"

lemma kq_echo_step:
  assumes "w_script (rw_world s) = Got b # Res r # rs" "fd \<in> set (rw_open s)" "b \<noteq> []" "length b \<le> 4096" "0 < r"
  shows "\<exists>s'. kq_read_loop fd s = kq_read_loop fd s' \<and> w_script (rw_world s') = rs \<and> rw_open s' = rw_open s \<and>
    (raw_wf s \<longrightarrow> raw_wf s' \<and> raw_out fd s' = raw_out fd s @ take (nat r) b) \<and> rw_watch s' = rw_watch s"
proof -
  obtain s1 where s1: "raw_read fd s = (Inr b, s1)" "w_script (rw_world s1) = Res r # rs" "rw_open s1 = rw_open s"
      "rw_watch s1 = rw_watch s" "raw_wf s \<longrightarrow> raw_wf s1" "raw_out fd s1 = raw_out fd s"
    using assms(1,2,4) by (simp add: raw_read_def raw_sys_def sys_def raw_wf_def raw_out_def)
  obtain q s2 where w: "raw_write fd b s1 = (q, s2)" by fastforce
  then have q: "q = Inr (min (nat r) (length b))" "w_script (rw_world s2) = rs" "rw_open s2 = rw_open s1" "rw_watch s2 = rw_watch s1"
    using assms(2) s1(2,3) by (auto simp: raw_write_def raw_sys_def sys_def Let_def res_int_def)
  have "kq_read_loop fd s = kq_read_loop fd s2"
    using s1(1) w q(1) assms(3,5) by (simp add: kq_read_loop.simps [of fd s] min_def)
  moreover have "raw_wf s \<longrightarrow> raw_wf s2 \<and> raw_out fd s2 = raw_out fd s @ take (nat r) b"
  proof
    assume "raw_wf s"
    then have "raw_wf s1" using s1(5) by simp
    from raw_write_frame(1) [OF w this] raw_write_frame(5) [OF w this, of fd] q(1) s1(6)
    show "raw_wf s2 \<and> raw_out fd s2 = raw_out fd s @ take (nat r) b" by (auto simp: min_def)
  qed
  ultimately show ?thesis using q s1 by (intro exI [of _ s2]) simp
qed

lemma kq_end:
  assumes "w_script (rw_world s) = Err 11 # rs" "fd \<in> set (rw_open s)"
  shows "\<exists>s'. kq_read_loop fd s = Some (Inl 11, s') \<and> raw_out fd s' = raw_out fd s \<and> rw_watch s' = rw_watch s"
  using assms by (simp add: kq_read_loop.simps [of fd s] raw_read_def raw_sys_def sys_def raw_out_def)

text \<open>Everything that is read comes back, in order.\<close>

lemma kq_echoes:
  assumes "w_script (rw_world s) = echo_script bs" "fd \<in> set (rw_open s)" "raw_wf s" "\<forall>b \<in> set bs. b \<noteq> [] \<and> length b \<le> 4096"
  shows "\<exists>s'. kq_handleRead fd s = Some s' \<and> raw_out fd s' = raw_out fd s @ concat bs"
proof -
  have "\<exists>s'. kq_read_loop fd s = Some (Inl 11, s') \<and> raw_out fd s' = raw_out fd s @ concat bs"
    using assms
  proof (induction bs arbitrary: s)
    case Nil
    then show ?case using kq_end [of s "[]" fd] by auto
  next
    case (Cons b bs)
    then obtain s1 where s1: "kq_read_loop fd s = kq_read_loop fd s1" "w_script (rw_world s1) = echo_script bs"
        "fd \<in> set (rw_open s1)" "raw_wf s1" "raw_out fd s1 = raw_out fd s @ b"
      using kq_echo_step [of s b "int (length b)" "echo_script bs" fd] by auto
    obtain s' where "kq_read_loop fd s1 = Some (Inl 11, s')" "raw_out fd s' = raw_out fd s1 @ concat bs"
      using Cons.IH [OF s1(2-4)] Cons.prems(4) by auto
    then show ?case using s1 by simp
  qed
  then show ?thesis by (auto simp: kq_handleRead_def EAGAIN_def)
qed

text \<open>A short \<open>write\<close> loses the rest of the piece.\<close>

lemma kq_short_write:
  assumes "w_script (rw_world s) = [Got b, Res (int r), Err 11]" "fd \<in> set (rw_open s)" "raw_wf s"
    "0 < r" "r < length b" "length b \<le> 4096"
  shows "\<exists>s'. kq_handleRead fd s = Some s' \<and> raw_out fd s' = raw_out fd s @ take r b"
proof -
  have "b \<noteq> []" using assms(5) by auto
  then obtain s1 where s1: "kq_read_loop fd s = kq_read_loop fd s1" "w_script (rw_world s1) = [Err 11]"
      "fd \<in> set (rw_open s1)" "raw_out fd s1 = raw_out fd s @ take r b"
    using kq_echo_step [OF assms(1,2) _ assms(6)] assms by auto
  then show ?thesis using kq_end [of s1 "[]" fd] by (auto simp: kq_handleRead_def EAGAIN_def)
qed

text \<open>
  A peer that closes before the first event of its connection was handled: the read filter tells of the end, the
  write filter that the socket can be written. The first handler closes the descriptor, the second one
  changes its filters, which fails and ends the process.
\<close>

lemma kq_early_close:
  assumes "w_script (rw_world s) = Got [] # rs" "fd \<in> set (rw_open s)" "fd \<noteq> lfd"
  shows "kq_loop_once lfd [(fd, EVFILT_READ), (fd, EVFILT_WRITE)] s = None"
proof -
  obtain s1 where "kq_handleRead fd s = Some (raw_close fd s1)"
    using assms by (simp add: kq_handleRead_def kq_read_loop.simps [of fd s] raw_read_def raw_sys_def sys_def)
  then show ?thesis
    using assms(3) by (simp add: kq_event_def kq_handleWrite_def kq_updateEvents_def kq_change_def kq_read_def Let_def)
qed

end
