(* ===== verification/Handy_Load.thy ===== *)
theory Handy_Load
  imports Handy_Timer Handy_Codec Handy_Conn
begin

text \<open>
  The client of the load test (\<open>10m/10m-cli.cc\<close>): its arguments, how the connections are shared out over
  processes and timers, the heartbeats of a worker on the loop's timers, and the reports a worker
  sends to its master. A connection is the port it goes to and its state. \<open>None\<close> is a process that ends
  with an assertion, a division by zero or an exception.
\<close>

section \<open>Arguments\<close>

record cli_args =
  ca_loglevel :: bytes
  ca_host :: bytes
  ca_begin_port :: int
  ca_end_port :: int
  ca_conn_count :: int
  ca_reconnect_interval :: int
  ca_connect_timedout :: int
  ca_create_rate_mils :: int
  ca_concur_num_per_tms :: int
  ca_processes :: int
  ca_heartbeat_interval :: int
  ca_bsz :: int
  ca_data_protol :: int
  ca_man_port :: int

definition cli_default :: cli_args where
  "cli_default = \<lparr>ca_loglevel = ''trace'', ca_host = ''39.106.230.84'', ca_begin_port = 9500, ca_end_port = 9500,
     ca_conn_count = 1, ca_reconnect_interval = - 1, ca_connect_timedout = 0, ca_create_rate_mils = 5000,
     ca_concur_num_per_tms = 1000, ca_processes = 1, ca_heartbeat_interval = 5000, ca_bsz = 64,
     ca_data_protol = 2, ca_man_port = 3031\<rparr>"

text \<open>\<open>None\<close>: the usage is printed and the program returns.\<close>

definition cli_parse :: "bytes list \<Rightarrow> cli_args option" where
  "cli_parse argv =
     (if length argv < 15 then (if length argv \<noteq> 1 then None else Some cli_default)
      else Some \<lparr>ca_loglevel = argv ! 1, ca_host = argv ! 2, ca_begin_port = atoi (argv ! 3), ca_end_port = atoi (argv ! 4),
        ca_conn_count = atoi (argv ! 5), ca_reconnect_interval = atoi (argv ! 6), ca_connect_timedout = atoi (argv ! 7),
        ca_create_rate_mils = atoi (argv ! 8), ca_concur_num_per_tms = atoi (argv ! 9), ca_processes = atoi (argv ! 10),
        ca_heartbeat_interval = atoi (argv ! 11), ca_bsz = atoi (argv ! 12), ca_data_protol = atoi (argv ! 13),
        ca_man_port = atoi (argv ! 14)\<rparr>)"

definition load_codec :: "int \<Rightarrow> codec" where
  "load_codec data_protol = (if data_protol = 1 then LineCodec else if data_protol = 2 then BracketCodec else LengthCodec)"

section \<open>Processes and timers\<close>

text \<open>Division of \<open>int\<close>, towards zero.\<close>

definition c_div :: "int \<Rightarrow> int \<Rightarrow> int" where
  "c_div a b = (if (0 \<le> a) = (0 \<le> b) then \<bar>a\<bar> div \<bar>b\<bar> else - (\<bar>a\<bar> div \<bar>b\<bar>))"

text \<open>\<open>every_process_conn_count\<close> and \<open>create_timer_cnt\<close>.\<close>

definition cli_plan :: "cli_args \<Rightarrow> (int \<times> int) option" where
  "cli_plan a =
     (if ca_conn_count a < ca_processes a \<or> ca_processes a = 0 \<or> ca_concur_num_per_tms a = 0 then None
      else let every = c_div (ca_conn_count a) (ca_processes a); create_timer_cnt = c_div every (ca_concur_num_per_tms a)
        in Some (every, if create_timer_cnt \<le> 0 then 1 else create_timer_cnt))"

text \<open>
  The loop of \<open>fork\<close> as one process sees it: \<open>rs\<close> are the results it gets. A child has 0 and does not go on; the
  answer is \<open>pid\<close> and the number of calls that came before, which sets how long a child sleeps.
\<close>

fun fork_loop :: "int \<Rightarrow> int \<Rightarrow> int \<Rightarrow> int list \<Rightarrow> int \<times> int" where
  "fork_loop processes i pid [] = (pid, i)"
| "fork_loop processes i pid (r # rs) =
     (if i < processes then (if r = 0 then (0, i) else fork_loop processes (i + 1) r rs) else (pid, i))"

definition cli_pid :: "int \<Rightarrow> int list \<Rightarrow> int" where
  "cli_pid processes rs = (if processes > 1 then fst (fork_loop processes 0 1 rs) else 0)"

section \<open>A worker\<close>

datatype load_task = CreateBatch int | HeartBeat | BeatBatch int | SendReport

record load = "load_task timers" +
  ld_ports :: "int list"
  ld_states :: "cstate list"
  ld_buf :: bytes
  ld_idx :: "32 word"
  ld_total :: int
  ld_beats :: "(nat \<times> bytes) list"   \<comment> \<open>the messages handed to \<open>sendMsg\<close> and their connections\<close>
  ld_send :: "32 word"
  ld_connected :: "32 word"
  ld_retry :: "32 word"
  ld_recved :: "32 word"
  ld_active :: "(nat \<times> int) list"
  ld_report :: cstate
  ld_reports :: "bytes list"
  ld_exit :: bool

text \<open>The buffer of the heartbeats: \<open>new char[bsz]\<close>, filled, with the word copied in.\<close>

definition beat_buf :: "int \<Rightarrow> bytes option" where
  "beat_buf bsz =
     (if bsz < 0 then None
      else let buf = replicate (nat bsz) (CHR ''a''); n = nat (min 9 bsz) in Some (take n ''heartbeat'' @ drop n buf))"

definition load_new :: "cli_args \<Rightarrow> int \<Rightarrow> load option" where
  "load_new a now =
     map_option (\<lambda>buf. timers.extend (timers_new now) \<lparr>ld_ports = [], ld_states = [], ld_buf = buf, ld_idx = 0, ld_total = 0,
       ld_beats = [], ld_send = 0, ld_connected = 0, ld_retry = 0, ld_recved = 0, ld_active = [], ld_report = Handshaking,
       ld_reports = [], ld_exit = False\<rparr>) (beat_buf (ca_bsz a))"

text \<open>The port of the \<open>i\<close>-th connection of a batch; \<open>i\<close> is not negative, so \<open>%\<close> takes the size of the divisor.\<close>

definition cli_port :: "cli_args \<Rightarrow> int \<Rightarrow> int" where
  "cli_port a i =
     (if ca_begin_port a \<noteq> ca_end_port a
      then (ca_begin_port a + i mod \<bar>ca_end_port a - ca_begin_port a\<bar>) mod 2 ^ 16
      else ca_begin_port a mod 2 ^ 16)"

text \<open>The timer that creates a batch; \<open>createConnection\<close> leaves the connection in the handshake.\<close>

function create_loop :: "cli_args \<Rightarrow> int \<Rightarrow> int \<Rightarrow> load \<Rightarrow> load" where
  "create_loop a every i s =
     (if i < ca_concur_num_per_tms a
      then let s = s\<lparr>ld_ports := ld_ports s @ [cli_port a i], ld_states := ld_states s @ [Handshaking],
               ld_total := ld_total s + 1\<rparr>
        in if ld_total s \<ge> every then s else create_loop a every (i + 1) s
      else s)"
  by pat_completeness auto
termination by (relation "measure (\<lambda>(a, every, i, s). nat (ca_concur_num_per_tms a - i))") auto

declare create_loop.simps [simp del]

text \<open>The callbacks of connection \<open>j\<close>.\<close>

definition cli_onMsg :: "nat \<Rightarrow> load \<Rightarrow> load" where
  "cli_onMsg j s = s\<lparr>ld_active := map_put j (t_now s) (ld_active s), ld_recved := ld_recved s + 1\<rparr>"

definition cli_onState :: "cli_args \<Rightarrow> nat \<Rightarrow> cstate \<Rightarrow> load \<Rightarrow> load" where
  "cli_onState a j st s =
     (let s = s\<lparr>ld_states := (ld_states s)[j := st]\<rparr> in
      if st = Connected then s\<lparr>ld_connected := ld_connected s + 1\<rparr>
      else if st = Failed \<or> st = Closed then
        (let s = (if st = Closed then s\<lparr>ld_connected := ld_connected s - 1\<rparr> else s)
         in if ca_reconnect_interval a \<noteq> - 1 then s\<lparr>ld_retry := ld_retry s + 1\<rparr> else s)
      else s)"

text \<open>One heartbeat: the counter is written over the beginning of the buffer.\<close>

definition beat :: "nat \<Rightarrow> load \<Rightarrow> load" where
  "beat j s =
     (let idx = ld_idx s + 1; s1 = show_nat (unat idx); n = min (length s1) (length (ld_buf s));
          buf = take n s1 @ drop n (ld_buf s)
      in s\<lparr>ld_idx := idx, ld_buf := buf, ld_beats := ld_beats s @ [(j, buf)], ld_send := ld_send s + 1\<rparr>)"

text \<open>The loop over the connections from \<open>i * concur_num_per_tms\<close> on.\<close>

function beat_loop :: "cli_args \<Rightarrow> int \<Rightarrow> nat \<Rightarrow> load \<Rightarrow> load" where
  "beat_loop a i j s =
     (if j < length (ld_states s) \<and> i < ca_concur_num_per_tms a
      then beat_loop a i (Suc j) (if ld_states s ! j = Connected then beat j s else s)
      else s)"
  by pat_completeness auto
termination
  by (relation "measure (\<lambda>(a, i, j, s). length (ld_states s) - j)") (auto simp: beat_def Let_def)

declare beat_loop.simps [simp del]

definition size_t :: "int \<Rightarrow> nat" where
  "size_t n = nat (n mod 2 ^ 64)"

text \<open>The heartbeat's timer; \<open>allConns.size() / concur_num_per_tms\<close> divides as \<open>size_t\<close>.\<close>

definition beat_timers :: "cli_args \<Rightarrow> load \<Rightarrow> int option" where
  "beat_timers a s =
     (if size_t (ca_concur_num_per_tms a) = 0 then None
      else Some (max (c_int (int (length (ld_states s) div size_t (ca_concur_num_per_tms a)))) 1))"

function post_beats :: "cli_args \<Rightarrow> int \<Rightarrow> int \<Rightarrow> load \<Rightarrow> load" where
  "post_beats a i timer_cnt s =
     (if i < timer_cnt then post_beats a (i + 1) timer_cnt (snd (runAfter (i * ca_create_rate_mils a) (BeatBatch i) 0 s)) else s)"
  by pat_completeness auto
termination by (relation "measure (\<lambda>(a, i, timer_cnt, s). nat (timer_cnt - i))") auto

declare post_beats.simps [simp del]

text \<open>The counters are \<open>unsigned\<close> and printed with \<open>%d\<close>.\<close>

definition report_text :: "int \<Rightarrow> load \<Rightarrow> bytes" where
  "report_text pid s =
     show_int pid @ '' connected: '' @ show_int (sint (ld_connected s)) @ '', retry: '' @ show_int (sint (ld_retry s)) @
       '', send: '' @ show_int (sint (ld_send s)) @ '', recved: '' @ show_int (sint (ld_recved s))"

definition cli_report :: "int \<Rightarrow> load \<Rightarrow> load" where
  "cli_report pid s = (if ld_report s = Connected then s\<lparr>ld_reports := ld_reports s @ [report_text pid s]\<rparr> else s)"

text \<open>The tasks of the worker's timers.\<close>

definition cli_run :: "cli_args \<Rightarrow> int \<Rightarrow> int \<Rightarrow> load_task \<Rightarrow> load \<Rightarrow> load option" where
  "cli_run a every pid t s =
     (case t of
        CreateBatch k \<Rightarrow> Some (create_loop a every 0 s)
      | HeartBeat \<Rightarrow> map_option (\<lambda>n. post_beats a 0 n s) (beat_timers a s)
      | BeatBatch i \<Rightarrow> Some (beat_loop a i (size_t (i * ca_concur_num_per_tms a)) s)
      | SendReport \<Rightarrow> Some (cli_report pid s))"

text \<open>The tasks that are set before the loop starts.\<close>

function post_creates :: "cli_args \<Rightarrow> int \<Rightarrow> int \<Rightarrow> load \<Rightarrow> load" where
  "post_creates a k create_timer_cnt s =
     (if k < create_timer_cnt
      then post_creates a (k + 1) create_timer_cnt (snd (runAfter (ca_create_rate_mils a * k) (CreateBatch k) 0 s)) else s)"
  by pat_completeness auto
termination by (relation "measure (\<lambda>(a, k, create_timer_cnt, s). nat (create_timer_cnt - k))") auto

declare post_creates.simps [simp del]

definition cli_worker :: "cli_args \<Rightarrow> int \<Rightarrow> load option" where
  "cli_worker a now =
     (case cli_plan a of None \<Rightarrow> None
      | Some (every, create_timer_cnt) \<Rightarrow>
          (case load_new a now of None \<Rightarrow> None
           | Some s \<Rightarrow>
               let s = post_creates a 0 create_timer_cnt s;
                   s = (if ca_heartbeat_interval a \<noteq> 0
                     then snd (runAfter (ca_heartbeat_interval a) HeartBeat (ca_heartbeat_interval a) s) else s)
               in Some (snd (runAfter 2000 SendReport 2500 s))))"

text \<open>The callbacks of the connection to the master.\<close>

definition cli_report_onMsg :: "bytes \<Rightarrow> slice \<Rightarrow> load \<Rightarrow> load" where
  "cli_report_onMsg m msg s = (if slice_eq m msg ''exit'' (whole ''exit'') then s\<lparr>ld_exit := True\<rparr> else s)"

definition cli_report_onState :: "cstate \<Rightarrow> load \<Rightarrow> load" where
  "cli_report_onState st s = (let s = s\<lparr>ld_report := st\<rparr> in if st = Closed then s\<lparr>ld_exit := True\<rparr> else s)"

section \<open>The master\<close>

record report =
  rp_connected :: int
  rp_retry :: int
  rp_sended :: int
  rp_recved :: int

text \<open>\<open>atoi\<close> of a field reads on behind it in the input buffer, whose contents are \<open>m\<close>.\<close>

definition field_int :: "bytes \<Rightarrow> slice \<Rightarrow> int" where
  "field_int m f = atoi (drop (s_pb f) m)"

definition cli_master_onMsg :: "bytes \<Rightarrow> slice \<Rightarrow> (int \<times> report) list \<Rightarrow> (int \<times> report) list" where
  "cli_master_onMsg m msg subs =
     (let fs = slice_split m (CHR '' '') msg in
      if length fs \<noteq> 9 then subs
      else map_put (field_int m (fs ! 0))
        \<lparr>rp_connected = field_int m (fs ! 2), rp_retry = field_int m (fs ! 4), rp_sended = field_int m (fs ! 6),
          rp_recved = field_int m (fs ! 8)\<rparr> subs)"

section \<open>Creating the connections\<close>

primrec cli_runs :: "cli_args \<Rightarrow> int \<Rightarrow> int \<Rightarrow> load_task list \<Rightarrow> load \<Rightarrow> load option" where
  "cli_runs a every pid [] s = Some s"
| "cli_runs a every pid (t # ts) s =
     (case cli_run a every pid t s of None \<Rightarrow> None | Some s \<Rightarrow> cli_runs a every pid ts s)"

lemma cli_runs_append:
  "cli_runs a every pid (ts @ us) s = (case cli_runs a every pid ts s of None \<Rightarrow> None | Some s \<Rightarrow> cli_runs a every pid us s)"
  by (induction ts arbitrary: s) (auto split: option.splits)

lemma create_loop_ports:
  assumes "0 < ca_concur_num_per_tms a" "i \<le> ca_concur_num_per_tms a"
    "n = (if i < ca_concur_num_per_tms a then min (ca_concur_num_per_tms a - i) (max 1 (every - ld_total s)) else 0)"
  shows "ld_ports (create_loop a every i s) = ld_ports s @ map (cli_port a) [i..i + n - 1] \<and>
    ld_total (create_loop a every i s) = ld_total s + n"
  using assms
proof (induction a every i s arbitrary: n rule: create_loop.induct)
  case (1 a every i s)
  show ?case
  proof (cases "i < ca_concur_num_per_tms a")
    case False
    then have "create_loop a every i s = s" by (subst create_loop.simps) simp
    moreover have "n = 0" using False "1.prems" by simp
    ultimately show ?thesis by simp
  next
    case i: True
    define s1 where "s1 = s\<lparr>ld_ports := ld_ports s @ [cli_port a i], ld_states := ld_states s @ [Handshaking], ld_total := ld_total s + 1\<rparr>"
    have step: "create_loop a every i s = (if ld_total s1 \<ge> every then s1 else create_loop a every (i + 1) s1)"
      using i by (simp add: create_loop.simps [of a every i s] Let_def s1_def)
    show ?thesis
    proof (cases "ld_total s1 \<ge> every")
      case True
      then have "n = 1" using "1.prems"(3) i by (simp add: s1_def)
      then show ?thesis using True step by (simp add: s1_def)
    next
      case False
      define k where "k = (if i + 1 < ca_concur_num_per_tms a then min (ca_concur_num_per_tms a - (i + 1)) (max 1 (every - ld_total s1)) else 0)"
      have n: "n = k + 1" using False "1.prems"(3) i by (auto simp: k_def s1_def)
      have "0 \<le> k" by (auto simp: k_def)
      then have up: "[i..i + n - 1] = i # [i + 1..i + 1 + k - 1]" using n by (subst upto.simps) simp
      show ?thesis
        using "1.IH" [OF i s1_def False _ _ k_def] "1.prems"(1) i False step n up
        by (simp add: s1_def)
    qed
  qed
qed

lemma create_batches:
  assumes "0 < ca_concur_num_per_tms a" "int k * ca_concur_num_per_tms a \<le> every" "ld_total s = 0" "ld_ports s = []"
  shows "\<exists>s'. cli_runs a every pid (map (\<lambda>k. CreateBatch (int k)) [0..<k]) s = Some s' \<and>
    ld_ports s' = concat (replicate k (map (cli_port a) [0..ca_concur_num_per_tms a - 1])) \<and>
    ld_total s' = int k * ca_concur_num_per_tms a"
  using assms(2)
proof (induction k)
  case 0
  then show ?case using assms by simp
next
  case (Suc k)
  let ?C = "ca_concur_num_per_tms a"
  have le: "int k * ?C + ?C \<le> every" using Suc.prems by (simp add: algebra_simps)
  then obtain s1 where s1: "cli_runs a every pid (map (\<lambda>k. CreateBatch (int k)) [0..<k]) s = Some s1"
      "ld_ports s1 = concat (replicate k (map (cli_port a) [0..?C - 1]))" "ld_total s1 = int k * ?C"
    using Suc.IH assms(1) by auto
  have "?C = (if 0 < ?C then min (?C - 0) (max 1 (every - ld_total s1)) else 0)" using assms(1) le s1(3) by simp
  from create_loop_ports [OF assms(1) _ this] assms(1)
  have "ld_ports (create_loop a every 0 s1) = ld_ports s1 @ map (cli_port a) [0..?C - 1]"
    "ld_total (create_loop a every 0 s1) = ld_total s1 + ?C" by simp_all
  then show ?case
    using s1 concat_replicate_snoc [of k "map (cli_port a) [0..?C - 1]"]
    by (simp add: cli_runs_append cli_run_def algebra_simps del: replicate.simps)
qed

lemma cli_port_range:
  assumes "0 \<le> ca_begin_port a" "ca_begin_port a < ca_end_port a" "ca_end_port a < 2 ^ 16"
  shows "ca_begin_port a \<le> cli_port a i \<and> cli_port a i < ca_end_port a"
proof -
  define d where "d = ca_end_port a - ca_begin_port a"
  have m: "0 \<le> i mod d" "i mod d < d" using assms(2) by (simp_all add: d_def)
  moreover have "cli_port a i = ca_begin_port a + i mod d"
  proof -
    have "cli_port a i = (ca_begin_port a + i mod d) mod 2 ^ 16" using assms(2) by (simp add: cli_port_def d_def)
    also have "\<dots> = ca_begin_port a + i mod d"
      using assms(1,3) m d_def by (intro mod_pos_pos_trivial; linarith)
    finally show ?thesis .
  qed
  ultimately show ?thesis using d_def by linarith
qed

section \<open>The heartbeats\<close>

lemma beat_simps [simp]: "ld_states (beat j s) = ld_states s" "ld_beats (beat j s) = ld_beats s @ [(j, ld_buf (beat j s))]"
  by (simp_all add: beat_def Let_def)

lemma beat_loop_targets:
  assumes "\<forall>st \<in> set (ld_states s). st = Connected" "i < ca_concur_num_per_tms a"
  shows "map fst (ld_beats (beat_loop a i j s)) = map fst (ld_beats s) @ [j..<length (ld_states s)] \<and>
    ld_states (beat_loop a i j s) = ld_states s"
  using assms
proof (induction a i j s rule: beat_loop.induct)
  case (1 a i j s)
  show ?case
  proof (cases "j < length (ld_states s)")
    case True
    then have "beat_loop a i j s = beat_loop a i (Suc j) (beat j s)"
      using "1.prems" by (simp add: beat_loop.simps [of a i j s])
    then show ?thesis using "1.IH" True "1.prems" by (simp add: upt_conv_Cons)
  next
    case False
    then show ?thesis by (simp add: beat_loop.simps [of a i j s])
  qed
qed

lemma beat_loop_none: "\<not> i < ca_concur_num_per_tms a \<Longrightarrow> beat_loop a i j s = s"
  by (simp add: beat_loop.simps)

lemma size_t_id: "0 \<le> n \<Longrightarrow> n < 2 ^ 64 \<Longrightarrow> size_t n = nat n"
  by (simp add: size_t_def)

lemma beat_batches:
  assumes "\<forall>st \<in> set (ld_states s). st = Connected" "ca_concur_num_per_tms a = int c" "int k * int c < 2 ^ 64"
  shows "\<exists>s'. cli_runs a every pid (map (\<lambda>i. BeatBatch (int i)) [0..<k]) s = Some s' \<and> ld_states s' = ld_states s \<and>
    map fst (ld_beats s') = map fst (ld_beats s) @ concat (map (\<lambda>i. [i * c..<length (ld_states s)]) [0..<min k c])"
  using assms(3)
proof (induction k)
  case (Suc k)
  have k: "int k * int c < 2 ^ 64" using Suc.prems by (simp add: algebra_simps)
  then obtain s1 where s1: "cli_runs a every pid (map (\<lambda>i. BeatBatch (int i)) [0..<k]) s = Some s1" "ld_states s1 = ld_states s"
      "map fst (ld_beats s1) = map fst (ld_beats s) @ concat (map (\<lambda>i. [i * c..<length (ld_states s)]) [0..<min k c])"
    using Suc.IH by auto
  have sz: "size_t (int k * ca_concur_num_per_tms a) = k * c" using k assms(2) by (simp add: size_t_def nat_mult_distrib)
  have run: "cli_runs a every pid (map (\<lambda>i. BeatBatch (int i)) [0..<Suc k]) s = Some (beat_loop a (int k) (k * c) s1)"
    using s1(1) sz by (simp add: cli_runs_append cli_run_def)
  show ?case
  proof (cases "k < c")
    case True
    then have "map fst (ld_beats (beat_loop a (int k) (k * c) s1)) = map fst (ld_beats s1) @ [k * c..<length (ld_states s1)]"
      "ld_states (beat_loop a (int k) (k * c) s1) = ld_states s1"
      using beat_loop_targets [of s1 "int k" a "k * c"] assms(1,2) s1(2) by simp_all
    then show ?thesis using run s1 True by (simp add: min_def)
  next
    case False
    then have "beat_loop a (int k) (k * c) s1 = s1" using assms(2) by (intro beat_loop_none) simp
    then show ?thesis using run s1 False by (simp add: min_def)
  qed
qed simp

lemma count_list_upt: "count_list [m..<n] j = (if m \<le> j \<and> j < n then 1 else 0)"
  by (induction n) (auto simp: less_Suc_eq)

lemma count_batches:
  assumes "0 < c" "j < n"
  shows "count_list (concat (map (\<lambda>i. [i * c..<n]) [0..<k])) j = min k (j div c + 1)"
proof (induction k)
  case (Suc k)
  have "k * c \<le> j \<longleftrightarrow> k \<le> j div c" using assms(1) by (simp add: less_eq_div_iff_mult_less_eq)
  moreover have "count_list [k * c..<n] j = (if k * c \<le> j then 1 else 0)"
    using assms(2) by (simp add: count_list_upt)
  ultimately show ?case using Suc.IH by (auto simp: min_def)
qed simp

section \<open>The reports\<close>

lemma fields_join: "parts \<noteq> [] \<Longrightarrow> \<forall>p \<in> set parts. ch \<notin> set p \<Longrightarrow> Handy_Slice.fields ch (join ch parts) = parts"
proof (induction ch parts rule: join.induct)
  case (2 ch f)
  then show ?case using fields_append [of ch f "[]"] by simp
next
  case (3 ch f g fs)
  then show ?case using fields_append [of ch f "ch # join ch (g # fs)"] by simp
qed simp

text \<open>The fields \<open>split\<close> gives lie in the message, and each but the last is followed by a separator.\<close>

lemma split_loop_ends:
  assumes "split_loop m ch p e b r = (b', r')" "b \<le> p" "p \<le> e"
    "\<forall>f \<in> set r. s_pb f \<le> s_pe f \<and> s_pe f < e \<and> m ! s_pe f = ch"
  shows "b' \<le> e \<and> (\<forall>f \<in> set r'. s_pb f \<le> s_pe f \<and> s_pe f < e \<and> m ! s_pe f = ch)"
  using assms
proof (induction m ch p e b r rule: split_loop.induct)
  case (1 m ch p e b r)
  show ?case
  proof (cases "p < e")
    case False
    then have "b' = b \<and> r' = r" using "1.prems"(1) by (subst (asm) split_loop.simps) auto
    then show ?thesis using False "1.prems" by simp
  next
    case True
    show ?thesis
    proof (cases "m ! p = ch")
      case sep: True
      then have "split_loop m ch (Suc p) e (Suc p) (r @ [slice_range b p]) = (b', r')"
        using "1.prems"(1) True by (simp add: split_loop.simps [of m ch p])
      from "1.IH"(1) [OF True sep this] show ?thesis using "1.prems" True sep by (auto simp: slice_range_def)
    next
      case sep: False
      then have "split_loop m ch (Suc p) e b r = (b', r')"
        using "1.prems"(1) True by (simp add: split_loop.simps [of m ch p])
      from "1.IH"(2) [OF True sep this] show ?thesis using "1.prems" True by simp
    qed
  qed
qed

lemma slice_split_ends:
  assumes "slice_ok m s" "f \<in> set (slice_split m ch s)"
  shows "s_pb f \<le> s_pe f \<and> s_pe f \<le> s_pe s \<and> (s_pe f = s_pe s \<or> m ! s_pe f = ch)"
proof -
  obtain b r where lp: "split_loop m ch (s_pb s) (s_pe s) (s_pb s) [] = (b, r)" by fastforce
  have "b \<le> s_pe s \<and> (\<forall>f \<in> set r. s_pb f \<le> s_pe f \<and> s_pe f < s_pe s \<and> m ! s_pe f = ch)"
    using split_loop_ends [OF lp] slice_okD [OF assms(1)] by simp
  then show ?thesis using assms(2) lp by (auto simp: slice_split_def slice_range_def split: if_splits)
qed

lemma field_read:
  assumes "slice_ok m msg" "s_pe msg < length m" "\<not> isdigit (m ! s_pe msg)" "f \<in> set (slice_split m (CHR '' '') msg)"
    "slice_str m f = show_nat n @ t" "n < 2 ^ 31" "t = [] \<or> \<not> isdigit (hd t)"
  shows "field_int m f = int n"
proof -
  note e = slice_split_ends [OF assms(1,4)]
  have lt: "s_pe f < length m" using e assms(2) by simp
  have "drop (s_pb f) m = slice_str m f @ drop (s_pe f) m"
    using e by (simp add: slice_str_def seg_def) (metis append_take_drop_id drop_drop le_add_diff_inverse2)
  moreover have "hd (drop (s_pe f) m) = m ! s_pe f" using lt by (simp add: hd_drop_conv_nth)
  moreover have "\<not> isdigit (m ! s_pe f)" using e assms(3) by (auto simp: isdigit_def)
  ultimately show ?thesis
    unfolding field_int_def using atoi_show_nat [OF assms(6), of "t @ drop (s_pe f) m"] assms(5,7) by (cases t) auto
qed

lemma split_message:
  assumes "slice_ok m msg" "slice_str m msg = join (CHR '' '') parts" "join (CHR '' '') parts \<noteq> []" "parts \<noteq> []"
    "\<forall>p \<in> set parts. CHR '' '' \<notin> set p"
  shows "map (slice_str m) (slice_split m (CHR '' '') msg) = parts"
  using slice_split_fields [OF assms(1)] fields_join [OF assms(4,5)] assms(2,3) by simp

text \<open>A line in the input buffer, and the message its codec cuts out of it.\<close>

lemma line_message:
  assumes "CHR 0x0A \<notin> set w" "w = [] \<or> last w \<noteq> CHR 0x0D" "length (w @ CRLF @ rest) < 2 ^ 31" "w \<noteq> []"
  shows "line_tryDecode (w @ CRLF @ rest) (whole (w @ CRLF @ rest)) msg0 = (int (length w) + 2, slice_len 0 (int (length w)))"
proof -
  let ?s = "w @ CRLF @ rest"
  have tw: "takeWhile (\<lambda>c. c \<noteq> LF) ?s = w @ [CR]" using takeWhile_neq [of LF "w @ [CR]" rest] assms(1) by simp
  show ?thesis
    using line_loop_eq [OF assms(3), of 0 msg0] assms(3,4) tw
    by (simp add: line_tryDecode_def Let_def nth_append)
qed

lemma show_nat_no: "\<not> isdigit c \<Longrightarrow> c \<notin> set (show_nat n)"
  using show_nat_digits by blast

lemma show_nat_last: "last (show_nat n) \<noteq> CHR 0x0D"
proof
  assume "last (show_nat n) = CHR 0x0D"
  then have "CHR 0x0D \<in> set (show_nat n)" using last_in_set [OF show_nat_not_Nil, of n] by simp
  then show False using show_nat_no [of "CHR 0x0D" n] by (simp add: isdigit_def)
qed

text \<open>What a master reads from a line of words, some of which begin with a number.\<close>

lemma words_read:
  assumes "w = join (CHR '' '') parts" "parts \<noteq> []" "w \<noteq> []" "\<forall>p \<in> set parts. CHR '' '' \<notin> set p" "LF \<notin> set w" "last w \<noteq> CR"
    and m: "m = codec_enc LineCodec w @ rest" "length m < 2 ^ 31" and msg: "msg = snd (line_tryDecode m (whole m) msg0)"
  shows "length (slice_split m (CHR '' '') msg) = length parts"
    "i < length parts \<Longrightarrow> parts ! i = show_nat n @ t \<Longrightarrow> n < 2 ^ 31 \<Longrightarrow> t = [] \<or> \<not> isdigit (hd t) \<Longrightarrow>
      field_int m (slice_split m (CHR '' '') msg ! i) = int n"
proof -
  have mw: "m = w @ CRLF @ rest" using m by simp
  have msg': "msg = slice_len 0 (int (length w))"
    using line_message [of w rest msg0] assms(3,5,6) m(2) mw msg by simp
  then have ok: "slice_ok m msg" "s_pe msg = length w" "slice_str m msg = w"
    using m(2) mw by (simp_all add: slice_ok_def slice_len_def slice_str_len0 slice_str_def seg_def)
  have parts: "map (slice_str m) (slice_split m (CHR '' '') msg) = parts"
    by (rule split_message) (use ok assms in simp_all)
  then show len: "length (slice_split m (CHR '' '') msg) = length parts" by (metis length_map)
  assume i: "i < length parts" "parts ! i = show_nat n @ t" "n < 2 ^ 31" "t = [] \<or> \<not> isdigit (hd t)"
  have f: "slice_split m (CHR '' '') msg ! i \<in> set (slice_split m (CHR '' '') msg)" using i(1) len by simp
  have "slice_str m (slice_split m (CHR '' '') msg ! i) = show_nat n @ t" using parts i(1,2) len by (metis nth_map)
  moreover have "s_pe msg < length m" "\<not> isdigit (m ! s_pe msg)" using ok(2) mw by (simp_all add: nth_append isdigit_def)
  ultimately show "field_int m (slice_split m (CHR '' '') msg ! i) = int n"
    using field_read [OF ok(1) _ _ f _ i(3,4)] by simp
qed

definition report_words :: "int \<Rightarrow> load \<Rightarrow> bytes list" where
  "report_words pid s =
     [show_int pid, ''connected:'', show_int (sint (ld_connected s)) @ '','', ''retry:'', show_int (sint (ld_retry s)) @ '','',
      ''send:'', show_int (sint (ld_send s)) @ '','', ''recved:'', show_int (sint (ld_recved s))]"

lemma report_text_words: "report_text pid s = join (CHR '' '') (report_words pid s)"
  by (simp add: report_text_def report_words_def)

section \<open>Properties\<close>

text \<open>
  The batches of a worker create \<open>concur_num_per_tms\<close> connections each and never more than its share in all: the
  remainder of the division of the share by the size of a batch is not created. The ports lie from the first one to
  before the last one.
\<close>

theorem cli_creates:
  assumes "cli_plan a = Some (every, n)" "0 < ca_processes a" "0 < ca_concur_num_per_tms a" "ld_total s = 0" "ld_ports s = []"
    "0 \<le> ca_begin_port a" "ca_begin_port a < ca_end_port a" "ca_end_port a < 2 ^ 16"
  shows "\<exists>s'. cli_runs a every pid (map (\<lambda>k. CreateBatch (int k)) [0..<nat n]) s = Some s' \<and>
    int (length (ld_ports s')) = (if every < ca_concur_num_per_tms a then every else every - every mod ca_concur_num_per_tms a) \<and>
    set (ld_ports s') \<subseteq> {ca_begin_port a..<ca_end_port a}"
proof -
  let ?C = "ca_concur_num_per_tms a"
  have e: "every = ca_conn_count a div ca_processes a" "ca_processes a \<le> ca_conn_count a"
    using assms(1,2) by (auto simp: cli_plan_def c_div_def Let_def split: if_splits)
  then have pos: "0 < every" using assms(2) by (simp add: pos_imp_zdiv_pos_iff)
  then have n: "n = (if every div ?C \<le> 0 then 1 else every div ?C)"
    using assms(1-3) e by (auto simp: cli_plan_def c_div_def Let_def split: if_splits)
  have rng: "set (map (cli_port a) xs) \<subseteq> {ca_begin_port a..<ca_end_port a}" for xs
    using cli_port_range [OF assms(6-8)] by auto
  show ?thesis
  proof (cases "every < ?C")
    case True
    then have n1: "nat n = 1" using n pos by simp
    have "every = (if 0 < ?C then min (?C - 0) (max 1 (every - ld_total s)) else 0)" using True pos assms(3,4) by simp
    from create_loop_ports [OF assms(3) _ this] assms(3,5)
    have "ld_ports (create_loop a every 0 s) = map (cli_port a) [0..0 + every - 1]" by simp
    then show ?thesis using n1 True pos rng [of "[0..0 + every - 1]"] by (simp add: cli_run_def)
  next
    case False
    then have d: "0 < every div ?C" using assms(3) by (simp add: pos_imp_zdiv_pos_iff)
    then have k: "int (nat n) * ?C = every - every mod ?C" using n by (simp add: minus_mod_eq_div_mult)
    then have "int (nat n) * ?C \<le> every" using assms(3) by simp
    from create_batches [OF assms(3) this assms(4,5)] obtain s' where
      s': "cli_runs a every pid (map (\<lambda>k. CreateBatch (int k)) [0..<nat n]) s = Some s'"
        "ld_ports s' = concat (replicate (nat n) (map (cli_port a) [0..?C - 1]))" by blast
    have "int (length (ld_ports s')) = int (nat n) * ?C"
      using assms(3) s'(2) by (simp add: length_concat sum_list_replicate)
    moreover have "set (ld_ports s') \<subseteq> {ca_begin_port a..<ca_end_port a}"
      using s'(2) rng [of "[0..?C - 1]"] by (auto simp: set_replicate_conv_if split: if_splits)
    ultimately show ?thesis using s'(1) k False by auto
  qed
qed

definition ten_args :: cli_args where
  "ten_args = cli_default\<lparr>ca_begin_port := 9500, ca_end_port := 9502, ca_conn_count := 10, ca_processes := 2,
     ca_concur_num_per_tms := 2\<rparr>"

definition idle_load :: load where
  "idle_load = timers.extend (timers_new 0) \<lparr>ld_ports = [], ld_states = [], ld_buf = ''heartbeataaa'', ld_idx = 0, ld_total = 0,
     ld_beats = [], ld_send = 0, ld_connected = 0, ld_retry = 0, ld_recved = 0, ld_active = [], ld_report = Handshaking,
     ld_reports = [], ld_exit = False\<rparr>"

lemma idle_load_simps [simp]:
  "ld_ports idle_load = []" "ld_total idle_load = 0" "ld_beats idle_load = []"
  by (simp_all add: idle_load_def timers.defs)

theorem cli_creates_witness:
  "\<exists>s'. cli_runs ten_args 5 7 [CreateBatch 0, CreateBatch 1] idle_load = Some s' \<and> length (ld_ports s') = 4 \<and>
     set (ld_ports s') \<subseteq> {9500..<9502}"
proof -
  have p: "cli_plan ten_args = Some (5, 2)" by (simp add: cli_plan_def ten_args_def cli_default_def c_div_def)
  have u: "map (\<lambda>k. CreateBatch (int k)) [0..<nat 2] = [CreateBatch 0, CreateBatch 1]" by (simp add: upt_rec)
  show ?thesis using cli_creates [OF p, of idle_load 7] unfolding u by (simp add: ten_args_def cli_default_def)
qed

text \<open>
  In one round of heartbeats over connections that are all up, connection \<open>j\<close> is sent a heartbeat by each of the
  batches \<open>0\<close> to \<open>j div c\<close>: the batches have no upper end, so the later a connection, the more heartbeats it gets.
\<close>

theorem cli_beats_repeat:
  assumes "\<forall>st \<in> set (ld_states s). st = Connected" "ca_concur_num_per_tms a = int c" "0 < c" "c < 2 ^ 31"
    "length (ld_states s) < 2 ^ 31" "ld_beats s = []" "j < length (ld_states s)"
  shows "\<exists>cnt s'. beat_timers a s = Some (int cnt) \<and> cli_runs a every pid (map (\<lambda>i. BeatBatch (int i)) [0..<cnt]) s = Some s' \<and>
    count_list (map fst (ld_beats s')) j = min (min (max 1 (length (ld_states s) div c)) c) (j div c + 1)"
proof -
  let ?n = "length (ld_states s)"
  define cnt where "cnt = max 1 (?n div c)"
  have sz: "size_t (ca_concur_num_per_tms a) = c" using assms(2,4) by (simp add: size_t_def)
  have "?n div c < 2 ^ 31" using assms(5) div_le_dividend [of ?n c] by linarith
  then have small_int: "int (?n div c) < 2 ^ 31" by (metis of_nat_less_iff of_nat_numeral of_nat_power)
  then have "c_int (int (?n div c)) = int (?n div c)" using assms(5) small_int by (intro c_int_id) simp_all
  then have t: "beat_timers a s = Some (int cnt)"
    using assms(3) by (simp add: beat_timers_def sz cnt_def max_def)
  have "cnt * c < 2 ^ 64"
  proof -
    have "?n div c * c \<le> ?n" by simp
    then have "cnt * c \<le> max c ?n" by (auto simp: cnt_def max_def)
    then show ?thesis using assms(4,5) by simp
  qed
  then have "int cnt * int c < 2 ^ 64" by (metis of_nat_less_iff of_nat_mult of_nat_numeral of_nat_power)
  from beat_batches [OF assms(1,2) this] obtain s' where
    "cli_runs a every pid (map (\<lambda>i. BeatBatch (int i)) [0..<cnt]) s = Some s'"
    "map fst (ld_beats s') = map fst (ld_beats s) @ concat (map (\<lambda>i. [i * c..<?n]) [0..<min cnt c])" by blast
  then show ?thesis using t count_batches [OF assms(3,7), of "min cnt c"] assms(6) by (auto simp: cnt_def)
qed

theorem cli_beats_repeat_witness:
  "\<exists>s'. cli_runs ten_args 5 7 [BeatBatch 0, BeatBatch 1] (idle_load\<lparr>ld_states := [Connected, Connected, Connected, Connected]\<rparr>) = Some s' \<and>
     count_list (map fst (ld_beats s')) 3 = 2"
proof -
  define s where "s = idle_load\<lparr>ld_states := [Connected, Connected, Connected, Connected]\<rparr>"
  have t: "beat_timers ten_args s = Some 2"
    by (simp add: beat_timers_def s_def ten_args_def cli_default_def size_t_def idle_load_def timers.defs)
  obtain cnt s' where r: "beat_timers ten_args s = Some (int cnt)"
      "cli_runs ten_args 5 7 (map (\<lambda>i. BeatBatch (int i)) [0..<cnt]) s = Some s'"
      "count_list (map fst (ld_beats s')) 3 = min (min (max 1 (4 div 2)) 2) (3 div 2 + 1)"
    using cli_beats_repeat [of s ten_args 2 3 5 7] by (auto simp: s_def ten_args_def cli_default_def)
  then have "cnt = 2" using t by simp
  then show ?thesis using r(2,3) by (simp add: s_def upt_rec)
qed

text \<open>
  C40: A line the worker reports is cut out of the master's input as one message, and the master records under the
  worker's number the counters the worker has.
\<close>

theorem report_recorded:
  assumes "0 \<le> pid" "pid < 2 ^ 31" "0 \<le> sint (ld_connected s)" "0 \<le> sint (ld_retry s)" "0 \<le> sint (ld_send s)"
    "0 \<le> sint (ld_recved s)" "m = codec_enc LineCodec (report_text pid s) @ rest" "length m < 2 ^ 31"
  shows "cli_master_onMsg m (snd (line_tryDecode m (whole m) msg0)) subs =
    map_put pid \<lparr>rp_connected = sint (ld_connected s), rp_retry = sint (ld_retry s), rp_sended = sint (ld_send s),
      rp_recved = sint (ld_recved s)\<rparr> subs"
proof -
  have up: "sint x < 2 ^ 31" for x :: "32 word" using sint_less [of x] by simp
  have sn: "show_int k = show_nat (nat k)" if "0 \<le> k" for k using that by (simp add: show_int_def)
  note nums = assms(1,3-6)
  have no: "CHR '' '' \<notin> set (show_nat n)" "LF \<notin> set (show_nat n)" for n by (simp_all add: show_nat_no isdigit_def)
  have sep: "\<forall>p \<in> set (report_words pid s). CHR '' '' \<notin> set p" "LF \<notin> set (report_text pid s)" "last (report_text pid s) \<noteq> CR"
    using no show_nat_last by (simp_all add: report_words_def report_text_def sn nums)
  have ne: "report_words pid s \<noteq> []" "report_text pid s \<noteq> []" by (simp_all add: report_words_def report_text_def)
  note rd = words_read [OF report_text_words ne sep(1) sep(2,3) assms(7,8) refl, where ?msg0.0 = msg0]
  have nat_up: "k < 2 ^ 31 \<Longrightarrow> nat k < 2 ^ 31" for k :: int by (simp add: nat_less_iff)
  have f: "field_int m (slice_split m (CHR '' '') (snd (line_tryDecode m (whole m) msg0)) ! i) = k"
    if "i < 9" "report_words pid s ! i = show_nat (nat k) @ t" "0 \<le> k" "k < 2 ^ 31" "t = [] \<or> t = '',''" for i k t
    using rd(2) [of i "nat k" t] that nat_up [of k] by (auto simp: report_words_def isdigit_def)
  have "length (slice_split m (CHR '' '') (snd (line_tryDecode m (whole m) msg0))) = 9"
    using rd(1) by (simp add: report_words_def)
  moreover note f [of 0 pid "[]"] f [of 2 "sint (ld_connected s)" "'',''"] f [of 4 "sint (ld_retry s)" "'',''"]
    f [of 6 "sint (ld_send s)" "'',''"] f [of 8 "sint (ld_recved s)" "[]"]
  ultimately show ?thesis
    using assms(2) nums up sn by (simp add: cli_master_onMsg_def Let_def report_words_def)
qed

theorem report_recorded_witness:
  "let w = report_text 77 (idle_load\<lparr>ld_connected := 3, ld_retry := 1, ld_send := 250, ld_recved := 249\<rparr>);
       m = codec_enc LineCodec w @ ''78 conn''
   in cli_master_onMsg m (snd (line_tryDecode m (whole m) (whole []))) [] =
        [(77, \<lparr>rp_connected = 3, rp_retry = 1, rp_sended = 250, rp_recved = 249\<rparr>)]"
proof -
  define s where "s = idle_load\<lparr>ld_connected := 3, ld_retry := 1, ld_send := 250, ld_recved := 249\<rparr>"
  have sn: "show_int k = show_nat (nat k)" if "0 \<le> k" for k using that by (simp add: show_int_def)
  have "length (show_nat 77) \<le> 2" "length (show_nat 3) \<le> 1" "length (show_nat 1) \<le> 1" "length (show_nat 250) \<le> 3" "length (show_nat 249) \<le> 3"
    using length_show_nat [of _ 1] length_show_nat [of _ 2] length_show_nat [of _ 3] by (force simp: max_def)+
  then have len: "length (codec_enc LineCodec (report_text 77 s) @ ''78 conn'') < 2 ^ 31"
    by (simp add: report_text_def s_def sn)
  show ?thesis
    using report_recorded [of 77 s _ "''78 conn''" "whole []" "[]", OF _ _ _ _ _ _ refl len]
    by (simp add: s_def Let_def)
qed

end
