(* ===== verification/Handy_Load_Svr.thy ===== *)
theory Handy_Load_Svr
  imports Handy_Load Handy_Server
begin

text \<open>
  The server of the load test (\<open>10m/10m-svr.cc\<close>): its arguments, the ports a worker listens on, the counters its
  connections keep, the report it sends, and what the master records of it. \<open>None\<close> is a process that ends or
  touches memory that is not its own.
\<close>

section \<open>Arguments\<close>

record svr_args =
  sa_loglevel :: bytes
  sa_begin_port :: int
  sa_end_port :: int
  sa_processes :: int
  sa_data_protol :: int
  sa_man_port :: int

definition svr_default :: svr_args where
  "svr_default = \<lparr>sa_loglevel = ''error'', sa_begin_port = 9500, sa_end_port = 9500, sa_processes = 1, sa_data_protol = 2,
     sa_man_port = 3031\<rparr>"

definition svr_parse :: "bytes list \<Rightarrow> svr_args option" where
  "svr_parse argv =
     (if length argv < 7 then (if length argv \<noteq> 1 then None else Some svr_default)
      else Some \<lparr>sa_loglevel = argv ! 1, sa_begin_port = atoi (argv ! 2), sa_end_port = atoi (argv ! 3),
        sa_processes = atoi (argv ! 4), sa_data_protol = atoi (argv ! 5), sa_man_port = atoi (argv ! 6)\<rparr>)"

definition svr_codec :: "svr_args \<Rightarrow> codec" where
  "svr_codec a = (if sa_data_protol a = 1 then LineCodec else if sa_data_protol a = 2 then BracketCodec else LengthCodec)"

definition svr_pid :: "int \<Rightarrow> int list \<Rightarrow> int" where
  "svr_pid processes rs = (if processes > 1 then fst (fork_loop processes 0 1 rs) else 0)"

section \<open>A worker\<close>

text \<open>
  \<open>sv_conns\<close> are the connection objects that live and \<open>sv_cd\<close> tells whether the codec \<open>cd\<close> does: each connection
  holds it in a \<open>unique_ptr\<close>.
\<close>

record svr =
  sv_servers :: "tcp_server list"
  sv_conns :: "nat list"
  sv_cd :: bool
  sv_connected :: int
  sv_closed :: int
  sv_recved :: int
  sv_sent :: "(nat \<times> bytes) list"
  sv_report :: cstate
  sv_reports :: "bytes list"
  sv_exit :: bool

definition svr_new :: svr where
  "svr_new = \<lparr>sv_servers = [], sv_conns = [], sv_cd = True, sv_connected = 0, sv_closed = 0, sv_recved = 0, sv_sent = [],
     sv_report = Handshaking, sv_reports = [], sv_exit = False\<rparr>"

text \<open>
  The loop over the ports. A server that could not be bound is a null pointer, and \<open>p->onConnCreate\<close> goes through it.
  \<open>resolver\<close> is not asked: the host is empty.
\<close>

function svr_listen :: "srv_task multi \<Rightarrow> svr_args \<Rightarrow> int \<Rightarrow> svr \<times> sworld \<Rightarrow> (svr \<times> sworld) option" where
  "svr_listen bases a i sw =
     (if i \<le> sa_end_port a - sa_begin_port a
      then (case startServer bases (Ip4Addr (\<lambda>_. None) '''' (word_of_int (sa_begin_port a + i))) True (snd sw) of
          Some (Some p, w) \<Rightarrow> svr_listen bases a (i + 1) ((fst sw)\<lparr>sv_servers := sv_servers (fst sw) @ [p]\<rparr>, w)
        | _ \<Rightarrow> None)
      else Some sw)"
  by pat_completeness auto
termination by (relation "measure (\<lambda>(bases, a, i, sw). nat (sa_end_port a - sa_begin_port a + 1 - i))") auto

declare svr_listen.simps [simp del]

text \<open>\<open>createcb_\<close>: a new connection, given the codec.\<close>

definition svr_onConnCreate :: "nat \<Rightarrow> svr \<Rightarrow> svr" where
  "svr_onConnCreate j s = s\<lparr>sv_conns := sv_conns s @ [j]\<rparr>"

definition svr_onState :: "cstate \<Rightarrow> svr \<Rightarrow> svr" where
  "svr_onState st s =
     (if st = Connected then s\<lparr>sv_connected := sv_connected s + 1\<rparr>
      else if st = Closed \<or> st = Failed then s\<lparr>sv_closed := sv_closed s + 1, sv_connected := sv_connected s - 1\<rparr>
      else s)"

text \<open>A message the codec has cut out of the input of connection \<open>j\<close> goes back through it.\<close>

definition svr_onMsg :: "nat \<Rightarrow> bytes \<Rightarrow> svr \<Rightarrow> svr option" where
  "svr_onMsg j msg s =
     (if \<not> sv_cd s then None else Some (s\<lparr>sv_recved := sv_recved s + 1, sv_sent := sv_sent s @ [(j, msg)]\<rparr>))"

text \<open>The end of a connection object deletes what its \<open>unique_ptr\<close> holds.\<close>

definition svr_conn_deleted :: "nat \<Rightarrow> svr \<Rightarrow> svr option" where
  "svr_conn_deleted j s = (if \<not> sv_cd s then None else Some (s\<lparr>sv_conns := removeAll j (sv_conns s), sv_cd := False\<rparr>))"

definition svr_report_text :: "int \<Rightarrow> svr \<Rightarrow> bytes" where
  "svr_report_text pid s =
     show_int pid @ '', connected: '' @ show_int (sv_connected s) @ '', closed: '' @ show_int (sv_closed s) @
       '', recved: '' @ show_int (sv_recved s)"

definition svr_report :: "int \<Rightarrow> svr \<Rightarrow> svr" where
  "svr_report pid s =
     (if sv_report s = Connected then s\<lparr>sv_reports := sv_reports s @ [svr_report_text pid s]\<rparr> else s)"

definition svr_report_onMsg :: "bytes \<Rightarrow> slice \<Rightarrow> svr \<Rightarrow> svr" where
  "svr_report_onMsg m msg s = (if slice_eq m msg ''exit'' (whole ''exit'') then s\<lparr>sv_exit := True\<rparr> else s)"

definition svr_report_onState :: "cstate \<Rightarrow> svr \<Rightarrow> svr" where
  "svr_report_onState st s = (let s = s\<lparr>sv_report := st\<rparr> in if st = Closed then s\<lparr>sv_exit := True\<rparr> else s)"

section \<open>The master\<close>

record svr_rep =
  sr_connected :: "64 word"
  sr_closed :: "64 word"
  sr_recved :: "64 word"

definition svr_master_onMsg :: "bytes \<Rightarrow> slice \<Rightarrow> (int \<times> svr_rep) list \<Rightarrow> (int \<times> svr_rep) list" where
  "svr_master_onMsg m msg subs =
     (let fs = slice_split m (CHR '' '') msg in
      if length fs \<noteq> 7 then subs
      else map_put (field_int m (fs ! 0))
        \<lparr>sr_connected = word_of_int (field_int m (fs ! 2)), sr_closed = word_of_int (field_int m (fs ! 4)),
          sr_recved = word_of_int (field_int m (fs ! 6))\<rparr> subs)"

section \<open>The ports\<close>

text \<open>A socket that can be bound, listened on and polled: what the calls of one server answer.\<close>

definition listen_script :: "int \<Rightarrow> sysres list" where
  "listen_script fd = [Res fd, Res 0, Res 0, Res 0, Res 0, Res 0, Res 0, Res 2, Res 0]"

lemma startServer_bound:
  assumes "server_of bases = Some s" "w_script w = listen_script fd @ rs"
  shows "\<exists>p w'. startServer bases addr True w = Some (Some p, w') \<and> w_script w' = rs \<and> tcp_server.s_addr p = Some addr \<and>
    map_option ch_fd (s_listen p) = Some fd"
  using assms
  by (cases w) (simp add: startServer_def server_bind_def bound_socket_def net_setReuseAddr_def net_setReusePort_def
      addFdFlag_def new_channel_def net_setNonBlock_def listen_script_def sys_simps Let_def)

text \<open>A worker listens on every port from the first to the last, both included.\<close>

lemma svr_listen_ports:
  assumes "server_of bases = Some s0" "w_script (snd sw) = concat (map listen_script fds) @ rs"
    "int (length fds) = sa_end_port a - sa_begin_port a + 1 - i"
  shows "\<exists>s' w'. svr_listen bases a i sw = Some (s', w') \<and> w_script w' = rs \<and>
    map tcp_server.s_addr (sv_servers s') = map tcp_server.s_addr (sv_servers (fst sw)) @
      map (\<lambda>p. Some (Ip4Addr (\<lambda>_. None) '''' (word_of_int p))) [sa_begin_port a + i..sa_end_port a] \<and>
    map (\<lambda>p. map_option ch_fd (s_listen p)) (sv_servers s') = map (\<lambda>p. map_option ch_fd (s_listen p)) (sv_servers (fst sw)) @ map Some fds"
  using assms(2,3)
proof (induction fds arbitrary: i sw)
  case Nil
  then have "svr_listen bases a i sw = Some sw" by (simp add: svr_listen.simps [of bases a i sw])
  then show ?case using Nil by (cases sw) simp
next
  case (Cons fd fds)
  let ?addr = "Ip4Addr (\<lambda>_. None) '''' (word_of_int (sa_begin_port a + i))"
  obtain p w where p: "startServer bases ?addr True (snd sw) = Some (Some p, w)" "w_script w = concat (map listen_script fds) @ rs"
      "tcp_server.s_addr p = Some ?addr" "map_option ch_fd (s_listen p) = Some fd"
    using startServer_bound [OF assms(1), of "snd sw" fd "concat (map listen_script fds) @ rs" ?addr] Cons.prems(1) by auto
  have i: "i \<le> sa_end_port a - sa_begin_port a" using Cons.prems(2) by simp
  then have step: "svr_listen bases a i sw = svr_listen bases a (i + 1) ((fst sw)\<lparr>sv_servers := sv_servers (fst sw) @ [p]\<rparr>, w)"
    using p(1) by (simp add: svr_listen.simps [of bases a i sw])
  have up: "[sa_begin_port a + i..sa_end_port a] = (sa_begin_port a + i) # [sa_begin_port a + (i + 1)..sa_end_port a]"
    using i by (subst upto.simps) (simp add: add.assoc)
  show ?case
    using Cons.IH [of "((fst sw)\<lparr>sv_servers := sv_servers (fst sw) @ [p]\<rparr>, w)" "i + 1"] p Cons.prems(2) step up by auto
qed

text \<open>A port that is taken: the null pointer is used.\<close>

lemma svr_listen_taken:
  assumes "server_of bases = Some s0" "sa_begin_port a \<le> sa_end_port a"
    "w_script w = [Res fd, Res 0, Res 0, Res 0, Res 0, Err 98] @ rs"
  shows "svr_listen bases a 0 (s, w) = None"
  using assms
  by (cases w) (simp add: svr_listen.simps [of bases a 0] startServer_def server_bind_def bound_socket_def net_setReuseAddr_def
      net_setReusePort_def addFdFlag_def sys_simps Let_def)

section \<open>The shared codec\<close>

text \<open>
  All connections of a worker hold the same codec, each as its own. When the first of them has ended, the next message and
  the next end of a connection use memory that was given back.
\<close>

lemma svr_codec_shared:
  assumes "svr_conn_deleted j s = Some s'"
  shows "svr_onMsg k msg s' = None" "svr_conn_deleted k s' = None"
  using assms by (auto simp: svr_conn_deleted_def svr_onMsg_def split: if_splits)

section \<open>Properties\<close>

definition svr_words :: "int \<Rightarrow> svr \<Rightarrow> bytes list" where
  "svr_words pid s =
     [show_int pid @ '','', ''connected:'', show_int (sv_connected s) @ '','', ''closed:'', show_int (sv_closed s) @ '','',
      ''recved:'', show_int (sv_recved s)]"

lemma svr_report_words: "svr_report_text pid s = join (CHR '' '') (svr_words pid s)"
  by (simp add: svr_report_text_def svr_words_def)

lemma svr_report_recorded:
  assumes "0 \<le> pid" "pid < 2 ^ 31" "0 \<le> sv_connected s" "sv_connected s < 2 ^ 31" "0 \<le> sv_closed s" "sv_closed s < 2 ^ 31"
    "0 \<le> sv_recved s" "sv_recved s < 2 ^ 31" "m = codec_enc LineCodec (svr_report_text pid s) @ rest" "length m < 2 ^ 31"
  shows "svr_master_onMsg m (snd (line_tryDecode m (whole m) msg0)) subs =
    map_put pid \<lparr>sr_connected = word_of_int (sv_connected s), sr_closed = word_of_int (sv_closed s),
      sr_recved = word_of_int (sv_recved s)\<rparr> subs"
proof -
  have sn: "show_int k = show_nat (nat k)" if "0 \<le> k" for k using that by (simp add: show_int_def)
  note nums = assms(1,3,5,7)
  have no: "CHR '' '' \<notin> set (show_nat n)" "LF \<notin> set (show_nat n)" for n by (simp_all add: show_nat_no isdigit_def)
  have sep: "\<forall>p \<in> set (svr_words pid s). CHR '' '' \<notin> set p" "LF \<notin> set (svr_report_text pid s)" "last (svr_report_text pid s) \<noteq> CR"
    using no show_nat_last by (simp_all add: svr_words_def svr_report_text_def sn nums)
  have ne: "svr_words pid s \<noteq> []" "svr_report_text pid s \<noteq> []" by (simp_all add: svr_words_def svr_report_text_def)
  note rd = words_read [OF svr_report_words ne sep(1) sep(2,3) assms(9,10) refl, where ?msg0.0 = msg0]
  have nat_up: "k < 2 ^ 31 \<Longrightarrow> nat k < 2 ^ 31" for k :: int by (simp add: nat_less_iff)
  have f: "field_int m (slice_split m (CHR '' '') (snd (line_tryDecode m (whole m) msg0)) ! i) = k"
    if "i < 7" "svr_words pid s ! i = show_nat (nat k) @ t" "0 \<le> k" "k < 2 ^ 31" "t = [] \<or> t = '',''" for i k t
    using rd(2) [of i "nat k" t] that nat_up [of k] by (auto simp: svr_words_def isdigit_def)
  have "length (slice_split m (CHR '' '') (snd (line_tryDecode m (whole m) msg0))) = 7"
    using rd(1) by (simp add: svr_words_def)
  moreover note f [of 0 pid "'',''"] f [of 2 "sv_connected s" "'',''"] f [of 4 "sv_closed s" "'',''"] f [of 6 "sv_recved s" "[]"]
  ultimately show ?thesis
    using assms(2,4,6,8) nums sn by (simp add: svr_master_onMsg_def Let_def svr_words_def)
qed

end
