(* ===== verification/Handy_Chat.thy ===== *)
theory Handy_Chat
  imports Handy_Codec Handy_Conn Handy_Status
begin

text \<open>
  The chat server (\<open>examples/chat.cc\<close>): the users, a connection for each, and the messages that are passed between
  them. A connection is a number; \<open>ch_ctx\<close> is what \<open>context<int>()\<close> of each holds and \<open>ch_sent\<close> what was handed to \<open>sendMsg\<close>.
\<close>

record chat =
  ch_users :: "(int \<times> nat) list"
  ch_userid :: int
  ch_ctx :: "(nat \<times> int) list"
  ch_sent :: "(nat \<times> bytes) list"

definition chat_new :: chat where
  "chat_new = \<lparr>ch_users = [], ch_userid = 1, ch_ctx = [], ch_sent = []\<rparr>"

definition chat_send :: "nat \<Rightarrow> bytes \<Rightarrow> chat \<Rightarrow> chat" where
  "chat_send c text s = s\<lparr>ch_sent := ch_sent s @ [(c, text)]\<rparr>"

definition chat_welcome :: "int \<Rightarrow> bytes" where
  "chat_welcome userid =
     util_format (''<id> <msg>: send msg to <id>'' @ [LF] @ ''<msg>: send msg to all'' @ [LF, LF] @ ''hello '' @ show_int userid)"

definition chat_ctx :: "nat \<Rightarrow> chat \<Rightarrow> int" where
  "chat_ctx c s = (case map_of (ch_ctx s) c of None \<Rightarrow> 0 | Some u \<Rightarrow> u)"

definition chat_onState :: "nat \<Rightarrow> cstate \<Rightarrow> chat \<Rightarrow> chat" where
  "chat_onState c st s =
     (if st = Connected then
        (let s = s\<lparr>ch_ctx := map_put c (ch_userid s) (ch_ctx s)\<rparr>;
             s = chat_send c (chat_welcome (ch_userid s)) s;
             s = s\<lparr>ch_users := map_put (ch_userid s) c (ch_users s)\<rparr>
         in s\<lparr>ch_userid := ch_userid s + 1\<rparr>)
      else if st = Closed then s\<lparr>ch_users := map_erase (chat_ctx c s) (ch_users s)\<rparr>
      else s)"

text \<open>\<open>strtol(p, &p, 10)\<close>: how far the pointer moves. Without a digit it stays.\<close>

definition strtol_end :: "bytes \<Rightarrow> nat" where
  "strtol_end t =
     (let ws = length (takeWhile isspace t); u = drop ws t;
          sg = (if u \<noteq> [] \<and> (hd u = CHR ''-'' \<or> hd u = CHR ''+'') then 1 else 0);
          ds = length (takeWhile isdigit (drop sg u))
      in if ds = 0 then 0 else ws + sg + ds)"

text \<open>
  \<open>"%ld# %.*s"\<close>. A negative precision counts as none. \<open>m\<close> is the input buffer, in which \<open>strtol\<close> and the format read on
  behind the message.
\<close>

definition chat_text :: "int \<Rightarrow> bytes \<Rightarrow> int \<Rightarrow> nat \<Rightarrow> bytes" where
  "chat_text cid m n p =
     util_format (show_int cid @ ''# '' @ (if c_int n < 0 then cstr (drop p m) else take (nat (c_int n)) (cstr (drop p m))))"

definition sent_report :: "nat \<Rightarrow> bytes" where
  "sent_report n = util_format (''#sended to '' @ show_nat n @ '' users'')"

text \<open>The loop over the users and the lookup of one.\<close>

fun send_others :: "int \<Rightarrow> bytes \<Rightarrow> (int \<times> nat) list \<Rightarrow> nat \<times> chat \<Rightarrow> nat \<times> chat" where
  "send_others cid resp [] ns = ns"
| "send_others cid resp ((u, c) # us) ns =
     send_others cid resp us (if u \<noteq> cid then (Suc (fst ns), chat_send c resp (snd ns)) else ns)"

definition send_one :: "int \<Rightarrow> bytes \<Rightarrow> nat \<times> chat \<Rightarrow> nat \<times> chat" where
  "send_one uid resp ns =
     (case map_of (ch_users (snd ns)) uid of None \<Rightarrow> ns | Some c \<Rightarrow> (Suc (fst ns), chat_send c resp (snd ns)))"

definition chat_onMsg :: "nat \<Rightarrow> bytes \<Rightarrow> slice \<Rightarrow> chat \<Rightarrow> chat" where
  "chat_onMsg c m msg s =
     (if slice_size msg = 0 then s
      else
        let cid = chat_ctx c s;
            uid = strtol10 (drop (s_pb msg) m);
            p = s_pb msg + strtol_end (drop (s_pb msg) m);
            p = (if p < length m \<and> m ! p = CHR '' '' then Suc p else p);
            resp = chat_text cid m (int (s_pe msg) - int p) p;
            (sended, s) = (if uid = 0 then send_others cid resp (ch_users s) (0, s) else send_one uid resp (0, s))
        in chat_send c (sent_report sended) s)"

section \<open>The users\<close>

text \<open>A connection object comes up once, as a new one; one that is up can close or send a line.\<close>

inductive chat_reach :: "chat \<Rightarrow> bool" where
  chat_begin: "chat_reach chat_new"
| chat_up: "chat_reach s \<Longrightarrow> map_of (ch_ctx s) c = None \<Longrightarrow> chat_reach (chat_onState c Connected s)"
| chat_down: "chat_reach s \<Longrightarrow> map_of (ch_users s) u = Some c \<Longrightarrow> chat_reach (chat_onState c Closed s)"
| chat_line: "chat_reach s \<Longrightarrow> map_of (ch_users s) u = Some c \<Longrightarrow> chat_reach (chat_onMsg c m msg s)"

definition chat_ok :: "chat \<Rightarrow> bool" where
  "chat_ok s \<longleftrightarrow> map_ok (ch_users s) \<and> map_ok (ch_ctx s) \<and>
     (\<forall>u c. map_of (ch_users s) u = Some c \<longrightarrow> u < ch_userid s \<and> map_of (ch_ctx s) c = Some u)"

lemma chat_send_simps [simp]:
  "ch_users (chat_send c t s) = ch_users s" "ch_userid (chat_send c t s) = ch_userid s" "ch_ctx (chat_send c t s) = ch_ctx s"
  "ch_sent (chat_send c t s) = ch_sent s @ [(c, t)]"
  by (simp_all add: chat_send_def)

lemma send_others_frame:
  "ch_users (snd (send_others cid r us ns)) = ch_users (snd ns) \<and> ch_userid (snd (send_others cid r us ns)) = ch_userid (snd ns) \<and>
   ch_ctx (snd (send_others cid r us ns)) = ch_ctx (snd ns)"
  by (induction cid r us ns rule: send_others.induct) auto

lemma send_others_sent:
  "ch_sent (snd (send_others cid r us ns)) = ch_sent (snd ns) @ map (\<lambda>u. (snd u, r)) (filter (\<lambda>u. fst u \<noteq> cid) us) \<and>
   fst (send_others cid r us ns) = fst ns + length (filter (\<lambda>u. fst u \<noteq> cid) us)"
  by (induction cid r us ns rule: send_others.induct) auto

lemma send_one_frame:
  "ch_users (snd (send_one uid r ns)) = ch_users (snd ns) \<and> ch_userid (snd (send_one uid r ns)) = ch_userid (snd ns) \<and>
   ch_ctx (snd (send_one uid r ns)) = ch_ctx (snd ns)"
  by (simp add: send_one_def split: option.splits)

lemma chat_onMsg_frame:
  "ch_users (chat_onMsg c m msg s) = ch_users s \<and> ch_userid (chat_onMsg c m msg s) = ch_userid s \<and>
   ch_ctx (chat_onMsg c m msg s) = ch_ctx s"
  by (simp add: chat_onMsg_def Let_def split_def send_others_frame send_one_frame)

lemma chat_reach_ok: "chat_reach s \<Longrightarrow> chat_ok s"
proof (induction rule: chat_reach.induct)
  case chat_begin
  then show ?case by (simp add: chat_ok_def chat_new_def)
next
  case (chat_up s c)
  then show ?case by (auto simp: chat_ok_def chat_onState_def Let_def dest: less_trans) force+
next
  case (chat_down s u c)
  then show ?case by (auto simp: chat_ok_def chat_onState_def)
next
  case (chat_line s u c m msg)
  then show ?case by (simp add: chat_ok_def chat_onMsg_frame)
qed

text \<open>No connection stands for two users.\<close>

lemma users_distinct: "chat_ok s \<Longrightarrow> distinct (map snd (ch_users s))"
proof -
  assume ok: "chat_ok s"
  have u: "map_of (ch_ctx s) (snd p) = Some (fst p)" if "p \<in> set (ch_users s)" for p
    using ok that by (cases p) (simp add: chat_ok_def map_of_set)
  have "inj_on snd (set (ch_users s))"
    by (rule inj_onI) (metis u option.inject prod_eqI)
  moreover have "distinct (ch_users s)"
    using ok map_ok_distinct [of "ch_users s"] by (simp add: chat_ok_def distinct_map)
  ultimately show ?thesis by (simp add: distinct_map)
qed

section \<open>Delivery\<close>

text \<open>A line as a user types it: to everybody (\<open>v = 0\<close>) or to the user \<open>v\<close>.\<close>

definition chat_typed :: "nat \<Rightarrow> bytes \<Rightarrow> bytes" where
  "chat_typed v body = (if v = 0 then body else show_nat v @ '' '' @ body)"

definition chat_fine :: "nat \<Rightarrow> bytes \<Rightarrow> bool" where
  "chat_fine v body \<longleftrightarrow> v < 2 ^ 63 \<and> NUL \<notin> set body \<and>
     (v = 0 \<longrightarrow> body \<noteq> [] \<and> \<not> isspace (hd body) \<and> \<not> isdigit (hd body) \<and> hd body \<noteq> CHR ''-'' \<and> hd body \<noteq> CHR ''+'')"

definition chat_targets :: "int \<Rightarrow> nat \<Rightarrow> chat \<Rightarrow> nat list" where
  "chat_targets u v s =
     (if v = 0 then map snd (filter (\<lambda>x. fst x \<noteq> u) (ch_users s))
      else case map_of (ch_users s) (int v) of None \<Rightarrow> [] | Some d \<Rightarrow> [d])"

lemma strtol_show:
  assumes "t = [] \<or> \<not> isdigit (hd t)"
  shows "strtol10 (show_nat n @ t) = min (2 ^ 63 - 1) (int n)" "strtol_end (show_nat n @ t) = length (show_nat n)"
proof -
  obtain a as where e: "show_nat n = a # as" by (cases "show_nat n") auto
  have a: "\<not> isspace a" "a \<noteq> CHR ''-''" "a \<noteq> CHR ''+''" using show_nat_hd [of n] e by auto
  have rd: "read_digits 0 (a # as @ t) = n"
    using read_digits_append [OF show_nat_digits, of 0 n t] assms read_show_nat [of n] e
    by (simp only: append_Cons read_digits_stop)
  have tw: "takeWhile isdigit (a # as @ t) = a # as"
    using show_nat_digits [of n] assms e by (cases t) (auto simp: takeWhile_append)
  show "strtol10 (show_nat n @ t) = min (2 ^ 63 - 1) (int n)" using a rd by (simp add: strtol10_def e Let_def)
  show "strtol_end (show_nat n @ t) = length (show_nat n)" using a tw by (simp add: strtol_end_def e Let_def)
qed

lemma strtol_none:
  assumes "t \<noteq> []" "\<not> isspace (hd t)" "\<not> isdigit (hd t)" "hd t \<noteq> CHR ''-''" "hd t \<noteq> CHR ''+''"
  shows "strtol10 t = 0" "strtol_end t = 0"
  using assms by (cases t; simp add: strtol10_def strtol_end_def Let_def)+

lemma chat_text_typed:
  assumes "NUL \<notin> set body" "length (show_int u) + 2 + length body < 30000"
  shows "chat_text u (pre @ body @ rest) (int (length pre + length body) - int (length pre)) (length pre) = show_int u @ ''# '' @ body"
proof -
  have "c_int (int (length body)) = int (length body)"
    using assms(2) by (simp add: c_int_def signed_of_nat signed_take_bit_int_eq_self)
  moreover have "take (length body) (cstr (body @ rest)) = body"
    using assms(1) by (simp add: cstr_prefix)
  ultimately show ?thesis
    using assms show_int_NUL [of u] by (simp add: chat_text_def util_format_take cstr_id)
qed


text \<open>Three users, of whom the second writes a line to all.\<close>

definition chat_three :: chat where
  "chat_three = chat_onState 30 Connected (chat_onState 20 Connected (chat_onState 10 Connected chat_new))"

lemma chat_three_users:
  "ch_users chat_three = [(1, 10), (2, 20), (3, 30)]" "ch_ctx chat_three = [(10, 1), (20, 2), (30, 3)]"
  by (simp_all add: chat_three_def chat_onState_def chat_new_def Let_def)

lemma char_of_50: "char_of (50 :: nat) = CHR ''2''"
  by code_simp

lemma chat_three_reach: "chat_reach chat_three"
  unfolding chat_three_def
  by (intro chat_reach.intros) (simp_all add: chat_onState_def chat_new_def Let_def)


end
