(* ===== verification/Handy_Examples.thy ===== *)
theory Handy_Examples
  imports Handy_Ini Handy_Logger Handy_Stat Handy_Udp Handy_Timer
begin

text \<open>
  What the programs of \<open>src/examples\<close> add to the library: the callbacks of the UDP echo and of the HTTP greeting, the
  settings of \<open>daemon.cc\<close>, the pages and commands of \<open>stat.cc\<close> and the schedule of \<open>timer.cc\<close>.
\<close>

section \<open>udp-svr.cc\<close>

text \<open>A read event with the callback that sends each datagram back.\<close>

definition udp_echo :: "sockaddr_in \<Rightarrow> udp_server \<Rightarrow> sworld \<Rightarrow> sworld" where
  "udp_echo raddr s w =
     (case udp_recv raddr s w of
        (None, w) \<Rightarrow> w
      | (Some (buf, peer), w) \<Rightarrow> udp_sendTo (buf_str buf) peer s w)"

text \<open>Every datagram goes back to its sender, cut after 4096 bytes; errors are passed over.\<close>

definition echo_calls :: "int \<Rightarrow> bytes option \<times> sockaddr_in \<Rightarrow> sock_call list" where
  "echo_calls fd p = RecvFrom fd kUdpPacketSize #
     (case fst p of None \<Rightarrow> [] | Some b \<Rightarrow> [SendTo fd (take kUdpPacketSize b) (snd p)])"

definition echo_results :: "bytes option \<times> sysres \<Rightarrow> sysres list" where
  "echo_results p = packet (fst p) # (case fst p of None \<Rightarrow> [] | Some b \<Rightarrow> [snd p])"

lemma udp_echoes:
  assumes "open_fd (u_chan s) = Some fd" "length rs = length ps"
  shows "fold (\<lambda>p. udp_echo (snd p) s) ps \<lparr>w_script = concat (map echo_results (zip (map fst ps) rs)) @ rest, w_trace = tr\<rparr> =
    \<lparr>w_script = rest, w_trace = tr @ concat (map (echo_calls fd) ps)\<rparr>"
  using assms(2)
proof (induction ps arbitrary: rs tr)
  case (Cons p ps)
  obtain r rs' where rs: "rs = r # rs'" using Cons.prems by (cases rs) auto
  let ?w = "\<lparr>w_script = concat (map echo_results (zip (map fst (p # ps)) rs)) @ rest, w_trace = tr\<rparr>"
  have "udp_echo (snd p) s ?w =
      \<lparr>w_script = concat (map echo_results (zip (map fst ps) rs')) @ rest, w_trace = tr @ echo_calls fd p\<rparr>"
    using packet_buffer(2) [of "take kUdpPacketSize b" for b]
    by (cases "fst p") (simp_all add: udp_echo_def udp_recv_def udp_sendTo_def assms(1) rs echo_results_def echo_calls_def packet_simps sys_simps)
  then show ?case using Cons.IH [of rs' "tr @ echo_calls fd p"] Cons.prems rs by simp
qed simp

section \<open>http-hello.cc\<close>

definition hello_cb :: http_cb where
  "hello_cb l cx =
     (let v = h_version (x_req (snd cx)); resp = resp_new\<lparr>h_body := ''hello world''\<rparr> in
      map_option (\<lambda>cx. if v = ''HTTP/1.0'' then (tcp_close (fst cx), snd cx) else cx) (sendResponse l resp cx))"

definition hello_sample :: http_server where
  "hello_sample = onGet ''/hello'' hello_cb server_new"

text \<open>
  A request for \<open>/hello\<close> is greeted, whatever its query and its headers; a client of HTTP 1.0 is also closed, by a task of the
  loop.
\<close>

lemma hello_answers:
  assumes "chan_open c" and "WReset \<notin> set (c_writes c)" and "buf_ok (c_output c)" and "buf_ok (c_input c)"
    and "\<not> isClient c" and "x_req x = req_new" and "req_fine q"
    and "buf_str (c_input c) = buf_str (snd (req_encode q buf_new)) @ rest" and "length (buf_str (c_input c)) < 2 ^ 31"
    and "q_method q = ''GET''" and "takeWhile (\<lambda>c. c \<noteq> CHR ''?'') (q_query_uri q) = ''/hello''"
  shows "\<exists>c' q'. http_handleRead (http_dispatch hello_sample) l (c, x) =
      Some (if h_version q = ''HTTP/1.0'' then tcp_close c' else c', x\<lparr>x_req := req_clear q'\<rparr>) \<and> c_chan c' \<noteq> None \<and>
    out_stream c' = out_stream c @ resp_bytes (resp_new\<lparr>h_body := ''hello world''\<rparr>) \<and> buf_str (c_input c') = rest"
proof -
  let ?resp = "resp_new\<lparr>h_body := ''hello world''\<rparr>"
  obtain c1 q' n where run: "http_handleRead (http_dispatch hello_sample) l (c, x) = http_dispatch hello_sample l (c1, x\<lparr>x_req := q'\<rparr>)"
    and d: "q_method q' = ''GET''" "q_uri q' = ''/hello''" "h_version q' = h_version q"
    and pre: "chan_open c1" "WReset \<notin> set (c_writes c1)" "buf_ok (c_output c1)" "buf_ok (c_input c1)" "\<not> isClient c1"
    and out: "out_stream c1 = out_stream c" and n: "getByte q' = int n" "n \<le> length (buf_str (c_input c1))" "n < 2 ^ 31"
    and rest: "drop n (buf_str (c_input c1)) = rest"
    by (rule request_dispatched_full [OF assms(1-9), of "http_dispatch hello_sample" l]) (simp add: assms(10,11))
  have "getByte (x_req (x\<lparr>x_req := q'\<rparr>)) = int n" using n(1) by simp
  from sendResponse_sent [OF pre this n(2,3), of l ?resp]
  obtain c' where c': "sendResponse l ?resp (c1, x\<lparr>x_req := q'\<rparr>) = Some (c', x\<lparr>x_req := req_clear q'\<rparr>)"
      "out_stream c' = out_stream c1 @ resp_bytes ?resp" "buf_str (c_input c') = drop n (buf_str (c_input c1))" "chan_open c'"
    by auto
  have "http_dispatch hello_sample l (c1, x\<lparr>x_req := q'\<rparr>) = hello_cb l (c1, x\<lparr>x_req := q'\<rparr>)"
    using d(1,2) by (simp add: http_dispatch_def hello_sample_def onGet_def onRequest_def server_new_def)
  moreover have "c_chan c' \<noteq> None" using c'(4) by (auto simp: chan_open_def split: option.splits)
  ultimately show ?thesis
    using c' d(3) out rest by (intro exI [of _ c'] exI [of _ q']) (simp add: run hello_cb_def Let_def)
qed

definition hello_threads :: "bytes list \<Rightarrow> int" where
  "hello_threads argv = (if length argv > 1 then atoi (argv ! 1) else 1)"

section \<open>daemon.cc\<close>

text \<open>
  The settings of the logger, from the configuration file; \<open>None\<close> is \<open>fatalif\<close> for one that cannot be read.
\<close>

definition daemon_logger :: "bytes \<Rightarrow> bytes option \<Rightarrow> logger \<times> lworld \<Rightarrow> (logger \<times> lworld) option" where
  "daemon_logger program file gw =
     (let (r, conf) = conf_parse file [] in
      if r \<noteq> 0 then None
      else
        let logfile = conf_get conf [] ''logfile'' (program @ ''.log'');
            loglevel = conf_get conf [] ''loglevel'' ''INFO'';
            rotateInterval = conf_getInteger conf [] ''log_rotate_interval'' 86400
        in map_option (\<lambda>(g, w). (setRotateInterval rotateInterval (setLogLevelName loglevel g), w)) (setFileName (cstr logfile) gw))"

lemma daemon_configured:
  assumes "ini_fine [] ls" "w_script w = Res fd # rs" "0 \<le> fd"
    "logfile = (if ini_lookup ls [] ''logfile'' = [] then program @ ''.log'' else last (ini_lookup ls [] ''logfile''))"
    "level = (if ini_lookup ls [] ''loglevel'' = [] then ''INFO'' else last (ini_lookup ls [] ''loglevel''))"
    "ini_lookup ls [] ''log_rotate_interval'' = vs @ [show_int n]" "- (2 ^ 63) \<le> n" "n < 2 ^ 63"
  shows "\<exists>g w'. daemon_logger program (Some (ini_text ls)) (logger_new now, w) = Some (g, w') \<and> lg_fd g = fd \<and>
    lg_filename g = cstr logfile \<and> lg_level g = lg_level (setLogLevelName level (logger_new now)) \<and> lg_interval g = n"
proof -
  obtain m where m: "conf_parse (Some (ini_text ls)) [] = (0, m)" using conf_parsed [OF assms(1)] by blast
  then have g: "conf_get m [] ''logfile'' (program @ ''.log'') = logfile" "conf_get m [] ''loglevel'' ''INFO'' = level"
    using conf_parsed [OF assms(1), of "[]" "''logfile''" "program @ ''.log''"] conf_parsed [OF assms(1), of "[]" "''loglevel''" "''INFO''"]
      assms(4,5) by auto
  have i: "conf_getInteger m [] ''log_rotate_interval'' 86400 = n"
    using conf_integer_read [OF assms(1,6-8), of 86400] m by simp
  show ?thesis
    using assms(2,3) m
    by (cases w) (simp add: daemon_logger_def g i setFileName_def sys_simps logger_new_def setLogLevelName_def setLogLevel_def
        setRotateInterval_def Let_def)
qed

text \<open>A configuration file with a meaningless line, or none, stops the program.\<close>

lemma daemon_bad_config: "fst (conf_parse file []) \<noteq> 0 \<Longrightarrow> daemon_logger program file gw = None"
  by (simp add: daemon_logger_def split_beta)

lemma daemon_no_config: "daemon_logger program None gw = None"
  by (simp add: daemon_logger_def conf_parse_def)

section \<open>stat.cc\<close>

datatype sample_task = Restart | Stop

text \<open>
  The pages and commands, with the level of the logger and the number of the process; and what a command does besides its
  answer: it sets the level or gives the loop a task.
\<close>

definition sample_stat :: "int \<Rightarrow> logger \<Rightarrow> stat_server" where
  "sample_stat pid g =
     onPage ''page'' ''show page content'' ''this is a page''
       (onCmd ''stop'' ''stop program'' ''stoping''
         (onCmd ''restart'' ''restart program'' ''restarting''
           (onCmd ''morelog'' ''set log to more detail'' ''OK''
             (onCmd ''lesslog'' ''set log to less detail'' ''OK''
               (onState ''pid'' ''process id of server'' (util_format (show_int pid))
                 (onState ''loglevel'' ''log level for server'' (getLogLevelStr g) stat_new))))))"

definition sample_command :: "bytes \<Rightarrow> logger \<times> sample_task list \<Rightarrow> logger \<times> sample_task list" where
  "sample_command query gt =
     (let (g, ts) = gt in
      if query = ''lesslog'' then (adjustLogLevel (- 1) g, ts)
      else if query = ''morelog'' then (adjustLogLevel 1 g, ts)
      else if query = ''restart'' then (g, ts @ [Restart])
      else if query = ''stop'' then (g, ts @ [Stop])
      else gt)"

text \<open>One request. The index page shows the level as the command has left it.\<close>

definition sample_request ::
    "int \<Rightarrow> http_req \<Rightarrow> http_resp \<Rightarrow> logger \<times> sample_task list \<Rightarrow> ((http_req \<times> http_resp) \<times> logger \<times> sample_task list) option" where
  "sample_request pid q p gt =
     (case stat_query q of None \<Rightarrow> None
      | Some query \<Rightarrow>
          let gt = sample_command query gt
          in map_option (\<lambda>r. (r, gt)) (stat_answer (sample_stat pid (fst gt)) q p))"

lemma sample_pages:
  "map_option (\<lambda>cb. cb q p) (map_of (st_all (sample_stat pid g)) key) =
     map_option (\<lambda>text. p\<lparr>h_body := text\<rparr>)
       (map_of [(''loglevel'', getLogLevelStr g), (''pid'', util_format (show_int pid)), (''lesslog'', ''OK''), (''morelog'', ''OK''),
          (''restart'', ''restarting''), (''stop'', ''stoping''), (''page'', ''this is a page'')] key)"
proof -
  have ok: "map_ok (st_all stat_new)" "map_of (st_all stat_new) key = None" by (simp_all add: stat_new_def)
  show ?thesis
    using ok by (simp add: sample_stat_def onPage_def onCmd_def onState_def info_cb_def fun_eq_iff)
qed

text \<open>The commands for the level keep it in its range, and the page of the level shows it.\<close>

lemma sample_levels:
  assumes "level_ok g" "getArg q ''stat'' = []" "q_uri q = CHR ''/'' # key" "key \<in> {''lesslog'', ''morelog''}"
    and "getArg r ''stat'' = []" "q_uri r = ''/loglevel''"
  shows "\<exists>g'. sample_request pid q p (g, ts) = Some ((q, p\<lparr>h_body := ''OK''\<rparr>), g', ts) \<and>
    lg_level g' = (if key = ''lesslog'' then max LFATAL (lg_level g - 1) else min LALL (lg_level g + 1)) \<and> level_ok g' \<and>
    sample_request pid r p (g', ts) = Some ((r, p\<lparr>h_body := levelStrs ! nat (lg_level g')\<rparr>), g', ts)"
proof -
  define g' where "g' = fst (sample_command key (g, ts))"
  have cmd: "sample_command key (g, ts) = (g', ts)" using assms(4) by (auto simp: g'_def sample_command_def)
  have lvl: "lg_level g' = (if key = ''lesslog'' then max LFATAL (lg_level g - 1) else min LALL (lg_level g + 1))"
    using assms(1,4)
    by (auto simp: g'_def sample_command_def adjustLogLevel_def setLogLevel_def level_ok_def LFATAL_def LALL_def)
  have ok: "level_ok g'" using lvl assms(1) by (auto simp: level_ok_def LFATAL_def LALL_def)
  have qq: "stat_query q = Some key" "stat_query r = Some ''loglevel''"
    using assms(2,3,5,6) by (simp_all add: stat_query_def)
  have a: "stat_answer (sample_stat pid g') q p = Some (q, p\<lparr>h_body := ''OK''\<rparr>)"
  proof -
    have "key \<noteq> []" using assms(4) by auto
    from stat_answer_page [OF assms(2,3) this, of "sample_stat pid g'" p] sample_pages [of q p pid g' key] assms(4)
    show ?thesis by (auto split: option.splits)
  qed
  have b: "stat_answer (sample_stat pid g') r p = Some (r, p\<lparr>h_body := getLogLevelStr g'\<rparr>)"
    using stat_answer_page [OF assms(5,6), of "sample_stat pid g'" p] sample_pages [of r p pid g' "''loglevel''"]
    by (auto split: option.splits)
  have n: "sample_command ''loglevel'' (g', ts) = (g', ts)" by (simp add: sample_command_def)
  show ?thesis
    using lvl ok a b cmd n qq by (intro exI [of _ g']) (simp add: sample_request_def getLogLevelStr_def)
qed

section \<open>timer.cc\<close>

datatype timer_task = After200 | Every1000 | Every500 | CancelEvery500 | ExitLoop

record timer_prog = "timer_task timers" +
  tp_id :: timer_id
  tp_exit :: bool

text \<open>What the tasks do, and the calls of \<open>main\<close>; \<open>time(NULL)\<close> is in seconds.\<close>

definition timer_run :: "timer_task \<Rightarrow> timer_prog \<Rightarrow> timer_prog option" where
  "timer_run t s =
     (case t of
        CancelEvery500 \<Rightarrow> map_option snd (cancel (tp_id s) s)
      | ExitLoop \<Rightarrow> Some (s\<lparr>tp_exit := True\<rparr>)
      | _ \<Rightarrow> Some s)"

definition timer_main :: "int \<Rightarrow> timer_prog" where
  "timer_main now =
     (let s = timers.extend (timers_new now) \<lparr>tp_id = (0, 0), tp_exit = False\<rparr>;
          s = snd (runAfter 200 After200 0 s);
          s = snd (runAfter 100 Every1000 1000 s);
          (tid, s) = runAt (now div 1000 * 1000 + 300) Every500 500 s;
          s = snd (runAfter 2000 CancelEvery500 0 (s\<lparr>tp_id := tid\<rparr>))
      in snd (runAfter 3000 ExitLoop 0 s))"

text \<open>Rounds of the loop at given times.\<close>

primrec timer_rounds :: "int list \<Rightarrow> timer_prog \<Rightarrow> timer_prog option" where
  "timer_rounds [] s = Some s"
| "timer_rounds (t # ts) s = (case handleTimeouts timer_run (s\<lparr>t_now := t\<rparr>) of None \<Rightarrow> None | Some s \<Rightarrow> timer_rounds ts s)"

text \<open>The loop of \<open>handleTimeouts\<close> with a bound on its turns, by which a schedule can be evaluated.\<close>

primrec timeout_turns :: "nat \<Rightarrow> timer_id \<Rightarrow> timer_prog \<Rightarrow> timer_prog option" where
  "timeout_turns 0 lim s = None"
| "timeout_turns (Suc n) lim s =
     (case t_timers s of [] \<Rightarrow> Some s
      | e # es \<Rightarrow>
          if fst e < lim
          then (case run_task timer_run (snd e) (s\<lparr>t_timers := es\<rparr>) of None \<Rightarrow> None | Some s \<Rightarrow> timeout_turns n lim s)
          else Some s)"

lemma timeout_turns_loop: "timeout_turns n lim s = Some s' \<Longrightarrow> timeout_loop timer_run lim s = Some s'"
  by (induction n arbitrary: s)
    (auto simp: timeout_loop.simps [of timer_run lim] split: list.splits if_splits option.splits)

primrec timer_turns :: "nat \<Rightarrow> int list \<Rightarrow> timer_prog \<Rightarrow> timer_prog option" where
  "timer_turns n [] s = Some s"
| "timer_turns n (t # ts) s =
     (case timeout_turns n (t, 2 ^ 62) (s\<lparr>t_now := t\<rparr>) of None \<Rightarrow> None | Some s \<Rightarrow> timer_turns n ts (refreshNearest s))"

lemma timer_turns_rounds: "timer_turns n ts s = Some s' \<Longrightarrow> timer_rounds ts s = Some s'"
  by (induction ts arbitrary: s) (auto simp: handleTimeouts_def split: option.splits dest!: timeout_turns_loop)

lemma timer_rounds_eval:
  "map_option f (timer_turns n ts s) = Some x \<Longrightarrow> map_option f (timer_rounds ts s) = Some x"
  by (auto dest!: timer_turns_rounds)

text \<open>
  Started at a full second, with a round when a timer is due: the first task runs once, the one of 1000 ms three times, the
  one of 500 ms until it is cancelled, and then the loop is told to end.
\<close>

lemma timer_schedule:
  "map_option (\<lambda>s. (t_fired s, tp_exit s)) (timer_rounds (map ((+) 5000) [100, 200, 300, 800, 1100, 1300, 1800, 2000, 2100, 2300, 3000])
      (timer_main 5000)) =
    Some ([Every1000, After200, Every500, Every500, Every1000, Every500, Every500, CancelEvery500, Every1000, ExitLoop], True)"
  by (rule timer_rounds_eval [of _ 3]) code_simp

text \<open>The same tasks run in the same order when the loop was held up and comes to all of them in one round.\<close>

lemma timer_held_up:
  "map_option (\<lambda>s. (t_fired s, tp_exit s)) (timer_rounds [5000 + 3000] (timer_main 5000)) =
    Some ([Every1000, After200, Every500, Every500, Every1000, Every500, Every500, CancelEvery500, Every1000, ExitLoop], True)"
  by (rule timer_rounds_eval [of _ 12]) code_simp

end
