(* ===== verification/Handy_Idle.thy ===== *)
theory Handy_Idle
  imports Handy_Timer
begin

text \<open>
  Idle connections of an event loop (\<open>EventsImp\<close> in \<open>handy/event_base.cc\<close>): for every idle time in
  seconds a list of nodes, the most recently active last. The state extends that of the timers,
  as \<open>registerIdle\<close> sets the repeating timer that calls \<open>callIdles\<close>. A node is named by the address
  it gets; \<open>IdleId\<close> is the key of its list and this address. \<open>None\<close> is the use of a node that is
  gone, or a call that does not return. \<open>il_called\<close> logs the calls of idle callbacks.
\<close>

record idle_node =
  n_id :: nat
  n_con :: nat
  n_updated :: int
  n_cb :: nat

text \<open>The tasks the loop's timers hold: the one of \<open>registerIdle\<close> and those of the user.\<close>

datatype 'a loop_task = CallIdles | Task 'a

record 'a idle_loop = "'a loop_task timers" +
  il_conns :: "(int \<times> idle_node list) list"
  il_enabled :: bool
  il_next :: nat
  il_called :: "(int \<times> idle_node) list"

type_synonym idle_id = "int \<times> nat"

definition idle_new :: "int \<Rightarrow> 'a idle_loop" where
  "idle_new now = timers.extend (timers_new now) \<lparr>il_conns = [], il_enabled = False, il_next = 0, il_called = []\<rparr>"

text \<open>\<open>util::timeMilli() / 1000\<close>, for times after 1970.\<close>

definition idle_secs :: "'a idle_loop \<Rightarrow> int" where
  "idle_secs s = t_now s div 1000"

definition idle_list :: "int \<Rightarrow> 'a idle_loop \<Rightarrow> idle_node list" where
  "idle_list idle s = (case map_of (il_conns s) idle of None \<Rightarrow> [] | Some l \<Rightarrow> l)"

definition registerIdle :: "int \<Rightarrow> nat \<Rightarrow> nat \<Rightarrow> 'a idle_loop \<Rightarrow> idle_id \<times> 'a idle_loop" where
  "registerIdle idle con cb s =
     (let s = (if il_enabled s then s else (snd (runAfter 1000 CallIdles 1000 s))\<lparr>il_enabled := True\<rparr>);
          node = \<lparr>n_id = il_next s, n_con = con, n_updated = idle_secs s, n_cb = cb\<rparr>
      in ((idle, il_next s),
          s\<lparr>il_conns := map_put idle (idle_list idle s @ [node]) (il_conns s), il_next := il_next s + 1\<rparr>))"

text \<open>\<open>erase\<close> and \<open>splice\<close> through an iterator need its node.\<close>

definition idle_find :: "idle_id \<Rightarrow> 'a idle_loop \<Rightarrow> idle_node option" where
  "idle_find i s = find (\<lambda>n. n_id n = snd i) (idle_list (fst i) s)"

definition without_node :: "nat \<Rightarrow> idle_node list \<Rightarrow> idle_node list" where
  "without_node i l = filter (\<lambda>n. n_id n \<noteq> i) l"

definition unregisterIdle :: "idle_id \<Rightarrow> 'a idle_loop \<Rightarrow> 'a idle_loop option" where
  "unregisterIdle i s =
     (case idle_find i s of None \<Rightarrow> None
      | Some n \<Rightarrow> Some (s\<lparr>il_conns := map_put (fst i) (without_node (snd i) (idle_list (fst i) s)) (il_conns s)\<rparr>))"

definition updateIdle :: "idle_id \<Rightarrow> 'a idle_loop \<Rightarrow> 'a idle_loop option" where
  "updateIdle i s =
     (case idle_find i s of None \<Rightarrow> None
      | Some n \<Rightarrow> Some (s\<lparr>il_conns := map_put (fst i)
          (without_node (snd i) (idle_list (fst i) s) @ [n\<lparr>n_updated := idle_secs s\<rparr>]) (il_conns s)\<rparr>))"

text \<open>
  The inner loop of \<open>callIdles\<close> works on a copy of the list. A callback may do anything to the
  loop; \<open>idle\<close> and \<open>now\<close> are local.
\<close>

type_synonym 'a idle_cb = "idle_node \<Rightarrow> 'a idle_loop \<Rightarrow> 'a idle_loop option"

partial_function (option) idle_calls ::
    "'a idle_cb \<Rightarrow> int \<Rightarrow> int \<Rightarrow> idle_node list \<Rightarrow> 'a idle_loop \<Rightarrow> 'a idle_loop option" where
  "idle_calls cb now idle lst s =
     (case lst of [] \<Rightarrow> Some s
      | node # ns \<Rightarrow>
          if n_updated node + idle > now then Some s
          else do {
            let node = node\<lparr>n_updated := now\<rparr>;
            s \<leftarrow> cb node (s\<lparr>il_called := il_called s @ [(idle, node)]\<rparr>);
            idle_calls cb now idle (ns @ [node]) s
          })"

text \<open>The outer loop goes to the next key of the map, which callbacks may have added to.\<close>

partial_function (option) idle_lists :: "'a idle_cb \<Rightarrow> int \<Rightarrow> int option \<Rightarrow> 'a idle_loop \<Rightarrow> 'a idle_loop option" where
  "idle_lists cb now k s =
     (case find (\<lambda>l. case k of None \<Rightarrow> True | Some j \<Rightarrow> j < fst l) (il_conns s) of
        None \<Rightarrow> Some s
      | Some l \<Rightarrow> do { s \<leftarrow> idle_calls cb now (fst l) (snd l) s; idle_lists cb now (Some (fst l)) s })"

definition callIdles :: "'a idle_cb \<Rightarrow> 'a idle_loop \<Rightarrow> 'a idle_loop option" where
  "callIdles cb s = idle_lists cb (idle_secs s) None s"

text \<open>What the timers run.\<close>

definition run_loop_task :: "'a idle_cb \<Rightarrow> ('a \<Rightarrow> 'a idle_loop \<Rightarrow> 'a idle_loop option) \<Rightarrow>
    'a loop_task \<Rightarrow> 'a idle_loop \<Rightarrow> 'a idle_loop option" where
  "run_loop_task cb user k s = (case k of CallIdles \<Rightarrow> callIdles cb s | Task a \<Rightarrow> user a s)"

section \<open>The lists are ordered by activity\<close>

definition idle_list_ok :: "nat \<Rightarrow> int \<Rightarrow> idle_node list \<Rightarrow> bool" where
  "idle_list_ok lim now l \<longleftrightarrow> sorted (map n_updated l) \<and> distinct (map n_id l) \<and>
     (\<forall>n \<in> set l. n_id n < lim \<and> n_updated n \<le> now)"

definition idle_ok :: "'a idle_loop \<Rightarrow> bool" where
  "idle_ok s \<longleftrightarrow> map_ok (il_conns s) \<and> (\<forall>l \<in> set (il_conns s). idle_list_ok (il_next s) (idle_secs s) (snd l))"

lemma idle_list_ok_Nil [simp]: "idle_list_ok lim now []"
  by (simp add: idle_list_ok_def)

lemma idle_list_ok_mono: "idle_list_ok lim now l \<Longrightarrow> lim \<le> lim' \<Longrightarrow> now \<le> now' \<Longrightarrow> idle_list_ok lim' now' l"
  by (fastforce simp: idle_list_ok_def)

lemma idle_list_ok_snoc:
  "idle_list_ok lim now l \<Longrightarrow> n_id n \<notin> n_id ` set l \<Longrightarrow> n_id n < lim \<Longrightarrow> n_updated n = now \<Longrightarrow> idle_list_ok lim now (l @ [n])"
  by (auto simp: idle_list_ok_def sorted_append)

lemma idle_list_ok_without: "idle_list_ok lim now l \<Longrightarrow> idle_list_ok lim now (without_node i l)"
  by (auto simp: idle_list_ok_def without_node_def sorted_filter distinct_map_filter)

lemma without_node_id: "i \<notin> n_id ` set (without_node i l)"
  by (auto simp: without_node_def)

lemma idle_ok_list: "idle_ok s \<Longrightarrow> idle_list_ok (il_next s) (idle_secs s) (idle_list idle s)"
  by (auto simp: idle_ok_def idle_list_def split: option.splits dest!: map_of_SomeD)

lemma idle_ok_new [simp]: "idle_ok (idle_new now)"
  by (simp add: idle_ok_def idle_new_def timers.defs)

lemma idle_ok_put:
  assumes "idle_ok s" and "il_next s \<le> lim" and "idle_list_ok lim (idle_secs s) l"
  shows "idle_ok (s\<lparr>il_conns := map_put idle l (il_conns s), il_next := lim\<rparr>)"
  using assms set_map_put [of idle l "il_conns s"]
  by (auto simp: idle_ok_def idle_secs_def dest!: subsetD intro: idle_list_ok_mono)

lemma idle_ok_advance [simp]: "idle_ok s \<Longrightarrow> 0 \<le> d \<Longrightarrow> idle_ok (s\<lparr>t_now := t_now s + d\<rparr>)"
  by (auto simp: idle_ok_def idle_secs_def intro: idle_list_ok_mono zdiv_mono1)

section \<open>The registry of idle connections\<close>

text \<open>What a node stands for: its connection and the second of its last activity.\<close>

definition idle_activity :: "'a idle_loop \<Rightarrow> idle_id \<Rightarrow> (nat \<times> int) option" where
  "idle_activity s i = map_option (\<lambda>n. (n_con n, n_updated n)) (idle_find i s)"

text \<open>The interface a connection uses: registering, updating and unregistering an id.\<close>

locale idle_registry =
  fixes register :: "int \<Rightarrow> nat \<Rightarrow> nat \<Rightarrow> 's \<Rightarrow> 'i \<times> 's"
    and update :: "'i \<Rightarrow> 's \<Rightarrow> 's option"
    and unregister :: "'i \<Rightarrow> 's \<Rightarrow> 's option"
    and activity :: "'s \<Rightarrow> 'i \<Rightarrow> (nat \<times> int) option"
    and clock :: "'s \<Rightarrow> int"
    and ok :: "'s \<Rightarrow> bool"
  assumes register_law: "ok s \<Longrightarrow> register idle con cb s = (i, s') \<Longrightarrow>
      ok s' \<and> activity s i = None \<and> activity s' = (activity s)(i \<mapsto> (con, clock s)) \<and> clock s' = clock s"
    and update_law: "ok s \<Longrightarrow> activity s i = Some (con, t) \<Longrightarrow>
      \<exists>s'. update i s = Some s' \<and> ok s' \<and> activity s' = (activity s)(i \<mapsto> (con, clock s)) \<and> clock s' = clock s"
    and unregister_law: "ok s \<Longrightarrow> activity s i = Some v \<Longrightarrow>
      \<exists>s'. unregister i s = Some s' \<and> ok s' \<and> activity s' = (activity s)(i := None) \<and> clock s' = clock s"
    and update_gone: "ok s \<Longrightarrow> activity s i = None \<Longrightarrow> update i s = None"
    and unregister_gone: "ok s \<Longrightarrow> activity s i = None \<Longrightarrow> unregister i s = None"
begin

primrec each :: "('i \<Rightarrow> 's \<Rightarrow> 's option) \<Rightarrow> 'i list \<Rightarrow> 's \<Rightarrow> 's option" where
  "each f [] s = Some s"
| "each f (i # is) s = do { s \<leftarrow> f i s; each f is s }"

text \<open>A connection unregisters all its ids in \<open>cleanup\<close> and updates them all on a read.\<close>

lemma unregister_each:
  assumes "ok s" and "distinct is" and "\<forall>i \<in> set is. activity s i \<noteq> None"
  shows "\<exists>s'. each unregister is s = Some s' \<and> ok s' \<and> activity s' = (\<lambda>i. if i \<in> set is then None else activity s i)"
  using assms
proof (induction "is" arbitrary: s)
  case (Cons i "is")
  then obtain s1 where s1: "unregister i s = Some s1" "ok s1" "activity s1 = (activity s)(i := None)"
    using unregister_law by force
  have "\<forall>j \<in> set is. activity s1 j \<noteq> None" using Cons.prems s1(3) by auto
  with Cons.IH [OF s1(2)] Cons.prems(2) s1 show ?case by (fastforce simp: fun_eq_iff)
qed simp

lemma update_each:
  assumes "ok s" and "\<forall>i \<in> set is. \<exists>t. activity s i = Some (con, t)"
  shows "\<exists>s'. each update is s = Some s' \<and> ok s' \<and> clock s' = clock s \<and>
    activity s' = (\<lambda>i. if i \<in> set is then Some (con, clock s) else activity s i)"
  using assms
proof (induction "is" arbitrary: s)
  case (Cons i "is")
  then obtain s1 where s1: "update i s = Some s1" "ok s1" "activity s1 = (activity s)(i \<mapsto> (con, clock s))" "clock s1 = clock s"
    using update_law by (metis list.set_intros(1))
  have "\<forall>j \<in> set is. \<exists>t. activity s1 j = Some (con, t)" using Cons.prems s1(3) by auto
  with Cons.IH [OF s1(2)] s1 show ?case by (fastforce simp: fun_eq_iff)
qed simp

end

lemma find_without:
  "find (\<lambda>n. n_id n = j) (without_node i l) = (if j = i then None else find (\<lambda>n. n_id n = j) l)"
  by (induction l) (auto simp: without_node_def)

lemma find_snoc: "find P (l @ [x]) = (case find P l of Some y \<Rightarrow> Some y | None \<Rightarrow> if P x then Some x else None)"
  by (induction l) auto

lemma idle_find_put:
  "map_ok (il_conns s) \<Longrightarrow> idle_find i (s\<lparr>il_conns := map_put idle l (il_conns s), il_next := k\<rparr>) =
    (if fst i = idle then find (\<lambda>n. n_id n = snd i) l else idle_find i s)"
  by (simp add: idle_find_def idle_list_def)

lemma idle_find_fresh: "idle_ok s \<Longrightarrow> il_next s \<le> snd i \<Longrightarrow> idle_find i s = None"
  using idle_ok_list [of s "fst i"] by (fastforce simp: idle_find_def find_None_iff idle_list_ok_def)

lemma idle_find_id: "idle_find i s = Some n \<Longrightarrow> n_id n = snd i \<and> n \<in> set (idle_list (fst i) s)"
  by (auto simp: idle_find_def find_Some_iff)

lemma idle_ok_maps: "idle_ok s \<Longrightarrow> map_ok (il_conns s)"
  by (simp add: idle_ok_def)

lemma idle_ok_base: "idle_ok s' = idle_ok s" "idle_find i s' = idle_find i s" "idle_list k s' = idle_list k s"
  if "il_conns s' = il_conns s" "il_next s' = il_next s" "t_now s' = t_now s"
  using that by (simp_all add: idle_ok_def idle_find_def idle_list_def idle_secs_def)

lemma runAfter_idle [simp]:
  "il_conns (snd (runAfter ms k i s)) = il_conns s" "il_next (snd (runAfter ms k i s)) = il_next s"
  "t_now (snd (runAfter ms k i s)) = t_now s" "il_enabled (snd (runAfter ms k i s)) = il_enabled s"
  "il_called (snd (runAfter ms k i s)) = il_called s"
  by (simp_all add: runAfter_def runAt_def refreshNearest_def Let_def split: list.splits)

lemma registerIdle_law:
  assumes "idle_ok s" and "registerIdle idle con cb s = (i, s')"
  shows "idle_ok s' \<and> idle_activity s i = None \<and> idle_activity s' = (idle_activity s)(i \<mapsto> (con, idle_secs s)) \<and>
    idle_secs s' = idle_secs s"
proof -
  define r where "r = (if il_enabled s then s else (snd (runAfter 1000 CallIdles 1000 s))\<lparr>il_enabled := True\<rparr>)"
  have same: "il_conns r = il_conns s" "il_next r = il_next s" "t_now r = t_now s" by (simp_all add: r_def)
  note same = same idle_ok_base [OF same]
  let ?n = "\<lparr>n_id = il_next s, n_con = con, n_updated = idle_secs s, n_cb = cb\<rparr>"
  have i: "i = (idle, il_next s)" and s': "s' = r\<lparr>il_conns := map_put idle (idle_list idle s @ [?n]) (il_conns s), il_next := il_next s + 1\<rparr>"
    using assms(2) same by (simp_all add: registerIdle_def Let_def idle_secs_def flip: r_def)
  have secs: "idle_secs r = idle_secs s" "idle_secs s' = idle_secs s" using same s' by (simp_all add: idle_secs_def)
  have "idle_list_ok (il_next s + 1) (idle_secs s) (idle_list idle s)"
    using idle_ok_list [OF assms(1)] by (rule idle_list_ok_mono) simp_all
  moreover have "il_next s \<notin> n_id ` set (idle_list idle s)"
    using idle_ok_list [OF assms(1), of idle] by (force simp: idle_list_ok_def)
  ultimately have l: "idle_list_ok (il_next s + 1) (idle_secs s) (idle_list idle s @ [?n])"
    by (intro idle_list_ok_snoc) simp_all
  have "idle_ok r" "il_next r \<le> il_next s + 1" using assms(1) same by simp_all
  from idle_ok_put [OF this, where l = "idle_list idle s @ [?n]" and idle = idle] have "idle_ok s'"
    unfolding s' secs(1) same(1) using l by blast
  moreover have "idle_find j s' = (if j = i then Some ?n else idle_find j s)" for j
    using idle_find_put [where s = r and i = j and idle = idle] idle_find_fresh [OF assms(1), of i] idle_ok_maps [OF assms(1)] same s' i
    by (cases j) (auto simp: find_snoc idle_find_def split: option.splits)
  moreover have "idle_find i s = None" using idle_find_fresh [OF assms(1), of i] i by simp
  ultimately show ?thesis using secs by (auto simp: idle_activity_def fun_eq_iff)
qed

text \<open>Both changes of a list put a list without the node, or with it at the end.\<close>

lemma idle_change:
  assumes "idle_ok s" and "idle_find i s = Some n" and "l = [] \<or> l = [n\<lparr>n_updated := idle_secs s\<rparr>]"
  shows "idle_ok (s\<lparr>il_conns := map_put (fst i) (without_node (snd i) (idle_list (fst i) s) @ l) (il_conns s)\<rparr>)"
    and "idle_find j (s\<lparr>il_conns := map_put (fst i) (without_node (snd i) (idle_list (fst i) s) @ l) (il_conns s)\<rparr>) =
      (if j = i then (if l = [] then None else Some (n\<lparr>n_updated := idle_secs s\<rparr>)) else idle_find j s)"
proof -
  let ?l = "without_node (snd i) (idle_list (fst i) s)"
  have put: "idle_find j (s\<lparr>il_conns := map_put (fst i) m (il_conns s)\<rparr>) =
      (if fst j = fst i then find (\<lambda>n. n_id n = snd j) m else idle_find j s)" for m
    using idle_find_put [OF idle_ok_maps [OF assms(1)], where i = j and idle = "fst i" and k = "il_next s"] by simp
  have ok: "idle_list_ok (il_next s) (idle_secs s) ?l"
    using idle_list_ok_without [OF idle_ok_list [OF assms(1)]] .
  have n: "n_id n = snd i" "n \<in> set (idle_list (fst i) s)" using idle_find_id [OF assms(2)] by simp_all
  then have "n_id n < il_next s" using idle_ok_list [OF assms(1), of "fst i"] by (auto simp: idle_list_ok_def)
  then have "idle_list_ok (il_next s) (idle_secs s) (?l @ l)"
    using assms(3) ok n(1) without_node_id [of "snd i"] idle_list_ok_snoc [OF ok, of "n\<lparr>n_updated := idle_secs s\<rparr>"]
    by auto
  from idle_ok_put [OF assms(1) order_refl this, of "fst i"]
  show "idle_ok (s\<lparr>il_conns := map_put (fst i) (?l @ l) (il_conns s)\<rparr>)" by simp
  show "idle_find j (s\<lparr>il_conns := map_put (fst i) (?l @ l) (il_conns s)\<rparr>) =
      (if j = i then (if l = [] then None else Some (n\<lparr>n_updated := idle_secs s\<rparr>)) else idle_find j s)"
    unfolding put using assms(3) n(1) by (cases i; cases j) (auto simp: find_snoc find_without idle_find_def split: option.splits)
qed

lemma updateIdle_law:
  assumes "idle_ok s" and "idle_activity s i = Some (con, t)"
  shows "\<exists>s'. updateIdle i s = Some s' \<and> idle_ok s' \<and> idle_activity s' = (idle_activity s)(i \<mapsto> (con, idle_secs s)) \<and>
    idle_secs s' = idle_secs s"
proof -
  obtain n where n: "idle_find i s = Some n" "n_con n = con" using assms(2) by (auto simp: idle_activity_def)
  show ?thesis
    using idle_change [OF assms(1) n(1) disjI2 [OF refl]] n
    by (auto simp: updateIdle_def idle_activity_def fun_eq_iff idle_secs_def)
qed

lemma unregisterIdle_law:
  assumes "idle_ok s" and "idle_activity s i = Some v"
  shows "\<exists>s'. unregisterIdle i s = Some s' \<and> idle_ok s' \<and> idle_activity s' = (idle_activity s)(i := None) \<and>
    idle_secs s' = idle_secs s"
proof -
  obtain n where n: "idle_find i s = Some n" using assms(2) by (auto simp: idle_activity_def)
  show ?thesis
    using idle_change [OF assms(1) n disjI1 [OF refl]] n
    by (auto simp: unregisterIdle_def idle_activity_def fun_eq_iff idle_secs_def)
qed

interpretation ireg: idle_registry registerIdle updateIdle unregisterIdle idle_activity idle_secs idle_ok
  using registerIdle_law updateIdle_law unregisterIdle_law
  by unfold_locales (simp_all add: updateIdle_def unregisterIdle_def idle_activity_def)

section \<open>One round of callbacks\<close>

text \<open>
  Callbacks that leave the idle lists alone, such as one that asks for its connection to be closed
  by the loop. The nodes called are then those of the copies.
\<close>

definition lists_kept :: "'a idle_cb \<Rightarrow> bool" where
  "lists_kept cb \<longleftrightarrow> (\<forall>n s. \<exists>s'. cb n s = Some s' \<and> il_conns s' = il_conns s \<and> il_next s' = il_next s \<and>
     il_called s' = il_called s \<and> t_now s' = t_now s)"

definition idle_same :: "'a idle_loop \<Rightarrow> 'a idle_loop \<Rightarrow> bool" where
  "idle_same s s' \<longleftrightarrow> il_conns s' = il_conns s \<and> il_next s' = il_next s \<and> t_now s' = t_now s"

lemma idle_same_refl [simp]: "idle_same s s"
  by (simp add: idle_same_def)

lemma lists_keptD: "lists_kept cb \<Longrightarrow> \<exists>s'. cb n s = Some s' \<and> il_called s' = il_called s \<and> idle_same s s'"
  unfolding lists_kept_def idle_same_def by metis

lemma idle_same_trans: "idle_same s s' \<Longrightarrow> idle_same s' s'' \<Longrightarrow> idle_same s s''"
  by (simp add: idle_same_def)

abbreviation expired :: "int \<Rightarrow> int \<Rightarrow> idle_node \<Rightarrow> bool" where
  "expired now idle n \<equiv> n_updated n + idle \<le> now"

lemma idle_calls_prefix:
  assumes "\<And>n s. \<exists>s'. cb n s = Some s' \<and> il_called s' = il_called s \<and> R s s'" and "0 < idle"
    and "\<And>s c. R s (s\<lparr>il_called := c\<rparr>)" and "\<And>s. R s s" and "\<And>s t u. R s t \<Longrightarrow> R t u \<Longrightarrow> R s u"
    and "\<forall>n \<in> set ys. n_updated n = now"
  shows "\<exists>s'. idle_calls cb now idle (xs @ ys) s = Some s' \<and> R s s' \<and>
    il_called s' = il_called s @ map (\<lambda>n. (idle, n\<lparr>n_updated := now\<rparr>)) (takeWhile (expired now idle) xs)"
  using assms(6)
proof (induction xs arbitrary: ys s)
  case Nil
  with assms(2,4) show ?case by (cases ys) (simp_all add: idle_calls.simps)
next
  case (Cons x xs)
  show ?case
  proof (cases "expired now idle x")
    case True
    let ?n = "x\<lparr>n_updated := now\<rparr>" and ?s = "s\<lparr>il_called := il_called s @ [(idle, x\<lparr>n_updated := now\<rparr>)]\<rparr>"
    obtain s1 where s1: "cb ?n ?s = Some s1" "il_called s1 = il_called ?s" "R ?s s1"
      using assms(1) by blast
    have "\<forall>n \<in> set (ys @ [?n]). n_updated n = now" using Cons.prems by simp
    from Cons.IH [OF this, of s1] obtain s' where s': "idle_calls cb now idle (xs @ ys @ [?n]) s1 = Some s'" "R s1 s'"
      "il_called s' = il_called s1 @ map (\<lambda>n. (idle, n\<lparr>n_updated := now\<rparr>)) (takeWhile (expired now idle) xs)"
      by auto
    have "R s s'" using assms(5) [OF assms(5) [OF assms(3) s1(3)] s'(2)] .
    moreover have "idle_calls cb now idle ((x # xs) @ ys) s = Some s'"
      using True s1(1) s'(1) by (subst idle_calls.simps) simp
    ultimately show ?thesis using True s1(2) s'(3) by simp
  next
    case False
    then show ?thesis using assms(4) by (subst idle_calls.simps) simp
  qed
qed

text \<open>In an ordered list the expired nodes are the first ones.\<close>

lemma takeWhile_expired: "sorted (map n_updated l) \<Longrightarrow> takeWhile (expired now idle) l = filter (expired now idle) l"
  by (induction l) (auto simp: empty_filter_conv)

lemma idle_calls_kept:
  assumes "lists_kept cb" and "0 < idle" and "sorted (map n_updated l)"
  shows "\<exists>s'. idle_calls cb now idle l s = Some s' \<and> idle_same s s' \<and>
    il_called s' = il_called s @ map (\<lambda>n. (idle, n\<lparr>n_updated := now\<rparr>)) (filter (expired now idle) l)"
  unfolding takeWhile_expired [OF assms(3), symmetric]
  using idle_calls_prefix [of cb idle_same idle "[]" now l s, OF lists_keptD [OF assms(1)] assms(2)]
  by (auto simp: idle_same_def)

definition idle_due :: "int \<Rightarrow> (int \<times> idle_node list) list \<Rightarrow> (int \<times> idle_node) list" where
  "idle_due now conns =
     concat (map (\<lambda>l. map (\<lambda>n. (fst l, n\<lparr>n_updated := now\<rparr>)) (filter (expired now (fst l)) (snd l))) conns)"

lemma map_ok_last: "map_ok m \<Longrightarrow> l \<in> set m \<Longrightarrow> fst l \<le> fst (last m)"
  by (induction m) (auto dest!: last_in_set intro: less_imp_le split: if_splits)

lemma map_ok_appendD: "map_ok (m @ l # n) \<Longrightarrow> map_ok m \<and> (\<forall>p \<in> set m. fst p < fst l)"
  by (induction m) auto

lemma next_list:
  assumes "map_ok (prev @ l # todo)" and "k = (if prev = [] then None else Some (fst (last prev)))"
  shows "find (\<lambda>l. case k of None \<Rightarrow> True | Some j \<Rightarrow> j < fst l) (prev @ l # todo) = Some l"
proof -
  have "\<forall>m \<in> set prev. fst m \<le> fst (last prev)" "prev \<noteq> [] \<longrightarrow> fst (last prev) < fst l"
    using map_ok_appendD [OF assms(1)] map_ok_last [of prev] by simp_all
  with assms(2) show ?thesis
    by (fastforce simp: find_Some_iff nth_append intro!: exI [of _ "length prev"] dest: nth_mem)
qed

lemma idle_lists_due:
  assumes "lists_kept cb" and "map_ok (prev @ todo)" and "il_conns s = prev @ todo"
    and "\<forall>l \<in> set todo. 0 < fst l \<and> sorted (map n_updated (snd l))"
    and "k = (if prev = [] then None else Some (fst (last prev)))"
  shows "\<exists>s'. idle_lists cb now k s = Some s' \<and> idle_same s s' \<and> il_called s' = il_called s @ idle_due now todo"
  using assms(2-5)
proof (induction todo arbitrary: prev k s)
  case Nil
  have "\<forall>l \<in> set prev. fst l \<le> fst (last prev)"
    using Nil.prems(1) map_ok_last [of prev] by simp
  then have "find (\<lambda>l. case k of None \<Rightarrow> True | Some j \<Rightarrow> j < fst l) (il_conns s) = None"
    using Nil.prems(2,4) by (auto simp: find_None_iff)
  then show ?case by (subst idle_lists.simps) (simp add: idle_due_def)
next
  case (Cons l todo)
  have "find (\<lambda>l. case k of None \<Rightarrow> True | Some j \<Rightarrow> j < fst l) (il_conns s) = Some l"
    using next_list [OF Cons.prems(1,4)] Cons.prems(2) by simp
  moreover obtain s1 where s1: "idle_calls cb now (fst l) (snd l) s = Some s1" "idle_same s s1"
    "il_called s1 = il_called s @ map (\<lambda>n. (fst l, n\<lparr>n_updated := now\<rparr>)) (filter (expired now (fst l)) (snd l))"
    using idle_calls_kept [OF assms(1), of "fst l" "snd l" now s] Cons.prems(3) by auto
  moreover obtain s' where "idle_lists cb now (Some (fst l)) s1 = Some s'" "idle_same s1 s'"
    "il_called s' = il_called s1 @ idle_due now todo"
    using Cons.IH [of "prev @ [l]" s1] Cons.prems s1(2) by (auto simp: idle_same_def)
  ultimately show ?case
    by (subst idle_lists.simps) (auto simp: idle_due_def intro: idle_same_trans)
qed

lemma callIdles_due:
  assumes "lists_kept cb" and "idle_ok s" and "\<forall>l \<in> set (il_conns s). 0 < fst l"
  shows "\<exists>s'. callIdles cb s = Some s' \<and> idle_same s s' \<and> il_called s' = il_called s @ idle_due (idle_secs s) (il_conns s)"
  using idle_lists_due [OF assms(1), of "[]" "il_conns s" s None "idle_secs s"] assms(2,3)
  by (simp add: callIdles_def idle_ok_def idle_list_ok_def)

lemma idle_find_iff:
  assumes "idle_ok s"
  shows "idle_find i s = Some n \<longleftrightarrow> n \<in> set (idle_list (fst i) s) \<and> n_id n = snd i"
proof -
  have "distinct (map n_id l) \<Longrightarrow> find (\<lambda>n. n_id n = k) l = Some n \<longleftrightarrow> n \<in> set l \<and> n_id n = k" for l k
    by (induction l) (auto simp: image_iff)
  then show ?thesis using idle_ok_list [OF assms, of "fst i"] by (simp add: idle_find_def idle_list_ok_def)
qed

abbreviation called_id :: "int \<times> idle_node \<Rightarrow> idle_id" where
  "called_id p \<equiv> (fst p, n_id (snd p))"

lemma idle_due_ids:
  assumes "map_ok conns" and "\<forall>l \<in> set conns. distinct (map n_id (snd l))"
  shows "distinct (map called_id (idle_due now conns))"
  using assms
proof (induction conns)
  case (Cons l conns)
  have "distinct (map called_id (map (\<lambda>n. (fst l, n\<lparr>n_updated := now\<rparr>)) (filter (expired now (fst l)) (snd l))))"
    using Cons.prems(2) by (auto simp: distinct_map inj_on_def)
  moreover have "fst p = fst l" if "p \<in> set (map (\<lambda>n. (fst l, n\<lparr>n_updated := now\<rparr>)) (filter (expired now (fst l)) (snd l)))" for p
    using that by auto
  moreover have "fst l < fst p" if "p \<in> set (idle_due now conns)" for p
    using that Cons.prems(1) by (auto simp: idle_due_def)
  moreover have "distinct (map called_id (idle_due now conns))" using Cons by simp
  moreover have "idle_due now (l # conns) =
      map (\<lambda>n. (fst l, n\<lparr>n_updated := now\<rparr>)) (filter (expired now (fst l)) (snd l)) @ idle_due now conns"
    by (simp add: idle_due_def)
  ultimately show ?case by (fastforce simp: distinct_append)
qed (simp add: idle_due_def)

lemma idle_due_set:
  assumes "idle_ok s"
  shows "(\<lambda>p. (called_id p, n_con (snd p))) ` set (idle_due now (il_conns s)) =
    {(i, con). \<exists>t. idle_activity s i = Some (con, t) \<and> t + fst i \<le> now}"
proof -
  have l: "(k, l) \<in> set (il_conns s) \<Longrightarrow> idle_list k s = l" for k l
    using idle_ok_maps [OF assms] by (simp add: idle_list_def map_of_set [symmetric])
  have l': "n \<in> set (idle_list k s) \<Longrightarrow> (k, idle_list k s) \<in> set (il_conns s)" for n k
    using idle_ok_maps [OF assms] by (auto simp: idle_list_def dest: map_of_SomeD split: option.splits)
  have due: "p \<in> set (idle_due now (il_conns s)) \<longleftrightarrow>
      (\<exists>n \<in> set (idle_list (fst p) s). snd p = n\<lparr>n_updated := now\<rparr> \<and> n_updated n + fst p \<le> now)" for p
  proof
    assume "p \<in> set (idle_due now (il_conns s))"
    then obtain k m n where "(k, m) \<in> set (il_conns s)" "n \<in> set m" "p = (k, n\<lparr>n_updated := now\<rparr>)" "n_updated n + k \<le> now"
      by (auto simp: idle_due_def)
    with l [of k m] show "\<exists>n \<in> set (idle_list (fst p) s). snd p = n\<lparr>n_updated := now\<rparr> \<and> n_updated n + fst p \<le> now" by auto
  next
    assume "\<exists>n \<in> set (idle_list (fst p) s). snd p = n\<lparr>n_updated := now\<rparr> \<and> n_updated n + fst p \<le> now"
    then obtain n where n: "n \<in> set (idle_list (fst p) s)" "p = (fst p, n\<lparr>n_updated := now\<rparr>)" "n_updated n + fst p \<le> now"
      by (metis prod.collapse)
    with l' [OF n(1)] show "p \<in> set (idle_due now (il_conns s))"
      unfolding idle_due_def set_concat set_map by (intro UN_I [OF imageI]) auto
  qed
  have calls: "((a, k), c) \<in> (\<lambda>p. (called_id p, n_con (snd p))) ` set (idle_due now (il_conns s)) \<longleftrightarrow>
      (\<exists>n \<in> set (idle_list a s). n_id n = k \<and> n_con n = c \<and> n_updated n + a \<le> now)" for a k c
  proof
    assume "((a, k), c) \<in> (\<lambda>p. (called_id p, n_con (snd p))) ` set (idle_due now (il_conns s))"
    then obtain p where "p \<in> set (idle_due now (il_conns s))" "called_id p = (a, k)" "n_con (snd p) = c" by auto
    then show "\<exists>n \<in> set (idle_list a s). n_id n = k \<and> n_con n = c \<and> n_updated n + a \<le> now"
      unfolding due by auto
  next
    assume "\<exists>n \<in> set (idle_list a s). n_id n = k \<and> n_con n = c \<and> n_updated n + a \<le> now"
    then obtain n where n: "n \<in> set (idle_list a s)" "n_id n = k" "n_con n = c" "n_updated n + a \<le> now" by blast
    then have "(a, n\<lparr>n_updated := now\<rparr>) \<in> set (idle_due now (il_conns s))" unfolding due by auto
    then show "((a, k), c) \<in> (\<lambda>p. (called_id p, n_con (snd p))) ` set (idle_due now (il_conns s))"
      by (rule rev_image_eqI) (simp add: n)
  qed
  have act: "((a, k), c) \<in> {(i, con). \<exists>t. idle_activity s i = Some (con, t) \<and> t + fst i \<le> now} \<longleftrightarrow>
      (\<exists>n \<in> set (idle_list a s). n_id n = k \<and> n_con n = c \<and> n_updated n + a \<le> now)" for a k c
    by (auto simp: idle_activity_def idle_find_iff [OF assms])
  show ?thesis
  proof (rule set_eqI)
    fix x :: "idle_id \<times> nat"
    obtain a k c where "x = ((a, k), c)" by (metis surj_pair)
    then show "x \<in> (\<lambda>p. (called_id p, n_con (snd p))) ` set (idle_due now (il_conns s)) \<longleftrightarrow>
        x \<in> {(i, con). \<exists>t. idle_activity s i = Some (con, t) \<and> t + fst i \<le> now}"
      using calls act by simp
  qed
qed

section \<open>The history of a loop\<close>

datatype idle_op = IRegister int nat nat | IUpdate idle_id | IUnregister idle_id | IAdvance int

fun idle_do :: "idle_op \<Rightarrow> 'a idle_loop \<Rightarrow> 'a idle_loop option" where
  "idle_do (IRegister idle con cb) s = Some (snd (registerIdle idle con cb s))"
| "idle_do (IUpdate i) s = updateIdle i s"
| "idle_do (IUnregister i) s = unregisterIdle i s"
| "idle_do (IAdvance d) s = Some (s\<lparr>t_now := t_now s + d\<rparr>)"

primrec idle_run :: "idle_op list \<Rightarrow> 'a idle_loop \<Rightarrow> 'a idle_loop option" where
  "idle_run [] s = Some s"
| "idle_run (p # ps) s = do { s \<leftarrow> idle_do p s; idle_run ps s }"

text \<open>Positive idle times, and a clock that does not go back.\<close>

fun idle_op_ok :: "idle_op \<Rightarrow> bool" where
  "idle_op_ok (IRegister idle con cb) \<longleftrightarrow> 0 < idle"
| "idle_op_ok (IAdvance d) \<longleftrightarrow> 0 \<le> d"
| "idle_op_ok _ \<longleftrightarrow> True"

text \<open>The reference: the time, the number of registrations, and who was active last when.\<close>

type_synonym idle_ref = "int \<times> nat \<times> (idle_id \<Rightarrow> (nat \<times> int) option)"

fun ref_do :: "idle_op \<Rightarrow> idle_ref \<Rightarrow> idle_ref option" where
  "ref_do (IRegister idle con cb) (now, k, act) = Some (now, k + 1, act((idle, k) \<mapsto> (con, now div 1000)))"
| "ref_do (IUpdate i) (now, k, act) =
     (case act i of None \<Rightarrow> None | Some (con, t) \<Rightarrow> Some (now, k, act(i \<mapsto> (con, now div 1000))))"
| "ref_do (IUnregister i) (now, k, act) = (case act i of None \<Rightarrow> None | Some _ \<Rightarrow> Some (now, k, act(i := None)))"
| "ref_do (IAdvance d) (now, k, act) = Some (now + d, k, act)"

primrec ref_run :: "idle_op list \<Rightarrow> idle_ref \<Rightarrow> idle_ref option" where
  "ref_run [] r = Some r"
| "ref_run (p # ps) r = do { r \<leftarrow> ref_do p r; ref_run ps r }"

definition idle_abs :: "'a idle_loop \<Rightarrow> idle_ref" where
  "idle_abs s = (t_now s, il_next s, idle_activity s)"

definition idle_keys :: "'a idle_loop \<Rightarrow> int set" where
  "idle_keys s = fst ` set (il_conns s)"

definition idle_inv :: "'a idle_loop \<Rightarrow> bool" where
  "idle_inv s \<longleftrightarrow> idle_ok s \<and> (\<forall>k \<in> idle_keys s. 0 < k)"

lemma keys_map_put [simp]: "fst ` set (map_put k v m) = insert k (fst ` set m)"
  by (induction k v m rule: map_put.induct) auto

lemma idle_keys_put [simp]:
  "idle_keys (s\<lparr>il_conns := map_put k l (il_conns r), il_next := n\<rparr>) = insert k (idle_keys r)"
  by (simp add: idle_keys_def)

lemma registerIdle_next: "registerIdle idle con cb s = (i, s') \<Longrightarrow>
    i = (idle, il_next s) \<and> il_next s' = il_next s + 1 \<and> t_now s' = t_now s \<and> idle_keys s' = insert idle (idle_keys s)"
  by (auto simp: registerIdle_def Let_def split: if_splits)

lemma idle_find_key: "idle_find i s = Some n \<Longrightarrow> fst i \<in> idle_keys s"
  by (force simp: idle_find_def idle_list_def idle_keys_def split: option.splits dest: map_of_SomeD)

lemma changed_next:
  assumes "updateIdle i s = Some s' \<or> unregisterIdle i s = Some s'"
  shows "il_next s' = il_next s \<and> t_now s' = t_now s \<and> idle_keys s' = idle_keys s"
proof -
  obtain n l where "idle_find i s = Some n" and s': "s' = s\<lparr>il_conns := map_put (fst i) l (il_conns s)\<rparr>"
    using assms by (auto simp: updateIdle_def unregisterIdle_def split: option.splits)
  then have "idle_keys s' = insert (fst i) (idle_keys s)" "fst i \<in> idle_keys s"
    using idle_find_key by (simp_all add: idle_keys_def)
  then show ?thesis using s' by (simp add: insert_absorb)
qed

text \<open>Every operation does what the reference does, and fails exactly when it fails.\<close>

lemma idle_do_ref:
  assumes "idle_inv s" and "idle_op_ok p"
  shows "map_option idle_abs (idle_do p s) = ref_do p (idle_abs s)"
    and "idle_do p s = Some s' \<Longrightarrow> idle_inv s'"
proof -
  have ok: "idle_ok s" and pos: "\<forall>k \<in> idle_keys s. 0 < k" using assms(1) by (auto simp: idle_inv_def)
  have "map_option idle_abs (idle_do p s) = ref_do p (idle_abs s) \<and> (\<forall>s'. idle_do p s = Some s' \<longrightarrow> idle_inv s')"
  proof (cases p)
    case (IRegister idle con cb)
    obtain i u where u: "registerIdle idle con cb s = (i, u)" by (cases "registerIdle idle con cb s")
    with ireg.register_law [OF ok u] registerIdle_next [OF u] IRegister assms(2) pos show ?thesis
      by (auto simp: idle_inv_def idle_abs_def idle_secs_def)
  next
    case (IUpdate i)
    show ?thesis
    proof (cases "idle_activity s i")
      case None
      with ireg.update_gone [OF ok] IUpdate show ?thesis by (simp add: idle_abs_def)
    next
      case (Some v)
      then obtain con t u where "v = (con, t)" and u: "updateIdle i s = Some u" "idle_ok u"
        "idle_activity u = (idle_activity s)(i \<mapsto> (con, idle_secs s))"
        using ireg.update_law [OF ok, of i "fst v" "snd v"] by (cases v) auto
      with changed_next [of i s u] Some IUpdate pos show ?thesis by (auto simp: idle_inv_def idle_abs_def idle_secs_def)
    qed
  next
    case (IUnregister i)
    show ?thesis
    proof (cases "idle_activity s i")
      case None
      with ireg.unregister_gone [OF ok] IUnregister show ?thesis by (simp add: idle_abs_def)
    next
      case (Some v)
      then obtain u where u: "unregisterIdle i s = Some u" "idle_ok u" "idle_activity u = (idle_activity s)(i := None)"
        using ireg.unregister_law [OF ok] by blast
      with changed_next [of i s u] Some IUnregister pos show ?thesis by (auto simp: idle_inv_def idle_abs_def)
    qed
  next
    case (IAdvance d)
    have "idle_activity (s\<lparr>t_now := t_now s + d\<rparr>) = idle_activity s"
      by (simp add: idle_activity_def idle_find_def idle_list_def fun_eq_iff)
    with IAdvance assms ok pos show ?thesis by (simp add: idle_inv_def idle_abs_def idle_keys_def)
  qed
  then show "map_option idle_abs (idle_do p s) = ref_do p (idle_abs s)"
    and "idle_do p s = Some s' \<Longrightarrow> idle_inv s'" by blast+
qed

lemma idle_run_ref:
  "idle_inv s \<Longrightarrow> list_all idle_op_ok ps \<Longrightarrow> map_option idle_abs (idle_run ps s) = ref_run ps (idle_abs s) \<and>
    (\<forall>s'. idle_run ps s = Some s' \<longrightarrow> idle_inv s')"
proof (induction ps arbitrary: s)
  case (Cons p ps)
  have p: "idle_op_ok p" "list_all idle_op_ok ps" using Cons.prems(2) by simp_all
  show ?case
  proof (cases "idle_do p s")
    case None
    then show ?thesis using idle_do_ref(1) [OF Cons.prems(1) p(1)] by simp
  next
    case (Some u)
    then show ?thesis using idle_do_ref [OF Cons.prems(1) p(1)] Cons.IH [OF _ p(2), of u] by (auto dest: sym)
  qed
qed simp

lemma idle_inv_new: "idle_inv (idle_new now)"
  by (simp add: idle_inv_def) (simp add: idle_keys_def idle_new_def timers.defs)

lemma idle_abs_new: "idle_abs (idle_new now) = (now, 0, Map.empty)"
  by (simp add: idle_abs_def idle_new_def timers.defs timers_new_def idle_activity_def idle_find_def idle_list_def fun_eq_iff)

section \<open>Properties\<close>

text \<open>
  C11: Idle callbacks go to the idle connections. After any registrations with positive idle times,
  updates, removals and passing of time, one round of \<open>callIdles\<close> returns and calls, once each, the
  callbacks of exactly those registered ids whose last registration or update is at least their
  idle time ago by the reference that only remembers the last activity of each id; the early end
  of the search in each list misses none. The callbacks leave the idle lists alone.
\<close>

theorem idle_callbacks_exact:
  fixes s :: "'a idle_loop"
  assumes "list_all idle_op_ok ops" and "idle_run ops (idle_new now) = Some s" and "lists_kept cb"
  shows "\<exists>act s' calls. ref_run ops (now, 0, Map.empty) = Some (t_now s, il_next s, act) \<and>
    callIdles cb s = Some s' \<and> il_called s' = il_called s @ calls \<and> distinct (map called_id calls) \<and>
    (\<lambda>p. (called_id p, n_con (snd p))) ` set calls =
      {(i, con). \<exists>t. act i = Some (con, t) \<and> t + fst i \<le> t_now s div 1000}"
proof -
  note run = idle_run_ref [of "idle_new now :: 'a idle_loop" ops, OF idle_inv_new assms(1), unfolded idle_abs_new assms(2)]
  then have ref: "Some (idle_abs s) = ref_run ops (now, 0, Map.empty)" by simp
  have inv: "idle_inv s" using run by blast
  then have ok: "idle_ok s" "\<forall>l \<in> set (il_conns s). 0 < fst l" by (auto simp: idle_inv_def idle_keys_def)
  obtain s' where "callIdles cb s = Some s'" "il_called s' = il_called s @ idle_due (idle_secs s) (il_conns s)"
    using callIdles_due [OF assms(3) ok] by blast
  moreover have "distinct (map called_id (idle_due (idle_secs s) (il_conns s)))"
    using ok(1) by (intro idle_due_ids) (auto simp: idle_ok_def idle_list_ok_def)
  ultimately show ?thesis
    using ref [symmetric] idle_due_set [OF ok(1), of "idle_secs s"] unfolding idle_abs_def idle_secs_def by blast
qed

definition idle_ops :: "idle_op list" where
  "idle_ops = [IRegister 10 1 0, IRegister 10 2 0, IAdvance 6000, IUpdate (10, 0), IAdvance 5000]"

lemma idle_ops_set: "{(i :: idle_id, con :: nat). \<exists>t. [(10, 0) \<mapsto> (1, 6), (10, 1) \<mapsto> (2, 0)] i = Some (con, t) \<and>
    t + fst i \<le> (11000 :: int) div 1000} = {((10, 1), 2)}"
  by (simp add: set_eq_iff)

theorem idle_callbacks_exact_witness:
  "\<exists>(s :: nat idle_loop) s' calls. idle_run idle_ops (idle_new 0) = Some s \<and> callIdles (\<lambda>n. Some) s = Some s' \<and>
    il_called s' = il_called s @ calls \<and> (\<lambda>p. (called_id p, n_con (snd p))) ` set calls = {((10, 1), 2)}"
proof -
  have ops: "list_all idle_op_ok idle_ops" by (simp add: idle_ops_def)
  have ref: "ref_run idle_ops (0, 0, Map.empty) = Some (11000, 2, [(10, 0) \<mapsto> (1, 6), (10, 1) \<mapsto> (2, 0)])"
    by (simp add: idle_ops_def fun_eq_iff)
  then obtain s :: "nat idle_loop" where s: "idle_run idle_ops (idle_new 0) = Some s"
    using idle_run_ref [OF idle_inv_new ops, of 0] unfolding idle_abs_new by fastforce
  have "lists_kept (\<lambda>n. Some)" by (simp add: lists_kept_def)
  from idle_callbacks_exact [OF ops s this] obtain act s' calls where
    r: "ref_run idle_ops (0, 0, Map.empty) = Some (t_now s, il_next s, act)" and
    c: "callIdles (\<lambda>n. Some) s = Some s'" "il_called s' = il_called s @ calls" and
    k: "(\<lambda>p. (called_id p, n_con (snd p))) ` set calls = {(i, con). \<exists>t. act i = Some (con, t) \<and> t + fst i \<le> t_now s div 1000}"
    by blast
  have e: "(t_now s, il_next s, act) = (11000, 2, [(10, 0) \<mapsto> (1, 6), (10, 1) \<mapsto> (2, 0)])"
    by (rule option.inject [THEN iffD1, OF trans [OF r [symmetric] ref]])
  have act: "act = [(10, 0) \<mapsto> (1, 6), (10, 1) \<mapsto> (2, 0)]" by (rule Pair_inject [OF e], erule Pair_inject)
  have now: "t_now s = 11000" by (rule Pair_inject [OF e])
  have "(\<lambda>p. (called_id p, n_con (snd p))) ` set calls = {((10, 1), 2)}"
    using k unfolding act now idle_ops_set .
  with s c show ?thesis by blast
qed

text \<open>
  An idle connection is called back again in every round: \<open>callIdles\<close> sets \<open>updated_\<close> and moves
  the node in its copy of the list only, so that every id it called is called again by the next
  round, a second later, although the list has the time of the first call as its last activity.
\<close>

theorem idle_called_every_round:
  assumes "idle_inv s" and "lists_kept cb" and "callIdles cb s = Some s'" and "0 \<le> d"
  shows "\<exists>s'' once again. il_called s' = il_called s @ once \<and> callIdles cb (s'\<lparr>t_now := t_now s' + d\<rparr>) = Some s'' \<and>
    il_called s'' = il_called s' @ again \<and> called_id ` set once \<subseteq> called_id ` set again"
proof -
  have ok: "idle_ok s" "\<forall>l \<in> set (il_conns s). 0 < fst l" using assms(1) by (auto simp: idle_inv_def idle_keys_def)
  have 1: "idle_same s s'" "il_called s' = il_called s @ idle_due (idle_secs s) (il_conns s)"
    using callIdles_due [OF assms(2) ok] assms(3) by auto
  let ?t = "s'\<lparr>t_now := t_now s' + d\<rparr>"
  have "idle_ok s'" using idle_ok_base(1) [of s' s] 1(1) ok(1) by (simp add: idle_same_def)
  from idle_ok_advance [OF this assms(4)] have t: "idle_ok ?t" .
  have t2: "il_conns ?t = il_conns s" "idle_secs s \<le> idle_secs ?t"
    using 1(1) assms(4) by (simp_all add: idle_same_def idle_secs_def zdiv_mono1)
  obtain s'' where "callIdles cb ?t = Some s''" "il_called s'' = il_called s' @ idle_due (idle_secs ?t) (il_conns s)"
    using callIdles_due [OF assms(2) t] ok(2) t2(1) by auto
  moreover have "called_id ` set (idle_due (idle_secs s) (il_conns s)) \<subseteq> called_id ` set (idle_due (idle_secs ?t) (il_conns s))"
    using t2(2) by (force simp: idle_due_def)
  ultimately show ?thesis using 1(2) by blast
qed

theorem idle_called_every_round_witness:
  "\<exists>(s :: nat idle_loop) s' s'' once again. callIdles (\<lambda>n. Some) s = Some s' \<and> il_called s' = il_called s @ once \<and>
    callIdles (\<lambda>n. Some) (s'\<lparr>t_now := t_now s' + 1000\<rparr>) = Some s'' \<and> il_called s'' = il_called s' @ again \<and>
    called_id ` set once \<subseteq> called_id ` set again \<and> once \<noteq> []"
proof -
  define s :: "nat idle_loop" where "s = (snd (registerIdle 10 1 0 (idle_new 0)))\<lparr>t_now := 20000\<rparr>"
  have conns: "il_conns s = [(10, [\<lparr>n_id = 0, n_con = 1, n_updated = 0, n_cb = 0\<rparr>])]"
    by (simp add: s_def registerIdle_def Let_def idle_new_def timers.defs idle_list_def idle_secs_def timers_new_def)
  have "il_next s = 1" "t_now s = 20000" by (simp_all add: s_def registerIdle_def Let_def idle_new_def timers.defs)
  with conns have inv: "idle_inv s" by (simp add: idle_inv_def idle_ok_def idle_list_ok_def idle_keys_def idle_secs_def)
  have cb: "lists_kept (\<lambda>n. Some)" by (simp add: lists_kept_def)
  have due: "idle_due (idle_secs s) (il_conns s) \<noteq> []" using conns \<open>t_now s = 20000\<close> by (simp add: idle_due_def idle_secs_def)
  obtain s' where s': "callIdles (\<lambda>n. Some) s = Some s'" "il_called s' = il_called s @ idle_due (idle_secs s) (il_conns s)"
    using callIdles_due [OF cb, of s] inv conns by (auto simp: idle_inv_def)
  from idle_called_every_round [OF inv cb s'(1), of 1000] obtain s'' once again where
    "il_called s' = il_called s @ once" "callIdles (\<lambda>n. Some) (s'\<lparr>t_now := t_now s' + 1000\<rparr>) = Some s''"
    "il_called s'' = il_called s' @ again" "called_id ` set once \<subseteq> called_id ` set again"
    by auto
  moreover from this(1) s'(2) due have "once \<noteq> []" by simp
  ultimately show ?thesis using s'(1) by blast
qed

text \<open>With no positive idle time the nodes moved to the end are idle again at once.\<close>

lemma idle_calls_stuck:
  assumes "idle_calls cb now idle l s = Some s'"
  shows "\<not> (l \<noteq> [] \<and> (\<forall>n \<in> set l. n_updated n \<le> now) \<and> idle \<le> 0)"
proof (rule idle_calls.raw_induct [where P = "\<lambda>cb now idle l s s'. \<not> (l \<noteq> [] \<and> (\<forall>n \<in> set l. n_updated n \<le> now) \<and> idle \<le> 0)", OF _ assms], rule notI, elim conjE)
  fix f cb now idle l s s'
  assume ih: "\<And>cb now idle l s s'. f cb now idle l s = Some s' \<Longrightarrow> \<not> (l \<noteq> [] \<and> (\<forall>n \<in> set l. n_updated n \<le> now) \<and> idle \<le> 0)"
    and step: "(case l of [] \<Rightarrow> Some s | n # ns \<Rightarrow> if now < n_updated n + idle then Some s
      else let n = n\<lparr>n_updated := now\<rparr> in cb n (s\<lparr>il_called := il_called s @ [(idle, n)]\<rparr>) \<bind> f cb now idle (ns @ [n])) = Some s'"
    and l: "l \<noteq> []" "\<forall>n \<in> set l. n_updated n \<le> now" "idle \<le> 0"
  from l obtain n ns where n: "l = n # ns" "\<not> now < n_updated n + idle" by (cases l) auto
  with step obtain u where "f cb now idle (ns @ [n\<lparr>n_updated := now\<rparr>]) u = Some s'"
    by (auto simp: Let_def split: bind_splits)
  from ih [OF this] l n(1) show False by simp
qed

lemma idle_lists_stuck:
  assumes "map_ok (prev @ todo)" and "il_conns s = prev @ todo" and "(idle, l) \<in> set todo" and "idle \<le> 0" and "l \<noteq> []"
    and "\<forall>m \<in> set todo. \<forall>n \<in> set (snd m). n_updated n \<le> now" and "k = (if prev = [] then None else Some (fst (last prev)))"
  shows "idle_lists cb now k s = None"
  using assms(1-3,6,7)
proof (induction todo arbitrary: prev k)
  case (Cons m todo)
  have find: "find (\<lambda>l. case k of None \<Rightarrow> True | Some j \<Rightarrow> j < fst l) (il_conns s) = Some m"
    using next_list [OF Cons.prems(1,5)] Cons.prems(2) by simp
  show ?case
  proof (cases "snd m = []")
    case True
    then have "(idle, l) \<in> set todo" using Cons.prems(3) assms(5) by auto
    then have "idle_lists cb now (Some (fst m)) s = None"
      using Cons.IH [of "prev @ [m]" "Some (fst m)"] Cons.prems by simp
    with find True show ?thesis by (subst idle_lists.simps) (simp add: idle_calls.simps)
  next
    case False
    have "map_ok (m # todo)" using Cons.prems(1) by (induction prev) auto
    then have "fst m \<le> 0" using Cons.prems(3) assms(4) by fastforce
    then have "idle_calls cb now (fst m) (snd m) s = None"
      using idle_calls_stuck [of cb now "fst m" "snd m" s] False Cons.prems(4) by (cases "idle_calls cb now (fst m) (snd m) s") auto
    with find show ?thesis by (subst idle_lists.simps) simp
  qed
qed simp

text \<open>
  With a connection registered for an idle time of zero or less, \<open>callIdles\<close> never returns,
  whatever its callbacks do: the copy of the list is searched for ever, as a node moved to the
  end with the present time counts as idle at once. The loop thread is stuck in the timer.
\<close>

theorem idle_zero_never_returns:
  assumes "idle_ok s" and "(idle, l) \<in> set (il_conns s)" and "l \<noteq> []" and "idle \<le> 0"
  shows "callIdles cb s = None"
  using idle_lists_stuck [of "[]" "il_conns s" s idle l "idle_secs s" None cb] assms
  by (auto simp: callIdles_def idle_ok_def idle_list_ok_def)

theorem idle_zero_never_returns_witness:
  "callIdles (\<lambda>n. Some) (snd (registerIdle 0 1 0 (idle_new 5000)) :: nat idle_loop) = None"
proof -
  let ?s = "snd (registerIdle 0 1 0 (idle_new 5000)) :: nat idle_loop"
  have "il_conns ?s = [(0, [\<lparr>n_id = 0, n_con = 1, n_updated = 5, n_cb = 0\<rparr>])]"
    by (simp add: registerIdle_def Let_def idle_new_def timers.defs idle_list_def idle_secs_def timers_new_def
        runAfter_def runAt_def refreshNearest_def)
  moreover have "idle_ok ?s" using registerIdle_law [OF idle_ok_new, of 0 1 0 5000] by (metis prod.collapse)
  ultimately show ?thesis using idle_zero_never_returns [of ?s 0] by auto
qed

text \<open>
  The callbacks of one list are those of the copy made when its turn comes: also a node that
  an earlier callback of the same round has unregistered is called, for any callbacks that return.
\<close>

theorem idle_called_after_unregister:
  assumes "0 < idle" and "\<forall>n s. \<exists>s'. cb n s = Some s' \<and> il_called s' = il_called s" and "sorted (map n_updated l)"
  shows "\<exists>s'. idle_calls cb now idle l s = Some s' \<and>
    il_called s' = il_called s @ map (\<lambda>n. (idle, n\<lparr>n_updated := now\<rparr>)) (filter (expired now idle) l)"
  using idle_calls_prefix [where R = "\<lambda>_ _. True" and cb = cb and ys = "[]" and xs = l and s = s and now = now] assms
  by (simp add: takeWhile_expired)

text \<open>The first callback unregisters both nodes of its list; the second is called all the same.\<close>

definition idle_two :: "nat idle_loop" where
  "idle_two = (snd (registerIdle 10 2 0 (snd (registerIdle 10 1 0 (idle_new 0)))))\<lparr>t_now := 20000\<rparr>"

theorem idle_called_after_unregister_witness:
  "\<exists>s'. idle_calls (\<lambda>n s. Some (s\<lparr>il_conns := []\<rparr>)) 20 10 (idle_list 10 idle_two) idle_two = Some s' \<and>
    map (\<lambda>p. n_con (snd p)) (il_called s') = [1, 2]"
proof -
  have l: "idle_list 10 idle_two = [\<lparr>n_id = 0, n_con = 1, n_updated = 0, n_cb = 0\<rparr>, \<lparr>n_id = 1, n_con = 2, n_updated = 0, n_cb = 0\<rparr>]"
    "il_called idle_two = []"
    by (simp_all add: idle_two_def registerIdle_def Let_def idle_new_def timers.defs idle_list_def idle_secs_def timers_new_def
        runAfter_def runAt_def refreshNearest_def)
  show ?thesis
    using idle_called_after_unregister [of 10 "\<lambda>n s. Some (s\<lparr>il_conns := []\<rparr>)" "idle_list 10 idle_two" 20 idle_two] l by auto
qed

end
